(* ===== verification/Prelude.thy ===== *)
theory Prelude
  imports Main "HOL-Library.Word" "HOL-Library.Multiset"
begin

text \<open>
  The vocabulary every component shares: undefined behaviour and \<open>exit\<close> as error values, signed
  \<open>int\<close> arithmetic with its overflow check, NUL-terminated character buffers, runs of a
  deterministic machine over a list of events. The locales say once what an invariant of such a
  machine gives, and when the order of the events does not matter; every concurrent component
  interprets one of them on its own step function.
\<close>

section \<open>Evaluations that have no value\<close>

text \<open>
  Evaluating a C expression yields a value, or is undefined at some step, or ends the program
  with \<open>exit\<close>. The model keeps these apart in a sum: \<open>Inl\<close> says why there is no value, \<open>Inr\<close>
  carries it. \<open>Bad_Conversion\<close> is a number that \<open>scanf\<close> reads and its type cannot hold, \<open>Bad_Address\<close> a pointer
  to memory that is not mapped, \<open>Bad_Index\<close> a record read or written outside its array.
\<close>

datatype stop = Write_Overflow | Read_Overflow | Null_Deref | Signed_Overflow | Uninit_Read
  | Bad_Conversion | Bad_Address | Bad_Index | Exit int

type_synonym 'a c = "stop + 'a"

fun cbind :: "'a c \<Rightarrow> ('a \<Rightarrow> 'b c) \<Rightarrow> 'b c" where
  "cbind (Inl e) f = Inl e"
| "cbind (Inr x) f = f x"

lemma cbind_eq_Inr [simp]: "cbind m f = Inr y \<longleftrightarrow> (\<exists>x. m = Inr x \<and> f x = Inr y)"
  by (cases m) auto

lemma Inr_eq_cbind [simp]: "Inr y = cbind m f \<longleftrightarrow> (\<exists>x. m = Inr x \<and> f x = Inr y)"
  by (cases m) auto

lemma cbind_assoc: "cbind (cbind m f) g = cbind m (\<lambda>x. cbind (f x) g)"
  by (cases m) auto

lemma cbind_eq_Inl: "cbind m f = Inl e \<longleftrightarrow> m = Inl e \<or> (\<exists>x. m = Inr x \<and> f x = Inl e)"
  by (cases m) auto

section \<open>Signed 32-bit arithmetic\<close>

definition in_int :: "int \<Rightarrow> bool" where
  "in_int x \<longleftrightarrow> - 2147483648 \<le> x \<and> x \<le> 2147483647"

definition chk :: "int \<Rightarrow> int c" where
  "chk x = (if in_int x then Inr x else Inl Signed_Overflow)"

lemma chk_eq_Inr [simp]: "chk x = Inr y \<longleftrightarrow> in_int x \<and> y = x"
  by (auto simp: chk_def)

lemma chk_eq_Inl [simp]: "chk x = Inl e \<longleftrightarrow> \<not> in_int x \<and> e = Signed_Overflow"
  by (auto simp: chk_def)

text \<open>Division of \<open>int\<close>s in C truncates towards zero.\<close>

definition quot :: "int \<Rightarrow> int \<Rightarrow> int" where
  "quot a b = sgn a * sgn b * (\<bar>a\<bar> div \<bar>b\<bar>)"

lemma quot_abs: "b \<noteq> 0 \<Longrightarrow> \<bar>quot a b\<bar> = \<bar>a\<bar> div \<bar>b\<bar>"
  by (auto simp: quot_def abs_mult sgn_if pos_imp_zdiv_nonneg_iff)

lemma quot_rem: "quot a b * b + sgn a * (\<bar>a\<bar> mod \<bar>b\<bar>) = a"
proof -
  have "quot a b * b = sgn a * (\<bar>a\<bar> div \<bar>b\<bar> * \<bar>b\<bar>)"
    by (simp add: quot_def abs_sgn [of b] mult_ac)
  then have "quot a b * b + sgn a * (\<bar>a\<bar> mod \<bar>b\<bar>) = sgn a * \<bar>a\<bar>"
    by (metis distrib_left div_mult_mod_eq)
  then show ?thesis by (simp add: sgn_mult_abs)
qed

lemma unat_bound: "unat w < 2 ^ LENGTH('a)" for w :: "'a::len word"
  by (fact unsigned_less)

section \<open>NUL-terminated buffers\<close>

text \<open>
  A \<open>char[n]\<close> is a list of \<open>n\<close> characters. A string in it ends at the first NUL; the
  characters after it are whatever was there before. Reading a buffer as a string when no
  NUL is in it runs past the end, and so does writing a string with its NUL into a buffer
  that is too short.
\<close>

abbreviation NUL :: char where
  "NUL \<equiv> CHR 0x00"

definition cstr :: "char list \<Rightarrow> string" where
  "cstr b = takeWhile (\<lambda>c. c \<noteq> NUL) b"

definition terminated :: "char list \<Rightarrow> bool" where
  "terminated b \<longleftrightarrow> NUL \<in> set b"

definition get_str :: "char list \<Rightarrow> string c" where
  "get_str b = (if terminated b then Inr (cstr b) else Inl Read_Overflow)"

definition put_str :: "char list \<Rightarrow> string \<Rightarrow> char list c" where
  "put_str b s = (if length s < length b then Inr (s @ NUL # drop (Suc (length s)) b)
                  else Inl Write_Overflow)"

definition cat_str :: "char list \<Rightarrow> string \<Rightarrow> char list c" where
  "cat_str b t = cbind (get_str b) (\<lambda>s. put_str b (s @ t))"

lemma cstr_append_NUL [simp]: "NUL \<notin> set s \<Longrightarrow> cstr (s @ NUL # r) = s"
  by (auto simp: cstr_def takeWhile_append)

lemma terminated_append_NUL [simp]: "terminated (s @ NUL # r)"
  by (simp add: terminated_def)

lemma NUL_notin_cstr [simp]: "NUL \<notin> set (cstr b)"
  by (auto simp: cstr_def dest: set_takeWhileD)

lemma get_str_Inr [simp]: "get_str b = Inr s \<longleftrightarrow> terminated b \<and> s = cstr b"
  by (auto simp: get_str_def)

lemma put_str_Inr:
  "put_str b s = Inr b' \<longleftrightarrow> length s < length b \<and> b' = s @ NUL # drop (Suc (length s)) b"
  by (auto simp: put_str_def)

lemma put_str_length: "put_str b s = Inr b' \<Longrightarrow> length b' = length b"
  by (auto simp: put_str_Inr)

lemma put_str_cstr: "put_str b s = Inr b' \<Longrightarrow> NUL \<notin> set s \<Longrightarrow> terminated b' \<and> cstr b' = s"
  by (auto simp: put_str_Inr)

lemma cat_str_cstr:
  "cat_str b t = Inr b' \<Longrightarrow> NUL \<notin> set t \<Longrightarrow>
   terminated b' \<and> cstr b' = cstr b @ t \<and> length b' = length b"
  by (auto simp: cat_str_def dest: put_str_cstr put_str_length)

lemma cat_str_total:
  "terminated b \<Longrightarrow> length (cstr b) + length t < length b \<Longrightarrow> \<exists>b'. cat_str b t = Inr b'"
  by (auto simp: cat_str_def put_str_Inr)

lemma length_cstr_less: "terminated b \<Longrightarrow> length (cstr b) < length b"
proof -
  assume t: "terminated b"
  then have "takeWhile (\<lambda>c. c \<noteq> NUL) b \<noteq> b"
    by (metis (mono_tags, lifting) set_takeWhileD terminated_def)
  then show ?thesis
    unfolding cstr_def by (metis length_takeWhile_le nat_less_le takeWhile_eq_take take_all)
qed

section \<open>Counting in a list under an update\<close>

definition count_where :: "('a \<Rightarrow> bool) \<Rightarrow> 'a list \<Rightarrow> nat" where
  "count_where P xs = length (filter P xs)"

lemma count_where_Nil [simp]: "count_where P [] = 0"
  and count_where_Cons [simp]: "count_where P (x # xs) = of_bool (P x) + count_where P xs"
  by (simp_all add: count_where_def)

lemma count_where_update:
  "i < length xs \<Longrightarrow>
   count_where P (xs[i := v]) + of_bool (P (xs ! i)) = count_where P xs + of_bool (P v)"
proof (induction xs arbitrary: i)
  case Nil
  then show ?case by simp
next
  case (Cons x xs)
  then show ?case by (cases i) auto
qed

lemma count_where_same [simp]:
  "i < length xs \<Longrightarrow> P v = P (xs ! i) \<Longrightarrow> count_where P (xs[i := v]) = count_where P xs"
  using count_where_update [of i xs P v] by simp

lemma count_where_pos: "0 < count_where P xs \<longleftrightarrow> (\<exists>x \<in> set xs. P x)"
  by (auto simp: count_where_def filter_empty_conv)

lemma count_where_pos_nth: "i < length xs \<Longrightarrow> P (xs ! i) \<Longrightarrow> 0 < count_where P xs"
  by (auto simp: count_where_pos)

lemma count_where_ex: "0 < count_where P xs \<Longrightarrow> \<exists>i < length xs. P (xs ! i)"
  by (auto simp: count_where_pos in_set_conv_nth)

lemma count_where_le: "count_where P xs \<le> length xs"
  by (simp add: count_where_def)

lemma count_where_all: "count_where P xs = length xs \<longleftrightarrow> (\<forall>x \<in> set xs. P x)"
  by (metis count_where_def filter_True length_filter_less less_irrefl)

lemma count_where_0: "count_where P xs = 0 \<longleftrightarrow> (\<forall>i < length xs. \<not> P (xs ! i))"
  using count_where_pos [of P xs] by (force simp: in_set_conv_nth)

text \<open>The same for what the elements of a list contribute to a multiset.\<close>

lemma mset_concat_update:
  "i < length xs \<Longrightarrow>
   mset (concat (map f (xs[i := v]))) + mset (f (xs ! i)) = mset (concat (map f xs)) + mset (f v)"
proof (induction xs arbitrary: i)
  case Nil
  then show ?case by simp
next
  case (Cons x xs)
  then show ?case by (cases i) (auto simp: add_ac)
qed

section \<open>Machines\<close>

text \<open>
  A deterministic machine is a step function from an event and a state; an event names the
  thread or process that moves and whatever its environment decides. \<open>None\<close> says the event
  is not possible in that state. A run is a list of events.
\<close>

fun run :: "('e \<Rightarrow> 's \<Rightarrow> 's option) \<Rightarrow> 'e list \<Rightarrow> 's \<Rightarrow> 's option" where
  "run step [] s = Some s"
| "run step (e # es) s = (case step e s of None \<Rightarrow> None | Some s' \<Rightarrow> run step es s')"

lemma run_append:
  "run step (es @ fs) s = (case run step es s of None \<Rightarrow> None | Some t \<Rightarrow> run step fs t)"
  by (induction es arbitrary: s) (auto split: option.splits)

text \<open>An invariant with a budget that every step may use up a part of.\<close>

lemma run_budget:
  assumes "\<And>n e s t. I (Suc n) s \<Longrightarrow> step e s = Some t \<Longrightarrow> I n t"
  shows "I (n + length es) s \<Longrightarrow> run step es s = Some t \<Longrightarrow> I n t"
proof (induction es arbitrary: s)
  case (Cons e es)
  then show ?case by (auto split: option.splits dest: assms)
qed simp

text \<open>A check on the result of a run, for closed examples.\<close>

definition ends_in :: "('s \<Rightarrow> bool) \<Rightarrow> 's option \<Rightarrow> bool" where
  "ends_in P r = (case r of None \<Rightarrow> False | Some s \<Rightarrow> P s)"

lemma ends_inE: "ends_in P r \<Longrightarrow> (\<And>s. r = Some s \<Longrightarrow> P s \<Longrightarrow> Q) \<Longrightarrow> Q"
  by (auto simp: ends_in_def split: option.splits)

lemma ends_in_mono: "ends_in P r \<Longrightarrow> (\<And>s. r = Some s \<Longrightarrow> P s \<Longrightarrow> Q s) \<Longrightarrow> ends_in Q r"
  by (auto simp: ends_in_def split: option.splits)

locale event_system =
  fixes step :: "'e \<Rightarrow> 's \<Rightarrow> 's option" and inv :: "'s \<Rightarrow> bool"
  assumes step_inv: "inv s \<Longrightarrow> step e s = Some t \<Longrightarrow> inv t"
begin

lemma run_inv: "inv s \<Longrightarrow> run step es s = Some t \<Longrightarrow> inv t"
proof (induction es arbitrary: s)
  case Nil
  then show ?case by simp
next
  case (Cons e es)
  then show ?case by (auto split: option.splits dest: step_inv)
qed

end

text \<open>
  A machine implements an abstract one when each of its steps is, seen through \<open>abs\<close>, a step of the
  abstract machine or no step at all.
\<close>

locale refinement = event_system +
  fixes astep :: "'a \<Rightarrow> 'b \<Rightarrow> 'b option" and abs :: "'s \<Rightarrow> 'b"
  assumes simulates: "inv s \<Longrightarrow> step e s = Some t \<Longrightarrow> abs t = abs s \<or> (\<exists>a. astep a (abs s) = Some (abs t))"
begin

lemma run_refines: "inv s \<Longrightarrow> run step es s = Some t \<Longrightarrow> \<exists>as. run astep as (abs s) = Some (abs t)"
proof (induction es arbitrary: s)
  case Nil
  then show ?case by (intro exI [of _ "[]"]) simp
next
  case (Cons e es)
  then obtain u where u: "step e s = Some u" "run step es u = Some t" by (auto split: option.splits)
  obtain as where as: "run astep as (abs u) = Some (abs t)"
    using Cons.IH [OF step_inv [OF Cons.prems(1) u(1)] u(2)] by blast
  from simulates [OF Cons.prems(1) u(1)] show ?case
  proof (elim disjE exE)
    fix a assume "astep a (abs s) = Some (abs u)"
    then show ?thesis using as by (intro exI [of _ "a # as"]) simp
  qed (use as in auto)
qed

end

text \<open>
  Where the moves of different processes do not disturb each other, the scheduler has no influence:
  if one run comes to an end, every run can be continued to the same end, in the same number of
  steps.
\<close>

locale commuting = event_system +
  assumes diamond: "inv s \<Longrightarrow> step i s = Some t \<Longrightarrow> step j s = Some u \<Longrightarrow> i \<noteq> j \<Longrightarrow>
    \<exists>v. step j t = Some v \<and> step i u = Some v"
begin

lemma end_after_step:
  assumes "inv s" "run step es s = Some t" "\<forall>i. step i t = None" "step i s = Some u"
  shows "\<exists>fs. run step fs u = Some t \<and> length es = Suc (length fs)"
  using assms
proof (induction es arbitrary: s u)
  case Nil
  then show ?case by simp
next
  case (Cons j es)
  then obtain s' where s': "step j s = Some s'" "run step es s' = Some t" by (auto split: option.splits)
  show ?case
  proof (cases "i = j")
    case True
    then show ?thesis using s' Cons.prems(4) by auto
  next
    case False
    then obtain v where v: "step i s' = Some v" "step j u = Some v"
      using diamond [OF Cons.prems(1) Cons.prems(4) s'(1)] by blast
    obtain fs where "run step fs v = Some t" "length es = Suc (length fs)"
      using Cons.IH [OF step_inv [OF Cons.prems(1) s'(1)] s'(2) Cons.prems(3) v(1)] by blast
    then show ?thesis using v(2) by (intro exI [of _ "j # fs"]) simp
  qed
qed

lemma same_end:
  assumes "inv s" "run step es s = Some t" "\<forall>i. step i t = None" "run step fs s = Some u"
  shows "\<exists>gs. run step gs u = Some t \<and> length es = length fs + length gs"
  using assms
proof (induction fs arbitrary: s es)
  case Nil
  then show ?case by auto
next
  case (Cons i fs)
  then obtain s' where s': "step i s = Some s'" "run step fs s' = Some u" by (auto split: option.splits)
  obtain es' where es': "run step es' s' = Some t" "length es = Suc (length es')"
    using end_after_step [OF Cons.prems(1-3) s'(1)] by blast
  then show ?case
    using Cons.IH [OF step_inv [OF Cons.prems(1) s'(1)] es'(1) Cons.prems(3) s'(2)] by auto
qed

end

text \<open>
  A step relation instead of a function, where the environment moves as it likes: the states it
  reaches from an initial one, and what an invariant gives for them.
\<close>

inductive reach :: "('s \<Rightarrow> 's \<Rightarrow> bool) \<Rightarrow> 's \<Rightarrow> 's \<Rightarrow> bool" for step s0 where
  reach_init: "reach step s0 s0"
| reach_step: "reach step s0 s \<Longrightarrow> step s t \<Longrightarrow> reach step s0 t"

locale transition_system =
  fixes step :: "'s \<Rightarrow> 's \<Rightarrow> bool" and init :: "'s \<Rightarrow> bool" and inv :: "'s \<Rightarrow> bool"
  assumes init_inv: "init s \<Longrightarrow> inv s"
    and step_inv: "inv s \<Longrightarrow> step s t \<Longrightarrow> inv t"
begin

lemma reach_inv: "reach step s0 s \<Longrightarrow> init s0 \<Longrightarrow> inv s"
  by (induction rule: reach.induct) (auto intro: init_inv step_inv)

end

end
