(* ===== verification/Bounded_Fifo.thy ===== *)
theory Bounded_Fifo
  imports Prelude
begin

text \<open>
  The interface of a bounded first-in first-out buffer, as the client of a ring buffer relies
  on it: a list is the abstract content, an insertion is allowed while there is room, a removal
  while there is something to remove. What a client may conclude from the laws is proved once
  here; the ring of accepted sockets of the queue server provides it.
\<close>

locale bounded_fifo =
  fixes put :: "'a \<Rightarrow> 'q \<Rightarrow> 'q" and get :: "'q \<Rightarrow> 'a \<times> 'q"
    and content :: "'q \<Rightarrow> 'a list" and wf :: "'q \<Rightarrow> bool" and cap :: nat
  assumes put_wf: "wf q \<Longrightarrow> length (content q) < cap \<Longrightarrow> wf (put x q)"
    and put_content: "wf q \<Longrightarrow> length (content q) < cap \<Longrightarrow> content (put x q) = content q @ [x]"
    and get_wf: "wf q \<Longrightarrow> content q \<noteq> [] \<Longrightarrow> wf (snd (get q))"
    and get_content: "wf q \<Longrightarrow> content q \<noteq> [] \<Longrightarrow> content q = fst (get q) # content (snd (get q))"
    and wf_cap: "wf q \<Longrightarrow> length (content q) \<le> cap"
begin

text \<open>Filling from a list and draining it again gives the list back, in order.\<close>

lemma put_many:
  "wf q \<Longrightarrow> length (content q) + length xs \<le> cap \<Longrightarrow>
   wf (fold put xs q) \<and> content (fold put xs q) = content q @ xs"
proof (induction xs arbitrary: q)
  case Nil
  then show ?case by simp
next
  case (Cons x xs)
  then have "wf (put x q)" and "content (put x q) = content q @ [x]"
    by (auto intro: put_wf put_content)
  with Cons show ?case by simp
qed

lemma get_fst: "wf q \<Longrightarrow> content q = x # xs \<Longrightarrow> fst (get q) = x"
  using get_content [of q] by simp

lemma get_snd: "wf q \<Longrightarrow> content q = x # xs \<Longrightarrow> content (snd (get q)) = xs"
  using get_content [of q] by simp

lemma put_get: "wf q \<Longrightarrow> content q = [] \<Longrightarrow> 0 < cap \<Longrightarrow>
    fst (get (put x q)) = x \<and> content (snd (get (put x q))) = []"
  using put_wf [of q x] put_content [of q x] get_fst [of "put x q" x "[]"]
    get_snd [of "put x q" x "[]"] by simp

text \<open>
  A history of insertions and removals, each done only when the guard of the blocking call
  lets it through. What came out, followed by what is still inside, is what went in.
\<close>

lemma history_put:
  "wf q \<Longrightarrow> length (content q) < cap \<Longrightarrow> ins = outs @ content q \<Longrightarrow>
   ins @ [x] = outs @ content (put x q)"
  by (simp add: put_content)

lemma history_get:
  "wf q \<Longrightarrow> content q \<noteq> [] \<Longrightarrow> ins = outs @ content q \<Longrightarrow>
   ins = (outs @ [fst (get q)]) @ content (snd (get q))"
  using get_content [of q] by simp

end

end
