(* ===== verification/Server_Queue.thy ===== *)
theory Server_Queue
  imports Bounded_Fifo
begin

text \<open>
  The server of \<open>sockets/hw2/server queue/server.c\<close>: a main thread accepts connections and
  puts their sockets into a ring buffer of \<open>QUEUE_SIZE\<close> entries; \<open>MAX_THREADS\<close> workers take
  them out and echo what the client sends. The ring buffer is guarded by one mutex and two
  condition variables. The threads are a machine whose program counters are the statements
  between which another thread can run.
\<close>

section \<open>The ring buffer\<close>

definition QUEUE_SIZE :: nat where "QUEUE_SIZE = 10"

definition MAX_THREADS :: nat where "MAX_THREADS = 5"

record client_queue =
  slots :: "int list"
  front :: nat
  rear :: nat
  count :: nat

definition init_queue :: "client_queue \<Rightarrow> client_queue" where
  "init_queue q = q\<lparr>front := 0, rear := 0, count := 0\<rparr>"

text \<open>The statements of \<open>add_to_queue\<close> and \<open>remove_from_queue\<close> between lock and unlock.\<close>

definition q_store :: "int \<Rightarrow> client_queue \<Rightarrow> client_queue" where
  "q_store c q = q\<lparr>slots := (slots q)[rear q := c]\<rparr>"

definition q_rear :: "client_queue \<Rightarrow> client_queue" where
  "q_rear q = q\<lparr>rear := (rear q + 1) mod QUEUE_SIZE\<rparr>"

definition q_inc :: "client_queue \<Rightarrow> client_queue" where
  "q_inc q = q\<lparr>count := count q + 1\<rparr>"

definition q_front :: "client_queue \<Rightarrow> client_queue" where
  "q_front q = q\<lparr>front := (front q + 1) mod QUEUE_SIZE\<rparr>"

definition q_dec :: "client_queue \<Rightarrow> client_queue" where
  "q_dec q = q\<lparr>count := count q - 1\<rparr>"

definition add_body :: "int \<Rightarrow> client_queue \<Rightarrow> client_queue" where
  "add_body c q = q_inc (q_rear (q_store c q))"

definition remove_body :: "client_queue \<Rightarrow> int \<times> client_queue" where
  "remove_body q = (slots q ! front q, q_dec (q_front q))"

text \<open>The sockets in the ring, oldest first: \<open>n\<close> entries from \<open>front\<close> on, wrapping around.\<close>

definition segment :: "client_queue \<Rightarrow> nat \<Rightarrow> int list" where
  "segment q n = map (\<lambda>k. slots q ! ((front q + k) mod QUEUE_SIZE)) [0..<n]"

definition contents :: "client_queue \<Rightarrow> int list" where
  "contents q = segment q (count q)"

definition ring_wf :: "client_queue \<Rightarrow> nat \<Rightarrow> bool" where
  "ring_wf q n \<longleftrightarrow> length (slots q) = QUEUE_SIZE \<and> front q < QUEUE_SIZE \<and> n \<le> QUEUE_SIZE \<and>
     rear q = (front q + n) mod QUEUE_SIZE"

lemmas statement_defs = q_store_def q_rear_def q_inc_def q_front_def q_dec_def

lemma QUEUE_SIZE_pos [simp]: "0 < QUEUE_SIZE"
  by (simp add: QUEUE_SIZE_def)

lemma segment_length [simp]: "length (segment q n) = n"
  by (simp add: segment_def)

lemma segment_cong:
  "slots p = slots q \<Longrightarrow> front p = front q \<Longrightarrow> segment p n = segment q n"
  by (simp add: segment_def)

lemma segment_Suc: "segment q (Suc n) = segment q n @ [slots q ! ((front q + n) mod QUEUE_SIZE)]"
  by (simp add: segment_def)

text \<open>The slot behind the last entry is none of the entries before it.\<close>

lemma slot_distinct:
  assumes "k < n" and "n < QUEUE_SIZE"
  shows "(f + n) mod QUEUE_SIZE \<noteq> (f + k) mod QUEUE_SIZE"
proof
  assume "(f + n) mod QUEUE_SIZE = (f + k) mod QUEUE_SIZE"
  then have "QUEUE_SIZE dvd (f + n) - (f + k)"
    using assms by (simp add: mod_eq_dvd_iff_nat)
  then have "QUEUE_SIZE dvd n - k" by simp
  with assms show False by (auto dest: dvd_imp_le)
qed

lemma segment_store:
  "ring_wf q n \<Longrightarrow> n < QUEUE_SIZE \<Longrightarrow> segment (q_store c q) n = segment q n"
  using slot_distinct by (auto simp: segment_def q_store_def ring_wf_def)

lemma wrap_next: "(Suc f mod QUEUE_SIZE + k) mod QUEUE_SIZE = (f + Suc k) mod QUEUE_SIZE"
  using mod_add_left_eq [of "Suc f" QUEUE_SIZE k] by simp

lemma segment_front:
  assumes "front q < QUEUE_SIZE" and "0 < n"
  shows "segment q n = slots q ! front q # segment (q_front q) (n - 1)"
proof -
  obtain m where n: "n = Suc m" using assms(2) by (cases n) auto
  show ?thesis
    unfolding n segment_def map_upt_Suc using assms(1) by (simp add: q_front_def wrap_next)
qed

lemma ring_wf_store: "ring_wf q n \<Longrightarrow> ring_wf (q_store c q) n"
  by (simp add: ring_wf_def q_store_def)

lemma ring_wf_rear: "ring_wf q n \<Longrightarrow> n < QUEUE_SIZE \<Longrightarrow> ring_wf (q_rear q) (Suc n)"
  by (simp add: ring_wf_def q_rear_def mod_simps)

lemma ring_wf_front: "ring_wf q n \<Longrightarrow> 0 < n \<Longrightarrow> ring_wf (q_front q) (n - 1)"
  by (cases n) (simp_all add: ring_wf_def q_front_def wrap_next)

lemma ring_wf_count [simp]: "ring_wf (q\<lparr>count := m\<rparr>) n = ring_wf q n"
  by (simp add: ring_wf_def)

interpretation ring: bounded_fifo add_body remove_body contents "\<lambda>q. ring_wf q (count q)" QUEUE_SIZE
proof unfold_locales
  fix q x
  assume wf: "ring_wf q (count q)" and room: "length (contents q) < QUEUE_SIZE"
  then have n: "count q < QUEUE_SIZE" by (simp add: contents_def)
  show "ring_wf (add_body x q) (count (add_body x q))"
    using ring_wf_rear [OF ring_wf_store [OF wf] n]
    by (simp add: add_body_def q_inc_def) (simp add: statement_defs)
  have "slots (add_body x q) ! ((front (add_body x q) + count q) mod QUEUE_SIZE) = x"
    using wf by (simp add: add_body_def statement_defs ring_wf_def)
  moreover have "segment (add_body x q) (count q) = segment (q_store x q) (count q)"
    by (rule segment_cong) (simp_all add: add_body_def statement_defs)
  moreover have "count (add_body x q) = Suc (count q)"
    by (simp add: add_body_def statement_defs)
  ultimately show "contents (add_body x q) = contents q @ [x]"
    by (simp add: contents_def segment_Suc segment_store [OF wf n])
next
  fix q
  assume wf: "ring_wf q (count q)" and ne: "contents q \<noteq> []"
  then have n: "0 < count q" by (auto simp: contents_def segment_def)
  show "ring_wf (snd (remove_body q)) (count (snd (remove_body q)))"
    using ring_wf_front [OF wf n]
    by (simp add: remove_body_def q_dec_def) (simp add: statement_defs)
  have "contents (snd (remove_body q)) = segment (q_front q) (count q - 1)"
    by (simp add: contents_def remove_body_def statement_defs segment_def)
  then show "contents q = fst (remove_body q) # contents (snd (remove_body q))"
    using segment_front [of q "count q"] wf n
    by (simp add: contents_def remove_body_def ring_wf_def)
next
  fix q
  assume "ring_wf q (count q)"
  then show "length (contents q) \<le> QUEUE_SIZE"
    by (simp add: contents_def ring_wf_def)
qed


section \<open>The threads\<close>

text \<open>
  \<open>ppc\<close> is where the main thread is: creating worker \<open>i\<close>, terminated by \<open>exit\<close>, blocked in
  \<open>accept\<close>, or at a statement of \<open>add_to_queue\<close> with the accepted socket. \<open>cpc\<close> is where a
  worker is: not created, at a statement of \<open>remove_from_queue\<close>, or serving a socket. A thread
  at \<open>_lock\<close> calls \<open>pthread_mutex_lock\<close>; at \<open>_wait\<close> it sleeps in \<open>pthread_cond_wait\<close>, which
  has released the mutex; at \<open>_relock\<close> it was woken and is about to get the mutex back.
\<close>

datatype ppc = P_create nat | P_exit | P_accept | P_lock int | P_check int | P_wait int
  | P_relock int | P_store int | P_rear int | P_inc int | P_signal int | P_unlock

datatype cpc = C_unborn | C_lock | C_check | C_wait | C_relock | C_read | C_front int | C_dec int
  | C_signal int | C_unlock int | C_serve int

datatype tid = T_main | T_work nat

text \<open>
  The state: the shared queue, the owner of its mutex, the program counters, and four logs that
  the code does not have: the sockets \<open>accept\<close> returned, those removed from the ring, those
  closed, and what was sent on which socket.
\<close>

record srv =
  cq :: client_queue
  mutex :: "tid option"
  main_pc :: ppc
  worker_pc :: "cpc list"
  accepted :: "int list"
  taken :: "int list"
  closed :: "int list"
  wire :: "(int \<times> string) list"

definition set_pc :: "nat \<Rightarrow> cpc \<Rightarrow> srv \<Rightarrow> srv" where
  "set_pc i p s = s\<lparr>worker_pc := (worker_pc s)[i := p]\<rparr>"

definition srv_init :: "client_queue \<Rightarrow> srv" where
  "srv_init q = \<lparr>cq = init_queue q, mutex = None, main_pc = P_create 0,
     worker_pc = replicate MAX_THREADS C_unborn,
     accepted = [], taken = [], closed = [], wire = []\<rparr>"

text \<open>The main thread: \<open>add_to_queue\<close> with the accepted socket, one statement at a time.\<close>

definition main_step :: "srv \<Rightarrow> srv option" where
  "main_step s = (case main_pc s of
     P_lock c \<Rightarrow> if mutex s = None then Some (s\<lparr>mutex := Some T_main, main_pc := P_check c\<rparr>) else None
   | P_check c \<Rightarrow> if count (cq s) = QUEUE_SIZE then Some (s\<lparr>mutex := None, main_pc := P_wait c\<rparr>)
                  else Some (s\<lparr>main_pc := P_store c\<rparr>)
   | P_relock c \<Rightarrow> if mutex s = None then Some (s\<lparr>mutex := Some T_main, main_pc := P_check c\<rparr>) else None
   | P_store c \<Rightarrow> Some (s\<lparr>cq := q_store c (cq s), main_pc := P_rear c\<rparr>)
   | P_rear c \<Rightarrow> Some (s\<lparr>cq := q_rear (cq s), main_pc := P_inc c\<rparr>)
   | P_inc c \<Rightarrow> Some (s\<lparr>cq := q_inc (cq s), main_pc := P_signal c\<rparr>)
   | P_unlock \<Rightarrow> Some (s\<lparr>mutex := None, main_pc := P_accept\<rparr>)
   | _ \<Rightarrow> None)"

text \<open>
  \<open>pthread_cond_signal\<close> on \<open>not_empty\<close> wakes one sleeping worker, which one is not determined;
  with no sleeper it does nothing.
\<close>

definition main_signal :: "nat \<Rightarrow> srv \<Rightarrow> srv option" where
  "main_signal i s = (case main_pc s of
     P_signal c \<Rightarrow>
       if C_wait \<in> set (worker_pc s)
       then (if i < length (worker_pc s) \<and> worker_pc s ! i = C_wait
             then Some (set_pc i C_relock (s\<lparr>main_pc := P_unlock\<rparr>)) else None)
       else Some (s\<lparr>main_pc := P_unlock\<rparr>)
   | _ \<Rightarrow> None)"

text \<open>A worker: \<open>remove_from_queue\<close>, one statement at a time.\<close>

definition work_step :: "nat \<Rightarrow> srv \<Rightarrow> srv option" where
  "work_step i s = (case worker_pc s ! i of
     C_lock \<Rightarrow> if mutex s = None then Some (set_pc i C_check (s\<lparr>mutex := Some (T_work i)\<rparr>)) else None
   | C_check \<Rightarrow> if count (cq s) = 0 then Some (set_pc i C_wait (s\<lparr>mutex := None\<rparr>))
                else Some (set_pc i C_read s)
   | C_relock \<Rightarrow> if mutex s = None then Some (set_pc i C_check (s\<lparr>mutex := Some (T_work i)\<rparr>)) else None
   | C_read \<Rightarrow> Some (set_pc i (C_front (slots (cq s) ! front (cq s))) s)
   | C_front x \<Rightarrow> Some (set_pc i (C_dec x) (s\<lparr>cq := q_front (cq s), taken := taken s @ [x]\<rparr>))
   | C_dec x \<Rightarrow> Some (set_pc i (C_signal x) (s\<lparr>cq := q_dec (cq s)\<rparr>))
   | C_signal x \<Rightarrow> Some (set_pc i (C_unlock x)
        (s\<lparr>main_pc := (case main_pc s of P_wait c \<Rightarrow> P_relock c | p \<Rightarrow> p)\<rparr>))
   | C_unlock x \<Rightarrow> Some (set_pc i (C_serve x) (s\<lparr>mutex := None\<rparr>))
   | _ \<Rightarrow> None)"

text \<open>
  The events. \<open>Create ok\<close> is one round of the loop of \<open>pthread_create\<close>; \<open>Accept fd\<close> the return of
  \<open>accept\<close>; \<open>Recv i d\<close> and \<open>Hangup i\<close> the returns of worker \<open>i\<close>'s \<open>read\<close>; \<open>Main_wake\<close> and
  \<open>Work_wake i\<close> the wake-ups without a signal that POSIX allows. Once \<open>main\<close> has called \<open>exit\<close>
  no thread runs.
\<close>

datatype ev = Create bool | Accept int | Main_step | Main_signal nat | Main_wake
  | Work nat | Work_wake nat | Recv nat string | Hangup nat

fun live_step :: "ev \<Rightarrow> srv \<Rightarrow> srv option" where
  "live_step (Create ok) s = (case main_pc s of
     P_create i \<Rightarrow> if ok
       then Some (set_pc i C_lock (s\<lparr>main_pc := (if Suc i < MAX_THREADS then P_create (Suc i) else P_accept)\<rparr>))
       else Some (s\<lparr>main_pc := P_exit\<rparr>)
   | _ \<Rightarrow> None)"
| "live_step (Accept fd) s = (case main_pc s of
     P_accept \<Rightarrow> if fd < 0 then Some s else Some (s\<lparr>main_pc := P_lock fd, accepted := accepted s @ [fd]\<rparr>)
   | _ \<Rightarrow> None)"
| "live_step Main_step s = main_step s"
| "live_step (Main_signal i) s = main_signal i s"
| "live_step Main_wake s = (case main_pc s of
     P_wait c \<Rightarrow> Some (s\<lparr>main_pc := P_relock c\<rparr>) | _ \<Rightarrow> None)"
| "live_step (Work i) s = (if i < length (worker_pc s) then work_step i s else None)"
| "live_step (Work_wake i) s = (if i < length (worker_pc s) \<and> worker_pc s ! i = C_wait
     then Some (set_pc i C_relock s) else None)"
| "live_step (Recv i d) s = (if i < length (worker_pc s) \<and> d \<noteq> [] then
     (case worker_pc s ! i of C_serve x \<Rightarrow> Some (s\<lparr>wire := wire s @ [(x, d)]\<rparr>) | _ \<Rightarrow> None) else None)"
| "live_step (Hangup i) s = (if i < length (worker_pc s) then
     (case worker_pc s ! i of C_serve x \<Rightarrow> Some (set_pc i C_lock (s\<lparr>closed := closed s @ [x]\<rparr>))
      | _ \<Rightarrow> None) else None)"

definition qstep :: "ev \<Rightarrow> srv \<Rightarrow> srv option" where
  "qstep e s = (if main_pc s = P_exit then None else live_step e s)"

end
