(* ===== verification/Queue_Invariant.thy ===== *)
theory Queue_Invariant
  imports Server_Queue
begin

text \<open>
  What holds in every reachable state of the queue server: mutual exclusion, what the ring holds, which
  sockets are served and closed, and that whoever sleeps on a condition will be signalled.
\<close>

section \<open>The invariant\<close>

text \<open>The statements that run with the mutex held.\<close>

fun crit_main :: "ppc \<Rightarrow> bool" where
  "crit_main (P_check c) = True" | "crit_main (P_store c) = True" | "crit_main (P_rear c) = True"
| "crit_main (P_inc c) = True" | "crit_main (P_signal c) = True" | "crit_main P_unlock = True"
| "crit_main _ = False"

fun crit_work :: "cpc \<Rightarrow> bool" where
  "crit_work C_check = True" | "crit_work C_read = True" | "crit_work (C_front x) = True"
| "crit_work (C_dec x) = True" | "crit_work (C_signal x) = True" | "crit_work (C_unlock x) = True"
| "crit_work _ = False"

text \<open>Workers are created in order; those not yet created have not run.\<close>

definition create_inv :: "srv \<Rightarrow> bool" where
  "create_inv s \<longleftrightarrow> (case main_pc s of
     P_create n \<Rightarrow> n < MAX_THREADS \<and> (\<forall>i < MAX_THREADS. worker_pc s ! i = C_unborn \<longleftrightarrow> n \<le> i)
   | P_exit \<Rightarrow> True
   | _ \<Rightarrow> (\<forall>i < MAX_THREADS. worker_pc s ! i \<noteq> C_unborn))"

definition lock_inv :: "srv \<Rightarrow> bool" where
  "lock_inv s \<longleftrightarrow> length (worker_pc s) = MAX_THREADS \<and> create_inv s \<and>
     (crit_main (main_pc s) \<longleftrightarrow> mutex s = Some T_main) \<and>
     (\<forall>i < MAX_THREADS. crit_work (worker_pc s ! i) \<longleftrightarrow> mutex s = Some (T_work i)) \<and>
     (\<forall>i. mutex s = Some (T_work i) \<longrightarrow> i < MAX_THREADS)"

text \<open>
  How many entries the ring has, counting an insertion from its \<open>rear\<close> update on and a removal
  from its \<open>front\<close> update on: the field \<open>count\<close> is behind by one between the two statements.
\<close>

fun at_inc :: "ppc \<Rightarrow> bool" where
  "at_inc (P_inc c) = True"
| "at_inc _ = False"

fun at_dec :: "cpc \<Rightarrow> bool" where
  "at_dec (C_dec x) = True"
| "at_dec _ = False"

definition vcount :: "srv \<Rightarrow> nat" where
  "vcount s = count (cq s) + of_bool (at_inc (main_pc s)) - count_where at_dec (worker_pc s)"

definition queued :: "srv \<Rightarrow> int list" where
  "queued s = segment (cq s) (vcount s)"

text \<open>The accepted socket that is not in the ring yet.\<close>

fun in_hand :: "ppc \<Rightarrow> int list" where
  "in_hand (P_lock c) = [c]" | "in_hand (P_check c) = [c]" | "in_hand (P_wait c) = [c]"
| "in_hand (P_relock c) = [c]" | "in_hand (P_store c) = [c]" | "in_hand (P_rear c) = [c]"
| "in_hand _ = []"

text \<open>What each thread knows of the ring while it holds the mutex.\<close>

fun main_knows :: "client_queue \<Rightarrow> ppc \<Rightarrow> bool" where
  "main_knows q (P_store c) \<longleftrightarrow> count q < QUEUE_SIZE"
| "main_knows q (P_rear c) \<longleftrightarrow> count q < QUEUE_SIZE \<and> slots q ! rear q = c"
| "main_knows q _ \<longleftrightarrow> True"

fun work_knows :: "client_queue \<Rightarrow> cpc \<Rightarrow> bool" where
  "work_knows q C_read \<longleftrightarrow> 0 < count q"
| "work_knows q (C_front x) \<longleftrightarrow> 0 < count q \<and> x = slots q ! front q"
| "work_knows q (C_dec x) \<longleftrightarrow> 0 < count q \<and> count q \<le> QUEUE_SIZE"
| "work_knows q _ \<longleftrightarrow> True"

definition ring_inv :: "srv \<Rightarrow> bool" where
  "ring_inv s \<longleftrightarrow> ring_wf (cq s) (vcount s) \<and> main_knows (cq s) (main_pc s) \<and>
     (\<forall>i < MAX_THREADS. work_knows (cq s) (worker_pc s ! i)) \<and>
     accepted s = taken s @ queued s @ in_hand (main_pc s)"

text \<open>The socket a worker has taken and not closed yet.\<close>

fun held :: "cpc \<Rightarrow> int list" where
  "held (C_dec x) = [x]" | "held (C_signal x) = [x]" | "held (C_unlock x) = [x]"
| "held (C_serve x) = [x]"
| "held _ = []"

definition close_inv :: "srv \<Rightarrow> bool" where
  "close_inv s \<longleftrightarrow> mset (taken s) = mset (closed s) + mset (concat (map held (worker_pc s)))"

text \<open>
  A worker is engaged when it was woken or found the mutex, and will take an entry if there is
  one. While a worker sleeps there are at least as many engaged workers as entries, counting the
  signal that the main thread is about to send; and the main thread sleeps only while the ring
  is full or a worker is about to signal.
\<close>

fun engaged :: "cpc \<Rightarrow> bool" where
  "engaged C_relock = True" | "engaged C_check = True" | "engaged C_read = True"
| "engaged (C_front x) = True" | "engaged (C_dec x) = True"
| "engaged _ = False"

fun at_signal :: "ppc \<Rightarrow> bool" where
  "at_signal (P_signal c) = True"
| "at_signal _ = False"

fun signals :: "cpc \<Rightarrow> bool" where
  "signals (C_signal x) = True"
| "signals _ = False"

fun sleeps :: "cpc \<Rightarrow> bool" where
  "sleeps C_wait = True"
| "sleeps _ = False"

definition wake_inv :: "srv \<Rightarrow> bool" where
  "wake_inv s \<longleftrightarrow>
     (0 < count_where sleeps (worker_pc s) \<longrightarrow>
        count (cq s) \<le> count_where engaged (worker_pc s) + of_bool (at_signal (main_pc s))) \<and>
     ((\<exists>c. main_pc s = P_wait c) \<longrightarrow>
        count (cq s) = QUEUE_SIZE \<or> 0 < count_where signals (worker_pc s)) \<and>
     ((\<exists>n. main_pc s = P_create n) \<longrightarrow> accepted s = [])"

definition srv_inv :: "srv \<Rightarrow> bool" where
  "srv_inv s \<longleftrightarrow> lock_inv s \<and> ring_inv s \<and> close_inv s \<and> wake_inv s"

lemma set_pc_simps [simp]:
  "worker_pc (set_pc i p s) = (worker_pc s)[i := p]" "main_pc (set_pc i p s) = main_pc s"
  "cq (set_pc i p s) = cq s" "mutex (set_pc i p s) = mutex s"
  "accepted (set_pc i p s) = accepted s" "taken (set_pc i p s) = taken s"
  "closed (set_pc i p s) = closed s" "wire (set_pc i p s) = wire s"
  by (simp_all add: set_pc_def)

text \<open>Every transition of the machine, one case each: the program counter that moves, its guard
  and the new state.\<close>

lemma qstep_cases [consumes 1]:
  assumes "qstep e s = Some t"
  obtains
    (create) i where "main_pc s = P_create i" "t = set_pc i C_lock
        (s\<lparr>main_pc := (if Suc i < MAX_THREADS then P_create (Suc i) else P_accept)\<rparr>)"
  | (create_fails) i where "main_pc s = P_create i" "t = s\<lparr>main_pc := P_exit\<rparr>"
  | (accept_fails) "main_pc s = P_accept" "t = s"
  | (accept) fd where "main_pc s = P_accept" "0 \<le> fd"
      "t = s\<lparr>main_pc := P_lock fd, accepted := accepted s @ [fd]\<rparr>"
  | (main_lock) c where "main_pc s = P_lock c \<or> main_pc s = P_relock c" "mutex s = None"
      "t = s\<lparr>mutex := Some T_main, main_pc := P_check c\<rparr>"
  | (main_wait) c where "main_pc s = P_check c" "count (cq s) = QUEUE_SIZE"
      "t = s\<lparr>mutex := None, main_pc := P_wait c\<rparr>"
  | (main_go) c where "main_pc s = P_check c" "count (cq s) \<noteq> QUEUE_SIZE"
      "t = s\<lparr>main_pc := P_store c\<rparr>"
  | (store) c where "main_pc s = P_store c" "t = s\<lparr>cq := q_store c (cq s), main_pc := P_rear c\<rparr>"
  | (rear) c where "main_pc s = P_rear c" "t = s\<lparr>cq := q_rear (cq s), main_pc := P_inc c\<rparr>"
  | (inc) c where "main_pc s = P_inc c" "t = s\<lparr>cq := q_inc (cq s), main_pc := P_signal c\<rparr>"
  | (signal) c i where "main_pc s = P_signal c" "i < length (worker_pc s)" "worker_pc s ! i = C_wait"
      "t = set_pc i C_relock (s\<lparr>main_pc := P_unlock\<rparr>)"
  | (signal_none) c where "main_pc s = P_signal c" "C_wait \<notin> set (worker_pc s)"
      "t = s\<lparr>main_pc := P_unlock\<rparr>"
  | (main_unlock) "main_pc s = P_unlock" "t = s\<lparr>mutex := None, main_pc := P_accept\<rparr>"
  | (main_wake) c where "main_pc s = P_wait c" "t = s\<lparr>main_pc := P_relock c\<rparr>"
  | (work_lock) i where "i < length (worker_pc s)" "mutex s = None"
      "worker_pc s ! i = C_lock \<or> worker_pc s ! i = C_relock"
      "t = set_pc i C_check (s\<lparr>mutex := Some (T_work i)\<rparr>)"
  | (work_wait) i where "i < length (worker_pc s)" "worker_pc s ! i = C_check"
      "count (cq s) = 0" "t = set_pc i C_wait (s\<lparr>mutex := None\<rparr>)"
  | (work_go) i where "i < length (worker_pc s)" "worker_pc s ! i = C_check"
      "count (cq s) \<noteq> 0" "t = set_pc i C_read s"
  | (read) i where "i < length (worker_pc s)" "worker_pc s ! i = C_read"
      "t = set_pc i (C_front (slots (cq s) ! front (cq s))) s"
  | (front) i x where "i < length (worker_pc s)" "worker_pc s ! i = C_front x"
      "t = set_pc i (C_dec x) (s\<lparr>cq := q_front (cq s), taken := taken s @ [x]\<rparr>)"
  | (dec) i x where "i < length (worker_pc s)" "worker_pc s ! i = C_dec x"
      "t = set_pc i (C_signal x) (s\<lparr>cq := q_dec (cq s)\<rparr>)"
  | (work_signal) i x where "i < length (worker_pc s)" "worker_pc s ! i = C_signal x"
      "t = set_pc i (C_unlock x) (s\<lparr>main_pc := (case main_pc s of P_wait c \<Rightarrow> P_relock c | p \<Rightarrow> p)\<rparr>)"
  | (work_unlock) i x where "i < length (worker_pc s)" "worker_pc s ! i = C_unlock x"
      "t = set_pc i (C_serve x) (s\<lparr>mutex := None\<rparr>)"
  | (work_wake) i where "i < length (worker_pc s)" "worker_pc s ! i = C_wait"
      "t = set_pc i C_relock s"
  | (recv) i x d where "i < length (worker_pc s)" "worker_pc s ! i = C_serve x"
      "t = s\<lparr>wire := wire s @ [(x, d)]\<rparr>"
  | (hangup) i x where "i < length (worker_pc s)" "worker_pc s ! i = C_serve x"
      "t = set_pc i C_lock (s\<lparr>closed := closed s @ [x]\<rparr>)"
proof (cases e)
  case (Create ok)
  with assms that(1,2) show thesis
    by (auto simp: qstep_def split: if_splits ppc.splits)
next
  case (Accept fd)
  with assms that(3) that(4) [of fd] show thesis
    by (auto simp: qstep_def split: if_splits ppc.splits)
next
  case Main_step
  with assms that(5-10,13) show thesis
    by (auto simp: qstep_def main_step_def split: if_splits ppc.splits)
next
  case (Main_signal i)
  with assms that(11,12) show thesis
    by (auto simp: qstep_def main_signal_def split: if_splits ppc.splits)
next
  case Main_wake
  with assms that(14) show thesis
    by (auto simp: qstep_def split: if_splits ppc.splits)
next
  case (Work i)
  with assms that(15-22) show thesis
    by (auto simp: qstep_def work_step_def split: if_splits cpc.splits)
next
  case (Work_wake i)
  with assms that(23) show thesis
    by (auto simp: qstep_def split: if_splits)
next
  case (Recv i d)
  with assms that(24) show thesis
    by (auto simp: qstep_def split: if_splits cpc.splits)
next
  case (Hangup i)
  with assms that(25) show thesis
    by (auto simp: qstep_def split: if_splits cpc.splits)
qed

lemma lock_inv_init: "lock_inv (srv_init q)"
  by (auto simp: lock_inv_def create_inv_def srv_init_def MAX_THREADS_def)

text \<open>What a thread that moves does to the lock: nothing, acquire it, or release it.\<close>

lemma lock_inv_stay:
  assumes "lock_inv s" and "i < MAX_THREADS" and "worker_pc s ! i \<noteq> C_unborn"
    and "crit_work p \<longleftrightarrow> crit_work (worker_pc s ! i)" and "p \<noteq> C_unborn"
  shows "lock_inv (set_pc i p s)"
  using assms by (auto simp: lock_inv_def create_inv_def nth_list_update split: ppc.splits)

lemma lock_inv_acquire:
  assumes "lock_inv s" and "i < MAX_THREADS" and "worker_pc s ! i \<noteq> C_unborn"
    and "mutex s = None" and "crit_work p"
  shows "lock_inv (set_pc i p (s\<lparr>mutex := Some (T_work i)\<rparr>))"
  using assms by (auto simp: lock_inv_def create_inv_def nth_list_update split: ppc.splits)

lemma lock_inv_release:
  assumes "lock_inv s" and "i < MAX_THREADS" and "crit_work (worker_pc s ! i)" and "\<not> crit_work p"
    and "p \<noteq> C_unborn"
  shows "lock_inv (set_pc i p (s\<lparr>mutex := None\<rparr>))"
proof -
  from assms have "mutex s = Some (T_work i)" and "worker_pc s ! i \<noteq> C_unborn"
    by (auto simp: lock_inv_def)
  with assms show ?thesis
    by (auto simp: lock_inv_def create_inv_def nth_list_update split: ppc.splits)
qed

lemma lock_inv_main:
  assumes "lock_inv s" and "\<nexists>n. p = P_create n" and "\<nexists>n. main_pc s = P_create n" "main_pc s \<noteq> P_exit"
    and "m = (if crit_main p then Some T_main else if crit_main (main_pc s) then None else mutex s)"
    and "crit_main p \<Longrightarrow> mutex s = None \<or> crit_main (main_pc s)"
  shows "lock_inv (s\<lparr>mutex := m, main_pc := p\<rparr>)"
  using assms by (auto simp: lock_inv_def create_inv_def split: ppc.splits)

lemma lock_inv_cong:
  "lock_inv s \<Longrightarrow> main_pc t = main_pc s \<Longrightarrow> worker_pc t = worker_pc s \<Longrightarrow> mutex t = mutex s \<Longrightarrow>
   lock_inv t"
  by (simp add: lock_inv_def create_inv_def split: ppc.splits)


lemma lock_inv_lenD: "lock_inv s \<Longrightarrow> length (worker_pc s) = MAX_THREADS"
  by (simp add: lock_inv_def)

lemma lock_inv_step:
  assumes inv: "lock_inv s" and step: "qstep e s = Some t"
  shows "lock_inv t"
  using step
proof (cases rule: qstep_cases)
  case (create i)
  have i: "i < MAX_THREADS" "worker_pc s ! i = C_unborn"
    using inv create by (auto simp: lock_inv_def create_inv_def)
  then have "\<not> crit_work (worker_pc s ! i)" by simp
  then have "mutex s \<noteq> Some (T_work i)"
    using inv i(1) unfolding lock_inv_def by blast
  with i create inv show ?thesis
    by (auto simp: lock_inv_def create_inv_def nth_list_update)
next
  case (work_lock i)
  then show ?thesis using inv lock_inv_lenD [OF inv] by (auto intro!: lock_inv_acquire)
next
  case (work_wait i)
  then show ?thesis using inv lock_inv_lenD [OF inv] by (auto intro!: lock_inv_release)
next
  case (work_unlock i x)
  then show ?thesis using inv lock_inv_lenD [OF inv] by (auto intro!: lock_inv_release)
next
  case (work_signal i x)
  have "lock_inv (set_pc i (C_unlock x) s)"
    using work_signal inv lock_inv_lenD [OF inv] by (auto intro!: lock_inv_stay)
  then show ?thesis
    using work_signal by (auto simp: lock_inv_def create_inv_def split: ppc.splits)
next
  case (signal c i)
  have "lock_inv (set_pc i C_relock s)"
    using signal inv lock_inv_lenD [OF inv] by (auto intro!: lock_inv_stay)
  then show ?thesis
    using signal by (auto simp: lock_inv_def create_inv_def split: ppc.splits)
next
  case (front i x)
  have "lock_inv (set_pc i (C_dec x) s)"
    using front inv lock_inv_lenD [OF inv] by (auto intro!: lock_inv_stay)
  then show ?thesis using front by (auto elim!: lock_inv_cong)
next
  case (dec i x)
  have "lock_inv (set_pc i (C_signal x) s)"
    using dec inv lock_inv_lenD [OF inv] by (auto intro!: lock_inv_stay)
  then show ?thesis using dec by (auto elim!: lock_inv_cong)
next
  case (hangup i x)
  have "lock_inv (set_pc i C_lock s)"
    using hangup inv lock_inv_lenD [OF inv] by (auto intro!: lock_inv_stay)
  then show ?thesis using hangup by (auto elim!: lock_inv_cong)
qed (use inv lock_inv_lenD [OF inv] in
    \<open>auto simp: lock_inv_def create_inv_def nth_list_update split: ppc.splits\<close>)


lemma lock_inv_workD:
  "lock_inv s \<Longrightarrow> i < MAX_THREADS \<Longrightarrow> crit_work (worker_pc s ! i) \<Longrightarrow> mutex s = Some (T_work i)"
  by (simp add: lock_inv_def)

lemma lock_inv_mainD: "lock_inv s \<Longrightarrow> crit_main (main_pc s) \<Longrightarrow> mutex s = Some T_main"
  by (simp add: lock_inv_def)

lemma lock_inv_freeD:
  "lock_inv s \<Longrightarrow> mutex s = Some T_main \<Longrightarrow> i < MAX_THREADS \<Longrightarrow> \<not> crit_work (worker_pc s ! i)"
  by (simp add: lock_inv_def)

lemma work_knows_idle: "\<not> crit_work p \<Longrightarrow> work_knows q p"
  by (cases p) simp_all

lemma main_knows_idle: "\<not> crit_main p \<Longrightarrow> main_knows q p"
  by (cases p) simp_all

lemma at_dec_crit: "at_dec p \<Longrightarrow> crit_work p"
  by (cases p) simp_all

lemma at_inc_crit: "at_inc p \<Longrightarrow> crit_main p"
  by (cases p) simp_all

lemma signals_crit: "signals p \<Longrightarrow> crit_work p"
  by (cases p) simp_all

lemma no_dec:
  assumes "lock_inv s" and "\<And>i. mutex s \<noteq> Some (T_work i)"
  shows "count_where at_dec (worker_pc s) = 0"
  using assms by (auto simp: count_where_0 lock_inv_def dest: at_dec_crit)

lemma one_dec:
  assumes "lock_inv s" and "i < MAX_THREADS" and "crit_work (worker_pc s ! i)"
  shows "count_where at_dec (worker_pc s) = of_bool (at_dec (worker_pc s ! i))"
proof -
  have m: "mutex s = Some (T_work i)" using assms by (simp add: lock_inv_workD)
  have "\<not> at_dec ((worker_pc s)[i := C_lock] ! j)" if "j < MAX_THREADS" for j
  proof (cases "j = i")
    case True
    with assms show ?thesis by (simp add: lock_inv_def)
  next
    case False
    with that assms m show ?thesis by (auto simp: lock_inv_def dest: at_dec_crit)
  qed
  then have "count_where at_dec ((worker_pc s)[i := C_lock]) = 0"
    using assms by (simp add: count_where_0 lock_inv_def)
  with count_where_update [of i "worker_pc s" at_dec C_lock] assms show ?thesis
    by (simp add: lock_inv_def)
qed

text \<open>While one thread holds the mutex, the others know nothing of the ring: it may change.\<close>

lemma others_know:
  assumes "lock_inv s" and "mutex s = Some (T_work i)" and "j < MAX_THREADS" and "j \<noteq> i"
  shows "work_knows q (worker_pc s ! j)"
  using assms by (auto simp: lock_inv_def intro!: work_knows_idle)

lemma main_knows_other:
  "lock_inv s \<Longrightarrow> mutex s = Some (T_work i) \<Longrightarrow> main_knows q (main_pc s)"
  by (auto simp: lock_inv_def intro!: main_knows_idle)

lemma workers_know_main:
  "lock_inv s \<Longrightarrow> mutex s = Some T_main \<Longrightarrow> j < MAX_THREADS \<Longrightarrow> work_knows q (worker_pc s ! j)"
  by (auto simp: lock_inv_def intro!: work_knows_idle)

lemma ring_inv_init: "length (slots q) = QUEUE_SIZE \<Longrightarrow> ring_inv (srv_init q)"
  by (simp add: ring_inv_def ring_wf_def vcount_def queued_def segment_def
      srv_init_def init_queue_def MAX_THREADS_def)

lemma ring_inv_store:
  assumes lock: "lock_inv s" and ring: "ring_inv s" and pc: "main_pc s = P_store c"
  shows "ring_inv (s\<lparr>cq := q_store c (cq s), main_pc := P_rear c\<rparr>)" (is "ring_inv ?t")
proof -
  have m: "mutex s = Some T_main" using lock pc by (simp add: lock_inv_mainD)
  have d: "count_where at_dec (worker_pc s) = 0" using lock m by (simp add: no_dec)
  have v: "vcount s = count (cq s)" "vcount ?t = count (cq s)"
    using d pc by (simp_all add: vcount_def q_store_def)
  have wf: "ring_wf (cq s) (count (cq s))" and n: "count (cq s) < QUEUE_SIZE"
    using ring pc v by (simp_all add: ring_inv_def)
  have "main_knows (cq ?t) (main_pc ?t)"
    using n wf by (simp add: q_store_def ring_wf_def)
  then show ?thesis
    using ring pc v segment_store [OF wf n] ring_wf_store [OF wf] workers_know_main [OF lock m]
    by (simp add: ring_inv_def queued_def)
qed

lemma ring_inv_rear:
  assumes lock: "lock_inv s" and ring: "ring_inv s" and pc: "main_pc s = P_rear c"
  shows "ring_inv (s\<lparr>cq := q_rear (cq s), main_pc := P_inc c\<rparr>)" (is "ring_inv ?t")
proof -
  have m: "mutex s = Some T_main" using lock pc by (simp add: lock_inv_mainD)
  have d: "count_where at_dec (worker_pc s) = 0" using lock m by (simp add: no_dec)
  have v: "vcount s = count (cq s)" "vcount ?t = Suc (count (cq s))"
    using d pc by (simp_all add: vcount_def q_rear_def)
  have wf: "ring_wf (cq s) (count (cq s))" and n: "count (cq s) < QUEUE_SIZE"
      and c: "slots (cq s) ! rear (cq s) = c"
    using ring pc v by (simp_all add: ring_inv_def)
  have "segment (q_rear (cq s)) (Suc (count (cq s))) = segment (cq s) (count (cq s)) @ [c]"
    using wf c by (simp add: segment_def q_rear_def ring_wf_def)
  then show ?thesis
    using ring pc v ring_wf_rear [OF wf n] workers_know_main [OF lock m]
    by (simp add: ring_inv_def queued_def)
qed

lemma ring_inv_inc:
  assumes lock: "lock_inv s" and ring: "ring_inv s" and pc: "main_pc s = P_inc c"
  shows "ring_inv (s\<lparr>cq := q_inc (cq s), main_pc := P_signal c\<rparr>)" (is "ring_inv ?t")
proof -
  have m: "mutex s = Some T_main" using lock pc by (simp add: lock_inv_mainD)
  have d: "count_where at_dec (worker_pc s) = 0" using lock m by (simp add: no_dec)
  have v: "vcount ?t = vcount s" using d pc by (simp add: vcount_def q_inc_def)
  have "segment (q_inc (cq s)) (vcount s) = segment (cq s) (vcount s)"
    by (rule segment_cong) (simp_all add: q_inc_def)
  moreover have "ring_wf (q_inc (cq s)) (vcount s)"
    using ring by (simp add: ring_inv_def q_inc_def)
  ultimately show ?thesis
    using ring pc v workers_know_main [OF lock m] by (simp add: ring_inv_def queued_def)
qed

lemma ring_inv_front:
  assumes lock: "lock_inv s" and ring: "ring_inv s" and i: "i < MAX_THREADS"
    and pc: "worker_pc s ! i = C_front x"
  shows "ring_inv (set_pc i (C_dec x) (s\<lparr>cq := q_front (cq s), taken := taken s @ [x]\<rparr>))"
    (is "ring_inv ?t")
proof -
  have m: "mutex s = Some (T_work i)" using lock pc i by (simp add: lock_inv_workD)
  have d: "count_where at_dec (worker_pc s) = 0" using one_dec [OF lock i] pc by simp
  have nc: "\<not> at_inc (main_pc s)" using lock m by (auto simp: lock_inv_def dest: at_inc_crit)
  have len: "length (worker_pc s) = MAX_THREADS" using lock by (rule lock_inv_lenD)
  have "count_where at_dec ((worker_pc s)[i := C_dec x]) = 1"
    using count_where_update [of i "worker_pc s" at_dec "C_dec x"] i len d pc by simp
  then have v: "vcount s = count (cq s)" "vcount ?t = count (cq s) - 1"
    using d nc by (simp_all add: vcount_def q_front_def)
  have n: "0 < count (cq s)" and x: "x = slots (cq s) ! front (cq s)"
    using ring i pc by (auto simp: ring_inv_def dest!: spec [of _ i])
  have wf: "ring_wf (cq s) (count (cq s))" using ring v by (simp add: ring_inv_def)
  have "segment (cq s) (count (cq s)) = x # segment (q_front (cq s)) (count (cq s) - 1)"
    using segment_front [of "cq s" "count (cq s)"] wf n x by (simp add: ring_wf_def)
  moreover have "work_knows (cq ?t) (worker_pc ?t ! j)" if "j < MAX_THREADS" for j
    using that others_know [OF lock m] n len wf
    by (cases "j = i") (auto simp: q_front_def ring_wf_def)
  ultimately show ?thesis
    using ring v ring_wf_front [OF wf n] main_knows_other [OF lock m]
    by (simp add: ring_inv_def queued_def)
qed

lemma ring_inv_dec:
  assumes lock: "lock_inv s" and ring: "ring_inv s" and i: "i < MAX_THREADS"
    and pc: "worker_pc s ! i = C_dec x"
  shows "ring_inv (set_pc i (C_signal x) (s\<lparr>cq := q_dec (cq s)\<rparr>))" (is "ring_inv ?t")
proof -
  have m: "mutex s = Some (T_work i)" using lock pc i by (simp add: lock_inv_workD)
  have d: "count_where at_dec (worker_pc s) = 1" using one_dec [OF lock i] pc by simp
  have nc: "\<not> at_inc (main_pc s)" using lock m by (auto simp: lock_inv_def dest: at_inc_crit)
  have len: "length (worker_pc s) = MAX_THREADS" using lock by (rule lock_inv_lenD)
  have "count_where at_dec ((worker_pc s)[i := C_signal x]) = 0"
    using count_where_update [of i "worker_pc s" at_dec "C_signal x"] i len d pc by simp
  then have v: "vcount ?t = vcount s"
    using d nc by (simp add: vcount_def q_dec_def)
  have "segment (q_dec (cq s)) (vcount s) = segment (cq s) (vcount s)"
    by (rule segment_cong) (simp_all add: q_dec_def)
  moreover have "ring_wf (q_dec (cq s)) (vcount s)"
    using ring by (simp add: ring_inv_def q_dec_def)
  moreover have "work_knows (cq ?t) (worker_pc ?t ! j)" if "j < MAX_THREADS" for j
    using that others_know [OF lock m] len by (cases "j = i") auto
  ultimately show ?thesis
    using ring v main_knows_other [OF lock m] by (simp add: ring_inv_def queued_def)
qed

lemma ring_inv_step:
  assumes lock: "lock_inv s" and ring: "ring_inv s" and step: "qstep e s = Some t"
  shows "ring_inv t"
  using step
proof (cases rule: qstep_cases)
  case (create i)
  then have "\<not> at_dec (worker_pc s ! i)" and "i < length (worker_pc s)"
    using lock by (auto simp: lock_inv_def create_inv_def)
  with create ring show ?thesis
    by (auto simp: ring_inv_def vcount_def queued_def nth_list_update lock_inv_lenD [OF lock])
next
  case (store c)
  then show ?thesis using lock ring by (simp add: ring_inv_store)
next
  case (rear c)
  then show ?thesis using lock ring by (simp add: ring_inv_rear)
next
  case (inc c)
  then show ?thesis using lock ring by (simp add: ring_inv_inc)
next
  case (front i x)
  then show ?thesis using lock ring lock_inv_lenD [OF lock] by (simp add: ring_inv_front)
next
  case (dec i x)
  then show ?thesis using lock ring lock_inv_lenD [OF lock] by (simp add: ring_inv_dec)
next
  case (main_go c)
  have "count_where at_dec (worker_pc s) = 0"
    using lock main_go lock_inv_mainD [OF lock] by (simp add: no_dec)
  with main_go ring show ?thesis
    by (auto simp: ring_inv_def vcount_def queued_def ring_wf_def)
next
  case (work_signal i x)
  with ring show ?thesis
    by (auto simp: ring_inv_def vcount_def queued_def nth_list_update lock_inv_lenD [OF lock]
        split: ppc.splits)
qed (use ring in \<open>auto simp: ring_inv_def vcount_def queued_def nth_list_update lock_inv_lenD [OF lock]\<close>)


lemma close_inv_init: "close_inv (srv_init q)"
  by (simp add: close_inv_def srv_init_def MAX_THREADS_def numeral_eq_Suc)

text \<open>A worker's step moves a socket along: into its hand, nowhere, or to the closed ones.\<close>

lemma close_inv_work:
  assumes "close_inv s" and "i < length (worker_pc s)"
    and "worker_pc t = (worker_pc s)[i := p]"
    and "mset (taken t) + mset (held (worker_pc s ! i)) + mset (closed s) =
         mset (taken s) + mset (held p) + mset (closed t)"
  shows "close_inv t"
proof -
  let ?M = "\<lambda>ps. mset (concat (map held ps))"
  have "mset (taken t) + (mset (held (worker_pc s ! i)) + mset (closed s)) =
        mset (closed s) + ?M (worker_pc s) + mset (held p) + mset (closed t)"
    using assms(1,4) by (simp add: close_inv_def add_ac)
  also have "\<dots> = mset (closed t) + ?M (worker_pc t) + (mset (held (worker_pc s ! i)) + mset (closed s))"
    using mset_concat_update [OF assms(2), of held p] assms(3) by (simp add: add_ac)
  finally show ?thesis by (simp add: close_inv_def)
qed

lemma close_inv_step:
  assumes "lock_inv s" and inv: "close_inv s" and step: "qstep e s = Some t"
  shows "close_inv t"
  using step
proof (cases rule: qstep_cases)
  case (create i)
  then have "held (worker_pc s ! i) = []" and "i < length (worker_pc s)"
    using assms(1) by (auto simp: lock_inv_def create_inv_def)
  with create show ?thesis by (intro close_inv_work [OF inv, where i = i and p = C_lock]) auto
next
  case (signal c i)
  then show ?thesis by (intro close_inv_work [OF inv, where i = i and p = "C_relock"]) auto
next
  case (work_lock i)
  then show ?thesis by (intro close_inv_work [OF inv, where i = i and p = "C_check"]) auto
next
  case (work_wait i)
  then show ?thesis by (intro close_inv_work [OF inv, where i = i and p = "C_wait"]) auto
next
  case (work_go i)
  then show ?thesis by (intro close_inv_work [OF inv, where i = i and p = "C_read"]) auto
next
  case (read i)
  then show ?thesis by (intro close_inv_work [OF inv, where i = i and p = 
      "C_front (slots (cq s) ! Server_Queue.front (cq s))"]) auto
next
  case (front i x)
  then show ?thesis by (intro close_inv_work [OF inv, where i = i and p = "C_dec x"]) auto
next
  case (dec i x)
  then show ?thesis by (intro close_inv_work [OF inv, where i = i and p = "C_signal x"]) auto
next
  case (work_signal i x)
  then show ?thesis by (intro close_inv_work [OF inv, where i = i and p = "C_unlock x"]) auto
next
  case (work_unlock i x)
  then show ?thesis by (intro close_inv_work [OF inv, where i = i and p = "C_serve x"]) auto
next
  case (work_wake i)
  then show ?thesis by (intro close_inv_work [OF inv, where i = i and p = "C_relock"]) auto
next
  case (hangup i x)
  then show ?thesis by (intro close_inv_work [OF inv, where i = i and p = "C_lock"]) auto
qed (use inv in \<open>auto simp: close_inv_def\<close>)

lemma wake_inv_init: "wake_inv (srv_init q)"
  by (simp add: wake_inv_def srv_init_def MAX_THREADS_def numeral_eq_Suc)

text \<open>A worker's step keeps the bookkeeping of wake-ups when it changes the three counts in step
  with \<open>count\<close> and the main thread's position.\<close>

lemma wake_inv_work:
  assumes inv: "wake_inv s" and i: "i < length (worker_pc s)"
    and t: "worker_pc t = (worker_pc s)[i := p]" "main_pc t = main_pc s" "accepted t = accepted s"
    and wake: "sleeps p \<longrightarrow> count (cq t) = 0"
    and eng: "sleeps p \<or>
      count (cq t) + of_bool (engaged (worker_pc s ! i)) \<le> count (cq s) + of_bool (engaged p)"
    and sig: "count (cq t) = count (cq s) \<and> (signals (worker_pc s ! i) \<longrightarrow> signals p) \<or> signals p"
  shows "wake_inv t"
proof -
  note U = count_where_update [OF i]
  have "count (cq t) \<le> count_where engaged (worker_pc t) + of_bool (at_signal (main_pc t))"
    if "0 < count_where sleeps (worker_pc t)"
  proof (cases "sleeps p")
    case True
    with wake show ?thesis by simp
  next
    case False
    with that t U [of sleeps p] have "0 < count_where sleeps (worker_pc s)" by (simp split: if_splits)
    with False inv eng t U [of engaged p] show ?thesis by (simp add: wake_inv_def)
  qed
  moreover have "count (cq t) = QUEUE_SIZE \<or> 0 < count_where signals (worker_pc t)"
    if "\<exists>c. main_pc t = P_wait c"
  proof (cases "signals p")
    case True
    have "0 < count_where signals ((worker_pc s)[i := p])"
      using True i by (intro count_where_pos_nth [of i]) simp_all
    with t show ?thesis by simp
  next
    case False
    with that inv sig t U [of signals p] show ?thesis by (auto simp: wake_inv_def)
  qed
  ultimately show ?thesis using inv t by (simp add: wake_inv_def)
qed

lemma wake_inv_step:
  assumes lock: "lock_inv s" and ring: "ring_inv s" and inv: "wake_inv s"
    and step: "qstep e s = Some t"
  shows "wake_inv t"
  using step
proof (cases rule: qstep_cases)
  case (create i)
  then have u: "worker_pc s ! i = C_unborn" and i: "i < length (worker_pc s)"
    using lock by (auto simp: lock_inv_def create_inv_def)
  then have "wake_inv (set_pc i C_lock s)" by (intro wake_inv_work [OF inv, where i = i and p = "C_lock"]) auto
  with create inv show ?thesis by (auto simp: wake_inv_def)
next
  case (signal c i)
  then show ?thesis
    using inv count_where_update [of i "worker_pc s" engaged C_relock]
      count_where_update [of i "worker_pc s" sleeps C_relock]
    by (auto simp: wake_inv_def)
next
  case (signal_none c)
  then have "count_where sleeps (worker_pc s) = 0"
    by (auto simp: count_where_0 in_set_conv_nth elim: sleeps.elims)
  with signal_none show ?thesis by (simp add: wake_inv_def)
next
  case (work_lock i)
  then show ?thesis by (intro wake_inv_work [OF inv, where i = i and p = "C_check"]) auto
next
  case (work_wait i)
  then show ?thesis by (intro wake_inv_work [OF inv, where i = i and p = "C_wait"]) auto
next
  case (work_go i)
  then show ?thesis by (intro wake_inv_work [OF inv, where i = i and p = "C_read"]) auto
next
  case (read i)
  then show ?thesis by (intro wake_inv_work [OF inv, where i = i and p = 
      "C_front (slots (cq s) ! Server_Queue.front (cq s))"]) auto
next
  case (front i x)
  then show ?thesis by (intro wake_inv_work [OF inv, where i = i and p = "C_dec x"]) (auto simp: q_front_def)
next
  case (dec i x)
  then have "0 < count (cq s)"
    using ring lock_inv_lenD [OF lock] by (auto simp: ring_inv_def dest!: spec [of _ i])
  with dec show ?thesis by (intro wake_inv_work [OF inv, where i = i and p = "C_signal x"]) (auto simp: q_dec_def)
next
  case (work_signal i x)
  then show ?thesis
    using inv count_where_update [of i "worker_pc s" engaged "C_unlock x"]
      count_where_update [of i "worker_pc s" sleeps "C_unlock x"]
    by (auto simp: wake_inv_def split: ppc.splits)
next
  case (work_unlock i x)
  then show ?thesis by (intro wake_inv_work [OF inv, where i = i and p = "C_serve x"]) auto
next
  case (work_wake i)
  then show ?thesis by (intro wake_inv_work [OF inv, where i = i and p = "C_relock"]) auto
next
  case (hangup i x)
  then show ?thesis by (intro wake_inv_work [OF inv, where i = i and p = "C_lock"]) auto
qed (use inv in \<open>auto simp: wake_inv_def q_store_def q_rear_def q_inc_def\<close>)

interpretation queue_server: event_system qstep srv_inv
  by unfold_locales (auto simp: srv_inv_def intro: lock_inv_step ring_inv_step close_inv_step wake_inv_step)

lemma srv_inv_init: "length (slots q) = QUEUE_SIZE \<Longrightarrow> srv_inv (srv_init q)"
  by (simp add: srv_inv_def lock_inv_init ring_inv_init close_inv_init wake_inv_init)

lemma srv_inv_run:
  "length (slots q) = QUEUE_SIZE \<Longrightarrow> run qstep es (srv_init q) = Some s \<Longrightarrow> srv_inv s"
  by (rule queue_server.run_inv [OF srv_inv_init])

end
