(* ===== verification/Queue_Properties.thy ===== *)
theory Queue_Properties
  imports Queue_Invariant
begin

text \<open>
  The properties of the queue server, with runs of its threads that meet their hypotheses.
\<close>

section \<open>Properties\<close>

text \<open>
  C1: no accepted connection is lost, duplicated or overtaken: in every run, the sockets that
  \<open>accept\<close> returned are, in order, those the workers have taken out of the ring, those in the
  ring, and the one \<open>add_to_queue\<close> is still holding.
\<close>

theorem queue_fifo:
  assumes "length (slots q) = QUEUE_SIZE" and "run qstep es (srv_init q) = Some s"
  shows "accepted s = taken s @ queued s @ in_hand (main_pc s)"
  using srv_inv_run [OF assms] by (simp add: srv_inv_def ring_inv_def)

text \<open>A run in which worker 0 sleeps, the main thread inserts socket 7 and is about to signal.\<close>

definition ex_queue :: client_queue where
  "ex_queue = \<lparr>slots = replicate 10 0, front = 3, rear = 4, count = 5\<rparr>"

definition ex_sleep :: "ev list" where
  "ex_sleep = replicate 5 (Create True) @ [Work 0, Work 0, Accept 7] @ replicate 5 Main_step"

definition ex_take :: "ev list" where
  "ex_take = ex_sleep @ [Main_signal 0, Main_step, Accept 9, Work 0, Work 0] @ replicate 2 (Work 0)"

lemma ex_queue_len: "length (slots ex_queue) = QUEUE_SIZE"
  by (simp add: ex_queue_def QUEUE_SIZE_def)

lemma ex_sleep_run: "ends_in (\<lambda>s. worker_pc s ! 0 = C_wait \<and> count (cq s) = 1 \<and>
    main_pc s = P_signal 7 \<and> queued s = [7]) (run qstep ex_sleep (srv_init ex_queue))"
  by code_simp

lemma ex_take_run: "ends_in (\<lambda>s. accepted s = [7, 9] \<and> crit_work (worker_pc s ! 0) \<and>
    worker_pc s ! 0 = C_dec 7) (run qstep ex_take (srv_init ex_queue))"
  by code_simp

theorem queue_fifo_witness:
  "\<exists>s. run qstep ex_take (srv_init ex_queue) = Some s \<and>
       accepted s = [7, 9] \<and> accepted s = taken s @ queued s @ in_hand (main_pc s)"
  using ex_take_run queue_fifo [OF ex_queue_len] by (blast elim: ends_inE)

text \<open>
  Mutual exclusion: a worker at a statement between lock and unlock is alone there.
\<close>

theorem queue_mutex:
  assumes "length (slots q) = QUEUE_SIZE" and "run qstep es (srv_init q) = Some s"
    and "i < MAX_THREADS" and "crit_work (worker_pc s ! i)"
  shows "\<not> crit_main (main_pc s) \<and>
    (\<forall>j < MAX_THREADS. crit_work (worker_pc s ! j) \<longrightarrow> j = i)"
  using srv_inv_run [OF assms(1,2)] assms(3,4) by (auto simp: srv_inv_def lock_inv_def)

theorem queue_mutex_witness:
  "\<exists>s. run qstep ex_take (srv_init ex_queue) = Some s \<and> crit_work (worker_pc s ! 0) \<and>
       \<not> crit_main (main_pc s)"
  using ex_take_run queue_mutex [OF ex_queue_len, of ex_take _ 0]
  by (auto simp: MAX_THREADS_def elim!: ends_inE)

text \<open>
  Every index into the ring is in range and \<open>count\<close> never leaves \<open>0 \<dots> QUEUE_SIZE\<close>, between
  any two statements of any threads.
\<close>

theorem queue_bounds:
  assumes "length (slots q) = QUEUE_SIZE" and "run qstep es (srv_init q) = Some s"
  shows "front (cq s) < length (slots (cq s)) \<and> rear (cq s) < length (slots (cq s)) \<and>
    count (cq s) \<le> QUEUE_SIZE"
proof -
  have lock: "lock_inv s" and ring: "ring_inv s"
    using srv_inv_run [OF assms] by (simp_all add: srv_inv_def)
  then have wf: "ring_wf (cq s) (vcount s)" by (simp add: ring_inv_def)
  have "count (cq s) \<le> QUEUE_SIZE"
  proof (cases "\<exists>i < MAX_THREADS. at_dec (worker_pc s ! i)")
    case True
    then show ?thesis using ring by (auto simp: ring_inv_def elim!: at_dec.elims)
  next
    case False
    then have "count_where at_dec (worker_pc s) = 0"
      using lock_inv_lenD [OF lock] by (simp add: count_where_0)
    then have "count (cq s) \<le> vcount s" by (simp add: vcount_def)
    with wf show ?thesis by (simp add: ring_wf_def)
  qed
  with wf show ?thesis by (simp add: ring_wf_def)
qed

theorem queue_bounds_witness:
  "\<exists>s. run qstep ex_sleep (srv_init ex_queue) = Some s \<and> count (cq s) = 1 \<and>
       rear (cq s) < length (slots (cq s))"
  using ex_sleep_run queue_bounds [OF ex_queue_len, of ex_sleep] by (auto elim!: ends_inE)

text \<open>
  Every accepted socket is in exactly one place: closed, in a worker's hand, in the ring, or
  in the main thread's hand. Nothing is served or closed twice.
\<close>

theorem queue_accounting:
  assumes "length (slots q) = QUEUE_SIZE" and "run qstep es (srv_init q) = Some s"
  shows "mset (accepted s) = mset (closed s) + mset (concat (map held (worker_pc s))) +
    mset (queued s) + mset (in_hand (main_pc s))"
  using srv_inv_run [OF assms] by (simp add: srv_inv_def ring_inv_def close_inv_def)

theorem queue_accounting_witness:
  "\<exists>s. run qstep ex_take (srv_init ex_queue) = Some s \<and> accepted s = [7, 9] \<and>
     mset (accepted s) = mset (closed s) + mset (concat (map held (worker_pc s))) +
       mset (queued s) + mset (in_hand (main_pc s))"
  using ex_take_run queue_accounting [OF ex_queue_len] by (blast elim: ends_inE)

text \<open>
  C3: no wake-up is lost: while some worker sleeps in \<open>pthread_cond_wait\<close>, each entry of the ring
  has a worker of its own that is awake inside \<open>remove_from_queue\<close>, or a signal is about to be
  sent for it; and the main thread sleeps only while the ring is full or a worker that has made room
  is about to signal \<open>not_full\<close>.
\<close>

theorem queue_no_lost_wakeup:
  assumes "length (slots q) = QUEUE_SIZE" and "run qstep es (srv_init q) = Some s"
  shows "(\<forall>i < MAX_THREADS. worker_pc s ! i = C_wait \<longrightarrow>
      count (cq s) \<le> count_where engaged (worker_pc s) + of_bool (at_signal (main_pc s))) \<and>
    (\<forall>c. main_pc s = P_wait c \<longrightarrow> count (cq s) = QUEUE_SIZE \<or> (\<exists>i < MAX_THREADS. \<exists>x. worker_pc s ! i = C_signal x))"
proof (intro conjI allI impI)
  have inv: "srv_inv s" by (rule srv_inv_run [OF assms(1,2)])
  have len: "length (worker_pc s) = MAX_THREADS" using inv by (simp add: srv_inv_def lock_inv_def)
  show "count (cq s) \<le> count_where engaged (worker_pc s) + of_bool (at_signal (main_pc s))"
    if "i < MAX_THREADS" "worker_pc s ! i = C_wait" for i
  proof -
    have "0 < count_where sleeps (worker_pc s)"
      using that len by (intro count_where_pos_nth [of i]) simp_all
    with inv show ?thesis by (simp add: srv_inv_def wake_inv_def)
  qed
  show "count (cq s) = QUEUE_SIZE \<or> (\<exists>i < MAX_THREADS. \<exists>x. worker_pc s ! i = C_signal x)" if "main_pc s = P_wait c" for c
  proof -
    have "count (cq s) = QUEUE_SIZE \<or> 0 < count_where signals (worker_pc s)"
      using inv that by (simp add: srv_inv_def wake_inv_def)
    then show ?thesis using len by (metis count_where_ex signals.elims(2))
  qed
qed

text \<open>Ten clients come before any worker runs, and then an eleventh.\<close>

definition ex_full :: "ev list" where
  "ex_full = replicate 5 (Create True) @
     concat (replicate 10 ([Accept 7] @ replicate 5 Main_step @ [Main_signal 0, Main_step])) @ [Accept 8, Main_step, Main_step]"

lemma ex_full_run: "ends_in (\<lambda>s. main_pc s = P_wait 8 \<and> \<not> list_ex signals (worker_pc s)) (run qstep ex_full (srv_init ex_queue))"
  by code_simp

theorem queue_no_lost_wakeup_witness:
  "(\<exists>s. run qstep ex_sleep (srv_init ex_queue) = Some s \<and> worker_pc s ! 0 = C_wait \<and> count (cq s) = 1 \<and>
     count (cq s) \<le> count_where engaged (worker_pc s) + of_bool (at_signal (main_pc s))) \<and>
   (\<exists>s. run qstep ex_full (srv_init ex_queue) = Some s \<and> main_pc s = P_wait 8 \<and>
     (count (cq s) = QUEUE_SIZE \<or> (\<exists>i < MAX_THREADS. \<exists>x. worker_pc s ! i = C_signal x)))"
  using ex_sleep_run ex_full_run queue_no_lost_wakeup [OF ex_queue_len, of ex_sleep] queue_no_lost_wakeup [OF ex_queue_len, of ex_full]
  by (fastforce simp: MAX_THREADS_def elim!: ends_inE)

text \<open>
  The events a thread can do by itself: no return of \<open>accept\<close>, \<open>read\<close> or \<open>pthread_create\<close>, and
  no spurious wake-up.
\<close>

fun internal :: "ev \<Rightarrow> bool" where
  "internal Main_step = True" | "internal (Main_signal i) = True" | "internal (Work i) = True"
| "internal _ = False"

lemma main_can_move:
  assumes "crit_main (main_pc s)"
  shows "\<exists>e. internal e \<and> qstep e s \<noteq> None"
proof (cases "at_signal (main_pc s)")
  case True
  then obtain c where c: "main_pc s = P_signal c" by (cases "main_pc s") auto
  show ?thesis
  proof (cases "C_wait \<in> set (worker_pc s)")
    case True
    then obtain i where "i < length (worker_pc s)" "worker_pc s ! i = C_wait"
      by (auto simp: in_set_conv_nth)
    with True c have "qstep (Main_signal i) s \<noteq> None" by (simp add: qstep_def main_signal_def)
    then show ?thesis by (intro exI [of _ "Main_signal i"]) simp
  next
    case False
    with c have "qstep (Main_signal 0) s \<noteq> None" by (simp add: qstep_def main_signal_def)
    then show ?thesis by (intro exI [of _ "Main_signal 0"]) simp
  qed
next
  case False
  with assms have "qstep Main_step s \<noteq> None"
    by (cases "main_pc s") (simp_all add: qstep_def main_step_def)
  then show ?thesis by (intro exI [of _ Main_step]) simp
qed

lemma work_can_move:
  assumes "main_pc s \<noteq> P_exit" and "i < length (worker_pc s)"
    and "crit_work (worker_pc s ! i) \<or> mutex s = None \<and> worker_pc s ! i \<in> {C_lock, C_relock}"
  shows "\<exists>e. internal e \<and> qstep e s \<noteq> None"
proof -
  have "qstep (Work i) s \<noteq> None"
    using assms by (cases "worker_pc s ! i") (auto simp: qstep_def work_step_def)
  then show ?thesis by (intro exI [of _ "Work i"]) simp
qed

text \<open>
  With the mutex free and something in the ring, a worker that neither serves nor moves would sleep, and
  nobody would be awake for the entry.
\<close>

lemma free_worker:
  assumes lock: "lock_inv s" and wake: "wake_inv s" and m: "mutex s = None" and n: "0 < count (cq s)"
    and up: "main_pc s \<noteq> P_exit" "\<And>n. main_pc s \<noteq> P_create n"
    and i: "i < MAX_THREADS" "\<And>x. worker_pc s ! i \<noteq> C_serve x"
  shows "\<exists>e. internal e \<and> qstep e s \<noteq> None"
proof (cases "\<exists>j < MAX_THREADS. worker_pc s ! j \<in> {C_lock, C_relock}")
  case True
  then show ?thesis using m up lock_inv_lenD [OF lock] work_can_move by (metis (no_types))
next
  case False
  have len: "length (worker_pc s) = MAX_THREADS" using lock by (simp add: lock_inv_def)
  have idle: "\<not> crit_work (worker_pc s ! j)" if "j < MAX_THREADS" for j
    using lock m that len by (simp add: lock_inv_def)
  have "\<not> engaged (worker_pc s ! j)" if "j < MAX_THREADS" for j
    using idle [OF that] False that by (cases "worker_pc s ! j") auto
  then have "count_where engaged (worker_pc s) = 0" using len by (simp add: count_where_0)
  moreover have "worker_pc s ! i = C_wait"
    using idle [OF i(1)] False i lock up by (cases "worker_pc s ! i") (auto simp: lock_inv_def create_inv_def split: ppc.splits)
  then have "0 < count_where sleeps (worker_pc s)" using i(1) len by (intro count_where_pos_nth [of i]) simp_all
  moreover have "\<not> at_signal (main_pc s)" using lock m by (auto simp: lock_inv_def elim!: at_signal.elims)
  ultimately show ?thesis using wake n by (simp add: wake_inv_def)
qed

text \<open>The ring is empty and the mutex free: \<open>add_to_queue\<close> does not wait, since the ring is not full.\<close>

lemma main_not_asleep:
  assumes lock: "lock_inv s" and wake: "wake_inv s" and m: "mutex s = None" and n: "count (cq s) = 0"
  shows "main_pc s \<noteq> P_wait c"
proof
  assume "main_pc s = P_wait c"
  then have "count (cq s) = QUEUE_SIZE \<or> 0 < count_where signals (worker_pc s)"
    using wake by (simp add: wake_inv_def)
  with n obtain i where "i < length (worker_pc s)" "signals (worker_pc s ! i)"
    using QUEUE_SIZE_pos by (metis count_where_ex less_irrefl)
  then show False using lock m by (auto simp: lock_inv_def dest: signals_crit)
qed

lemma main_adds:
  assumes inv: "lock_inv s" "ring_inv s" "wake_inv s" and m: "mutex s = None" and n: "count (cq s) = 0"
    and waiting: "queued s @ in_hand (main_pc s) \<noteq> []"
  shows "\<exists>e. internal e \<and> qstep e s \<noteq> None"
proof -
  have free: "\<not> crit_main (main_pc s)" "count_where at_dec (worker_pc s) = 0"
    using inv m by (simp_all add: lock_inv_def no_dec)
  then have "vcount s = count (cq s)" by (auto simp: vcount_def dest: at_inc_crit)
  then have "in_hand (main_pc s) \<noteq> []" using waiting n by (simp add: queued_def segment_def)
  then have "qstep Main_step s \<noteq> None"
    using m free main_not_asleep [OF inv(1,3) m n] by (cases "main_pc s") (auto simp: qstep_def main_step_def)
  then show ?thesis by (metis internal.simps(1))
qed

text \<open>
  C4: the monitor never deadlocks: as long as main has not exited and an accepted socket waits to be
  taken by a worker, all workers are busy with clients, or a thread can take a step that depends on no client, no new
  connection and no spurious wake-up. One worker that does not serve is enough.
\<close>

theorem queue_progress:
  assumes len: "length (slots q) = QUEUE_SIZE" and run: "run qstep es (srv_init q) = Some s"
    and up: "main_pc s \<noteq> P_exit" and waiting: "queued s @ in_hand (main_pc s) \<noteq> []"
    and i: "i < MAX_THREADS" "\<And>x. worker_pc s ! i \<noteq> C_serve x"
  shows "\<exists>e. internal e \<and> qstep e s \<noteq> None"
proof -
  have inv: "lock_inv s" "ring_inv s" "wake_inv s"
    using srv_inv_run [OF len run] by (simp_all add: srv_inv_def)
  then have made: "main_pc s \<noteq> P_create n" for n
    using waiting by (auto simp: wake_inv_def ring_inv_def)
  consider "mutex s = Some T_main" | i where "mutex s = Some (T_work i)" | "mutex s = None"
    by (metis not_None_eq tid.exhaust)
  then show ?thesis
  proof cases
    case 1
    then have "crit_main (main_pc s)" using inv by (simp add: lock_inv_def)
    then show ?thesis using main_can_move by blast
  next
    case (2 i)
    then have "crit_work (worker_pc s ! i)" "i < length (worker_pc s)"
      using inv by (simp_all add: lock_inv_def)
    then show ?thesis using work_can_move [OF up] by blast
  next
    case 3
    then show ?thesis
      using free_worker [OF inv(1,3) 3 _ up made i] main_adds [OF inv 3 _ waiting] by (cases "count (cq s) = 0") auto
  qed
qed

text \<open>Worker 0 serves the first client, worker 1 is still asleep, and a second client is in the ring.\<close>

definition ex_asleep :: "ev list" where
  "ex_asleep = replicate 5 (Create True) @ [Work 0, Work 0, Work 1, Work 1, Accept 7] @ replicate 5 Main_step @ [Main_signal 0, Main_step] @
     replicate 7 (Work 0) @ [Accept 9] @ replicate 5 Main_step"

lemma ex_asleep_run: "ends_in (\<lambda>s. worker_pc s ! 0 = C_serve 7 \<and> worker_pc s ! 1 = C_wait \<and> queued s = [9] \<and> main_pc s = P_signal 9)
    (run qstep ex_asleep (srv_init ex_queue))"
  by code_simp

theorem queue_progress_witness:
  "\<exists>s. run qstep ex_asleep (srv_init ex_queue) = Some s \<and> queued s = [9] \<and> worker_pc s ! 0 = C_serve 7 \<and> worker_pc s ! 1 = C_wait \<and>
     (\<exists>e. internal e \<and> qstep e s \<noteq> None)"
  using ex_asleep_run queue_progress [OF ex_queue_len, of ex_asleep _ 1]
  by (auto simp: MAX_THREADS_def elim!: ends_inE)

end
