(* ===== verification/Queue_Service.thy ===== *)
theory Queue_Service
  imports Queue_Properties
begin

text \<open>
  What the queue server promises, without threads, mutex, conditions and ring: a service that takes
  customers in the order of their arrival, a bounded number waiting and a bounded number at a time;
  and the proof that every run of the server is a run of it.
\<close>

section \<open>The service\<close>

text \<open>Who arrived, who was taken, and who is done, each in order.\<close>

record service =
  arrived :: "int list"
  started :: "int list"
  finished :: "int list"

datatype service_event = Arrive int | Start | Finish int

definition being_served :: "service \<Rightarrow> int multiset" where
  "being_served v = mset (started v) - mset (finished v)"

text \<open>
  Nobody arrives while \<open>QUEUE_SIZE\<close> wait and one more stands at the door; the next in line is taken when
  one of the \<open>MAX_THREADS\<close> counters is free; and only who is being served can be done.
\<close>

fun service_step :: "service_event \<Rightarrow> service \<Rightarrow> service option" where
  "service_step (Arrive x) v = (if length (arrived v) \<le> length (started v) + QUEUE_SIZE
     then Some (v\<lparr>arrived := arrived v @ [x]\<rparr>) else None)"
| "service_step Start v = (if length (started v) < length (arrived v) \<and> size (being_served v) < MAX_THREADS
     then Some (v\<lparr>started := started v @ [arrived v ! length (started v)]\<rparr>) else None)"
| "service_step (Finish x) v = (if x \<in># being_served v then Some (v\<lparr>finished := finished v @ [x]\<rparr>) else None)"

definition service_of :: "srv \<Rightarrow> service" where
  "service_of s = \<lparr>arrived = accepted s, started = taken s, finished = closed s\<rparr>"

definition idle_service :: service where
  "idle_service = \<lparr>arrived = [], started = [], finished = []\<rparr>"

section \<open>Each step of the server\<close>

lemma being_served_held: "close_inv s \<Longrightarrow> being_served (service_of s) = mset (concat (map held (worker_pc s)))"
  by (simp add: being_served_def service_of_def close_inv_def)

text \<open>A worker that holds nothing leaves a counter free.\<close>

lemma held_length: "length (concat (map held ps)) = count_where (\<lambda>p. held p \<noteq> []) ps"
proof (induction ps)
  case (Cons p ps)
  have "length (held p) = of_bool (held p \<noteq> [])" by (cases p) simp_all
  with Cons show ?case by simp
qed simp

lemma free_counter:
  assumes "i < length ps" "held (ps ! i) = []"
  shows "length (concat (map held ps)) < length ps"
proof -
  have "count_where (\<lambda>p. held p \<noteq> []) ps \<noteq> length ps"
    using assms by (auto simp: count_where_all)
  then show ?thesis using count_where_le [of "\<lambda>p. held p \<noteq> []" ps] by (simp add: held_length)
qed

lemma next_in_line:
  assumes "lock_inv s" "ring_inv s" "i < length (worker_pc s)" "worker_pc s ! i = C_front x"
  shows "\<exists>rest. accepted s = taken s @ x # rest"
proof -
  have i: "i < MAX_THREADS" using assms(1,3) by (simp add: lock_inv_def)
  have m: "mutex s = Some (T_work i)" using assms(1,4) i by (simp add: lock_inv_workD)
  have d: "count_where at_dec (worker_pc s) = 0" using one_dec [OF assms(1) i] assms(4) by simp
  have "\<not> at_inc (main_pc s)" using assms(1) m by (auto simp: lock_inv_def dest: at_inc_crit)
  then have v: "vcount s = count (cq s)" using d by (simp add: vcount_def)
  have "0 < count (cq s)" "x = slots (cq s) ! front (cq s)"
    using assms(2,4) i by (auto simp: ring_inv_def dest!: spec [of _ i])
  then have "queued s = x # segment (q_front (cq s)) (count (cq s) - 1)"
    using segment_front [of "cq s" "count (cq s)"] assms(2) v by (simp add: queued_def ring_inv_def ring_wf_def)
  then show ?thesis using assms(2) by (simp add: ring_inv_def)
qed

interpretation service: refinement qstep srv_inv service_step service_of
proof unfold_locales
  fix s t e
  assume inv: "srv_inv s" and step: "qstep e s = Some t"
  have lock: "lock_inv s" and ring: "ring_inv s" and close: "close_inv s" using inv by (simp_all add: srv_inv_def)
  from step show "service_of t = service_of s \<or> (\<exists>a. service_step a (service_of s) = Some (service_of t))"
  proof (cases rule: qstep_cases)
    case (accept fd)
    have "length (queued s) \<le> QUEUE_SIZE" using ring by (simp add: queued_def ring_inv_def ring_wf_def)
    then have "length (accepted s) \<le> length (taken s) + QUEUE_SIZE" using ring accept by (simp add: ring_inv_def)
    then have "service_step (Arrive fd) (service_of s) = Some (service_of t)" using accept by (simp add: service_of_def)
    then show ?thesis by blast
  next
    case (front i x)
    obtain rest where line: "accepted s = taken s @ x # rest" using next_in_line [OF lock ring front(1,2)] by blast
    have "length (concat (map held (worker_pc s))) < MAX_THREADS"
      using free_counter [OF front(1)] front(2) lock by (simp add: lock_inv_def)
    then have "size (being_served (service_of s)) < MAX_THREADS"
      unfolding being_served_held [OF close] size_mset .
    then have "service_step Start (service_of s) = Some (service_of t)"
      using line front by (simp add: service_of_def)
    then show ?thesis by blast
  next
    case (hangup i x)
    have "x \<in> set (concat (map held (worker_pc s)))" using hangup by (force simp: in_set_conv_nth)
    then have "x \<in># being_served (service_of s)" unfolding being_served_held [OF close] by simp
    then have "service_step (Finish x) (service_of s) = Some (service_of t)" using hangup by (simp add: service_of_def)
    then show ?thesis by blast
  qed (auto simp: service_of_def)
qed

section \<open>Property\<close>

text \<open>
  C2: the queue server implements a first-come-first-served service: every run of its threads, seen
  through the sockets accepted, taken and closed so far, is a run of the service, in which at most
  \<open>QUEUE_SIZE\<close> wait behind the door, at most \<open>MAX_THREADS\<close> are served at a time, and each is served and
  closed once, the first to come first.
\<close>

theorem queue_refines:
  assumes "length (slots q) = QUEUE_SIZE" "run qstep es (srv_init q) = Some s"
  shows "\<exists>as. run service_step as idle_service = Some (service_of s)"
proof -
  have "service_of (srv_init q) = idle_service" by (simp add: service_of_def srv_init_def idle_service_def)
  then show ?thesis using service.run_refines [OF srv_inv_init [OF assms(1)] assms(2)] by simp
qed

theorem queue_refines_witness:
  "\<exists>s as. run qstep ex_take (srv_init ex_queue) = Some s \<and> accepted s = [7, 9] \<and>
     run service_step as idle_service = Some (service_of s)"
  using ex_take_run queue_refines [OF ex_queue_len] by (blast elim: ends_inE)

end
