(* ===== verification/Server_Pool.thy ===== *)
theory Server_Pool
  imports Prelude
begin

text \<open>
  The server of \<open>sockets/hw2/pserver pool/server.c\<close>: \<open>available_threads[0 \<dots> thread_count - 1]\<close> is
  a stack of free thread ids; the main thread takes an id for every accepted connection, creates a
  handler thread with it, and gets the id back through a pipe when the handler has finished. The
  machine has the main thread and any number of handlers, which are numbered in the order of
  their creation.
\<close>

section \<open>State and operations\<close>

definition MAX_THREADS :: nat where "MAX_THREADS = 5"

text \<open>
  Where the main thread is, with the accepted socket and the id it has taken; \<open>M_crash\<close> is the
  write through the null pointer after a failed \<open>malloc\<close>.
\<close>

datatype mpc = M_accept | M_lock int | M_check int | M_wait int | M_relock int | M_take int
  | M_unlock int int | M_malloc int int | M_create int int | M_read | M_lock_back int | M_put int
  | M_signal | M_unlock_back | M_crash int

text \<open>
  Where a handler is: echoing on its socket, handing its id back under the mutex, then freeing its
  argument and returning.
\<close>

datatype hpc = H_serve int int | H_lock int | H_write int | H_unlock | H_free | H_return | H_done

datatype tid = T_main | T_handler nat

record pool =
  available_threads :: "int list"
  thread_count :: nat
  mutex :: "tid option"
  pipe_ids :: "int list"
  main_pc :: mpc
  handlers :: "hpc list"
  lost :: "int list"
  closed :: "int list"
  wire :: "(int \<times> string) list"

definition pool_init :: pool where
  "pool_init = \<lparr>available_threads = map int [0..<MAX_THREADS], thread_count = MAX_THREADS,
     mutex = None, pipe_ids = [], main_pc = M_accept, handlers = [], lost = [], closed = [], wire = []\<rparr>"

definition main_step :: "pool \<Rightarrow> pool option" where
  "main_step s = (case main_pc s of
     M_lock c \<Rightarrow> if mutex s = None then Some (s\<lparr>mutex := Some T_main, main_pc := M_check c\<rparr>) else None
   | M_check c \<Rightarrow> if thread_count s = 0 then Some (s\<lparr>mutex := None, main_pc := M_wait c\<rparr>)
                  else Some (s\<lparr>main_pc := M_take c\<rparr>)
   | M_relock c \<Rightarrow> if mutex s = None then Some (s\<lparr>mutex := Some T_main, main_pc := M_check c\<rparr>) else None
   | M_take c \<Rightarrow> Some (s\<lparr>thread_count := thread_count s - 1,
        main_pc := M_unlock c (available_threads s ! (thread_count s - 1))\<rparr>)
   | M_unlock c i \<Rightarrow> Some (s\<lparr>mutex := None, main_pc := M_malloc c i\<rparr>)
   | M_read \<Rightarrow> (case pipe_ids s of [] \<Rightarrow> None
        | i # is \<Rightarrow> Some (s\<lparr>pipe_ids := is, main_pc := M_lock_back i\<rparr>))
   | M_lock_back i \<Rightarrow> if mutex s = None then Some (s\<lparr>mutex := Some T_main, main_pc := M_put i\<rparr>) else None
   | M_put i \<Rightarrow> Some (s\<lparr>available_threads := (available_threads s)[thread_count s := i],
        thread_count := thread_count s + 1, main_pc := M_signal\<rparr>)
   | M_signal \<Rightarrow> Some (s\<lparr>main_pc := M_unlock_back\<rparr>)
   | M_unlock_back \<Rightarrow> Some (s\<lparr>mutex := None, main_pc := M_accept\<rparr>)
   | _ \<Rightarrow> None)"

definition set_h :: "nat \<Rightarrow> hpc \<Rightarrow> pool \<Rightarrow> pool" where
  "set_h j p s = s\<lparr>handlers := (handlers s)[j := p]\<rparr>"

text \<open>\<open>handle_client\<close> after its socket is closed.\<close>

definition handler_step :: "nat \<Rightarrow> pool \<Rightarrow> pool option" where
  "handler_step j s = (case handlers s ! j of
     H_lock i \<Rightarrow> if mutex s = None then Some (set_h j (H_write i) (s\<lparr>mutex := Some (T_handler j)\<rparr>)) else None
   | H_write i \<Rightarrow> Some (set_h j H_unlock (s\<lparr>pipe_ids := pipe_ids s @ [i]\<rparr>))
   | H_unlock \<Rightarrow> Some (set_h j H_free (s\<lparr>mutex := None\<rparr>))
   | H_free \<Rightarrow> Some (set_h j H_return s)
   | H_return \<Rightarrow> Some (set_h j H_done s)
   | _ \<Rightarrow> None)"

text \<open>
  The events: the returns of \<open>accept\<close>, \<open>malloc\<close>, \<open>pthread_create\<close> and of a handler's \<open>read\<close>, a
  step of the main thread or of handler \<open>j\<close>, and a wake-up from \<open>pthread_cond_wait\<close>. Only the main
  thread ever waits on the condition and only the main thread signals it, so every wake-up is one
  that POSIX allows without a signal.
\<close>

datatype ev = Accept int | Main_step | Wake | Malloc bool | Create bool
  | Handler nat | Recv nat string | Hangup nat

fun crashed :: "mpc \<Rightarrow> bool" where
  "crashed (M_crash i) = True"
| "crashed _ = False"

fun pstep :: "ev \<Rightarrow> pool \<Rightarrow> pool option" where
  "pstep (Accept fd) s = (case main_pc s of
     M_accept \<Rightarrow> Some (if fd < 0 then s else s\<lparr>main_pc := M_lock fd\<rparr>) | _ \<Rightarrow> None)"
| "pstep Main_step s = main_step s"
| "pstep Wake s = (case main_pc s of M_wait c \<Rightarrow> Some (s\<lparr>main_pc := M_relock c\<rparr>) | _ \<Rightarrow> None)"
| "pstep (Malloc ok) s = (case main_pc s of
     M_malloc c i \<Rightarrow> Some (s\<lparr>main_pc := (if ok then M_create c i else M_crash i)\<rparr>) | _ \<Rightarrow> None)"
| "pstep (Create ok) s = (case main_pc s of
     M_create c i \<Rightarrow> Some (if ok then s\<lparr>handlers := handlers s @ [H_serve c i], main_pc := M_read\<rparr>
        else s\<lparr>closed := closed s @ [c], lost := lost s @ [i], main_pc := M_accept\<rparr>)
   | _ \<Rightarrow> None)"
| "pstep (Handler j) s = (if \<not> crashed (main_pc s) \<and> j < length (handlers s) then handler_step j s else None)"
| "pstep (Recv j d) s = (if \<not> crashed (main_pc s) \<and> j < length (handlers s) \<and> d \<noteq> [] then
     (case handlers s ! j of H_serve c i \<Rightarrow> Some (s\<lparr>wire := wire s @ [(c, d)]\<rparr>) | _ \<Rightarrow> None) else None)"
| "pstep (Hangup j) s = (if \<not> crashed (main_pc s) \<and> j < length (handlers s) then
     (case handlers s ! j of H_serve c i \<Rightarrow> Some (set_h j (H_lock i) (s\<lparr>closed := closed s @ [c]\<rparr>))
      | _ \<Rightarrow> None) else None)"

section \<open>The invariant\<close>

fun crit_main :: "mpc \<Rightarrow> bool" where
  "crit_main (M_check c) = True" | "crit_main (M_take c) = True" | "crit_main (M_unlock c i) = True"
| "crit_main (M_put i) = True" | "crit_main M_signal = True" | "crit_main M_unlock_back = True"
| "crit_main _ = False"

fun crit_handler :: "hpc \<Rightarrow> bool" where
  "crit_handler (H_write i) = True" | "crit_handler H_unlock = True"
| "crit_handler _ = False"

text \<open>The id in a thread's hand: taken from the stack and not given back yet.\<close>

fun main_id :: "mpc \<Rightarrow> int list" where
  "main_id (M_unlock c i) = [i]" | "main_id (M_malloc c i) = [i]" | "main_id (M_create c i) = [i]"
| "main_id (M_lock_back i) = [i]" | "main_id (M_put i) = [i]" | "main_id (M_crash i) = [i]"
| "main_id _ = []"

fun handler_id :: "hpc \<Rightarrow> int list" where
  "handler_id (H_serve c i) = [i]" | "handler_id (H_lock i) = [i]" | "handler_id (H_write i) = [i]"
| "handler_id _ = []"

definition busy :: "hpc \<Rightarrow> bool" where "busy h \<longleftrightarrow> handler_id h \<noteq> []"

text \<open>From its creation to the end of its \<open>pthread_mutex_unlock\<close>, when only its own argument is left to it.\<close>

definition working :: "hpc \<Rightarrow> bool" where "working h \<longleftrightarrow> h \<notin> {H_free, H_return, H_done}"

definition free_ids :: "pool \<Rightarrow> int list" where
  "free_ids s = take (thread_count s) (available_threads s)"

definition lock_inv :: "pool \<Rightarrow> bool" where
  "lock_inv s \<longleftrightarrow> (crit_main (main_pc s) \<longleftrightarrow> mutex s = Some T_main) \<and>
     (\<forall>j < length (handlers s). crit_handler (handlers s ! j) \<longleftrightarrow> mutex s = Some (T_handler j)) \<and>
     (\<forall>j. mutex s = Some (T_handler j) \<longrightarrow> j < length (handlers s))"

text \<open>
  Every id is free, in a hand, in the pipe, or lost to a failed \<open>pthread_create\<close>. A handler with
  an id, or an id in the pipe, exists only while the main thread waits at the pipe, and only one.
\<close>

definition id_inv :: "pool \<Rightarrow> bool" where
  "id_inv s \<longleftrightarrow> length (available_threads s) = MAX_THREADS \<and> thread_count s \<le> MAX_THREADS \<and>
     mset (free_ids s) + mset (main_id (main_pc s)) + mset (concat (map handler_id (handlers s))) +
       mset (pipe_ids s) + mset (lost s) = mset (map int [0..<MAX_THREADS])"

definition seq_inv :: "pool \<Rightarrow> bool" where
  "seq_inv s \<longleftrightarrow>
     count_where busy (handlers s) + length (pipe_ids s) = of_bool (main_pc s = M_read) \<and>
     count_where working (handlers s) \<le> 1 \<and>
     (0 < count_where working (handlers s) \<longrightarrow> main_pc s = M_read \<or> (\<exists>i. main_pc s = M_lock_back i)) \<and>
     (\<forall>c. main_pc s = M_take c \<longrightarrow> 0 < thread_count s)"


definition pool_inv :: "pool \<Rightarrow> bool" where
  "pool_inv s \<longleftrightarrow> lock_inv s \<and> id_inv s \<and> seq_inv s"

lemma set_h_simps [simp]:
  "handlers (set_h j p s) = (handlers s)[j := p]" "main_pc (set_h j p s) = main_pc s"
  "available_threads (set_h j p s) = available_threads s" "thread_count (set_h j p s) = thread_count s"
  "mutex (set_h j p s) = mutex s" "pipe_ids (set_h j p s) = pipe_ids s" "lost (set_h j p s) = lost s"
  by (simp_all add: set_h_def)

lemma pstep_cases [consumes 1]:
  assumes "pstep e s = Some t"
  obtains
    (accept_fails) "main_pc s = M_accept" "t = s"
  | (accept) c where "main_pc s = M_accept" "t = s\<lparr>main_pc := M_lock c\<rparr>"
  | (lock) c where "main_pc s = M_lock c \<or> main_pc s = M_relock c" "mutex s = None"
      "t = s\<lparr>mutex := Some T_main, main_pc := M_check c\<rparr>"
  | (sleep) c where "main_pc s = M_check c" "thread_count s = 0"
      "t = s\<lparr>mutex := None, main_pc := M_wait c\<rparr>"
  | (go) c where "main_pc s = M_check c" "0 < thread_count s" "t = s\<lparr>main_pc := M_take c\<rparr>"
  | (take_id) c where "main_pc s = M_take c"
      "t = s\<lparr>thread_count := thread_count s - 1,
         main_pc := M_unlock c (available_threads s ! (thread_count s - 1))\<rparr>"
  | (unlock) c i where "main_pc s = M_unlock c i" "t = s\<lparr>mutex := None, main_pc := M_malloc c i\<rparr>"
  | (read) i "is" where "main_pc s = M_read" "pipe_ids s = i # is"
      "t = s\<lparr>pipe_ids := is, main_pc := M_lock_back i\<rparr>"
  | (lock_back) i where "main_pc s = M_lock_back i" "mutex s = None"
      "t = s\<lparr>mutex := Some T_main, main_pc := M_put i\<rparr>"
  | (put) i where "main_pc s = M_put i"
      "t = s\<lparr>available_threads := (available_threads s)[thread_count s := i],
         thread_count := thread_count s + 1, main_pc := M_signal\<rparr>"
  | (signal) "main_pc s = M_signal" "t = s\<lparr>main_pc := M_unlock_back\<rparr>"
  | (unlock_back) "main_pc s = M_unlock_back" "t = s\<lparr>mutex := None, main_pc := M_accept\<rparr>"
  | (wake) c where "main_pc s = M_wait c" "t = s\<lparr>main_pc := M_relock c\<rparr>"
  | (malloc) c i where "main_pc s = M_malloc c i" "t = s\<lparr>main_pc := M_create c i\<rparr>"
  | (malloc_fails) c i where "main_pc s = M_malloc c i" "t = s\<lparr>main_pc := M_crash i\<rparr>"
  | (create) c i where "main_pc s = M_create c i"
      "t = s\<lparr>handlers := handlers s @ [H_serve c i], main_pc := M_read\<rparr>"
  | (create_fails) c i where "main_pc s = M_create c i"
      "t = s\<lparr>closed := closed s @ [c], lost := lost s @ [i], main_pc := M_accept\<rparr>"
  | (h_lock) j i where "j < length (handlers s)" "handlers s ! j = H_lock i" "mutex s = None"
      "t = set_h j (H_write i) (s\<lparr>mutex := Some (T_handler j)\<rparr>)"
  | (h_write) j i where "j < length (handlers s)" "handlers s ! j = H_write i"
      "t = set_h j H_unlock (s\<lparr>pipe_ids := pipe_ids s @ [i]\<rparr>)"
  | (h_unlock) j where "j < length (handlers s)" "handlers s ! j = H_unlock"
      "t = set_h j H_free (s\<lparr>mutex := None\<rparr>)"
  | (h_end) j p where "j < length (handlers s)" "(handlers s ! j, p) \<in> {(H_free, H_return), (H_return, H_done)}" "t = set_h j p s"
  | (recv) j c i d where "j < length (handlers s)" "handlers s ! j = H_serve c i"
      "t = s\<lparr>wire := wire s @ [(c, d)]\<rparr>"
  | (hangup) j c i where "j < length (handlers s)" "handlers s ! j = H_serve c i"
      "t = set_h j (H_lock i) (s\<lparr>closed := closed s @ [c]\<rparr>)"
proof (cases e)
  case (Accept fd)
  with assms that(1) that(2) [of fd] show thesis by (auto split: if_splits mpc.splits)
next
  case Main_step
  with assms that(3-12) show thesis
    by (auto simp: main_step_def split: if_splits mpc.splits list.splits)
next
  case Wake
  with assms that(13) show thesis by (auto split: mpc.splits)
next
  case (Malloc ok)
  with assms that(14,15) show thesis by (auto split: if_splits mpc.splits)
next
  case (Create ok)
  with assms that(16,17) show thesis by (auto split: if_splits mpc.splits)
next
  case (Handler j)
  with assms that(18-21) show thesis
    by (auto simp: handler_step_def split: if_splits hpc.splits)
next
  case (Recv j d)
  with assms that(22) show thesis by (auto split: if_splits hpc.splits)
next
  case (Hangup j)
  with assms that(23) show thesis by (auto split: if_splits hpc.splits)
qed

lemma working_iff: "working h \<longleftrightarrow> busy h \<or> h = H_unlock"
  by (cases h) (simp_all add: working_def busy_def)

lemma no_working:
  assumes "lock_inv s" and "count_where busy (handlers s) = 0" and "\<And>j. mutex s \<noteq> Some (T_handler j)"
  shows "count_where working (handlers s) = 0"
  using assms by (auto simp: count_where_0 working_iff lock_inv_def)

lemma lock_inv_handlerD:
  "lock_inv s \<Longrightarrow> j < length (handlers s) \<Longrightarrow> crit_handler (handlers s ! j) \<Longrightarrow>
   mutex s = Some (T_handler j)"
  by (simp add: lock_inv_def)

lemma pool_lock_acquire:
  "lock_inv s \<Longrightarrow> j < length (handlers s) \<Longrightarrow> mutex s = None \<Longrightarrow> crit_handler p \<Longrightarrow>
   lock_inv (set_h j p (s\<lparr>mutex := Some (T_handler j)\<rparr>))"
  by (auto simp: lock_inv_def nth_list_update)

lemma pool_lock_release:
  "lock_inv s \<Longrightarrow> j < length (handlers s) \<Longrightarrow> mutex s = Some (T_handler j) \<Longrightarrow> \<not> crit_handler p \<Longrightarrow>
   lock_inv (set_h j p (s\<lparr>mutex := None\<rparr>))"
  by (auto simp: lock_inv_def nth_list_update)

lemma pool_lock_stay:
  "lock_inv s \<Longrightarrow> j < length (handlers s) \<Longrightarrow> crit_handler p = crit_handler (handlers s ! j) \<Longrightarrow>
   lock_inv (set_h j p s)"
  by (auto simp: lock_inv_def nth_list_update)

lemma pool_lock_cong:
  "lock_inv s \<Longrightarrow> main_pc t = main_pc s \<Longrightarrow> handlers t = handlers s \<Longrightarrow> mutex t = mutex s \<Longrightarrow> lock_inv t"
  by (simp add: lock_inv_def)

lemma pool_lock_step:
  assumes inv: "lock_inv s" and step: "pstep e s = Some t"
  shows "lock_inv t"
  using step
proof (cases rule: pstep_cases)
  case (h_lock j i)
  then show ?thesis using inv by (simp add: pool_lock_acquire)
next
  case (h_write j i)
  then show ?thesis using pool_lock_stay [OF inv, of j H_unlock] by (auto elim: pool_lock_cong)
next
  case (h_unlock j)
  then show ?thesis using inv lock_inv_handlerD [OF inv, of j] by (simp add: pool_lock_release)
next
  case (h_end j p)
  then show ?thesis using pool_lock_stay [OF inv, of j p] by auto
next
  case (hangup j c i)
  then show ?thesis using pool_lock_stay [OF inv, of j "H_lock i"] by (auto elim: pool_lock_cong)
next
  case (create c i)
  then show ?thesis using inv by (auto simp: lock_inv_def nth_append less_Suc_eq)
qed (use inv in \<open>auto simp: lock_inv_def\<close>)

lemma seq_inv_step:
  assumes lock: "lock_inv s" and inv: "seq_inv s" and step: "pstep e s = Some t"
  shows "seq_inv t"
  using step
proof (cases rule: pstep_cases)
  case (lock_back i)
  then have "count_where working (handlers s) = 0"
    using inv by (intro no_working [OF lock]) (auto simp: seq_inv_def)
  with lock_back inv show ?thesis by (simp add: seq_inv_def)
next
  case (create c i)
  have "count_where P (xs @ [x]) = count_where P xs + of_bool (P x)" for P and xs :: "hpc list" and x
    by (simp add: count_where_def)
  with create inv show ?thesis by (auto simp: seq_inv_def busy_def working_def)
next
  case (h_lock j i)
  with inv show ?thesis by (simp add: seq_inv_def busy_def working_def)
next
  case (h_write j i)
  with inv count_where_update [of j "handlers s" busy H_unlock] show ?thesis
    by (auto simp: seq_inv_def busy_def working_def)
next
  case (h_unlock j)
  with inv count_where_update [of j "handlers s" working H_free] show ?thesis
    by (auto simp: seq_inv_def busy_def working_def)
next
  case (h_end j p)
  with inv show ?thesis by (auto simp: seq_inv_def busy_def working_def)
next
  case (hangup j c i)
  with inv show ?thesis by (simp add: seq_inv_def busy_def working_def)
qed (use inv in \<open>auto simp: seq_inv_def split: if_splits\<close>)

lemma id_inv_step:
  assumes inv: "id_inv s" and seq: "seq_inv s" and step: "pstep e s = Some t"
  shows "id_inv t"
  using step
proof (cases rule: pstep_cases)
  case (take_id c)
  define n where "n = thread_count s - 1"
  have n: "thread_count s = Suc n" "n < length (available_threads s)"
    using inv seq take_id(1) by (auto simp: id_inv_def seq_inv_def n_def)
  then have "mset (free_ids s) = add_mset (available_threads s ! n) (mset (take n (available_threads s)))"
    by (simp add: free_ids_def take_Suc_conv_app_nth)
  with take_id inv n show ?thesis by (simp add: id_inv_def free_ids_def)
next
  case (put i)
  have "size (mset (free_ids s) + mset (main_id (main_pc s)) + mset (concat (map handler_id (handlers s))) +
      mset (pipe_ids s) + mset (lost s)) = MAX_THREADS"
    using inv by (metis id_inv_def length_map length_upt size_mset diff_zero)
  then have n: "thread_count s < length (available_threads s)"
    using inv put by (simp add: id_inv_def free_ids_def)
  then have "mset (free_ids t) = add_mset i (mset (free_ids s))"
    using put by (simp add: free_ids_def take_Suc_conv_app_nth)
  with put inv n show ?thesis by (simp add: id_inv_def)
next
  case (h_lock j i)
  with inv mset_concat_update [of j "handlers s" handler_id "H_write i"] show ?thesis
    by (simp add: id_inv_def free_ids_def)
next
  case (h_write j i)
  then have "mset (concat (map handler_id (handlers s))) =
      add_mset i (mset (concat (map handler_id ((handlers s)[j := H_unlock]))))"
    using mset_concat_update [of j "handlers s" handler_id H_unlock] by simp
  with h_write inv show ?thesis by (simp add: id_inv_def free_ids_def)
next
  case (h_unlock j)
  with inv mset_concat_update [of j "handlers s" handler_id H_free] show ?thesis
    by (simp add: id_inv_def free_ids_def)
next
  case (h_end j p)
  with inv mset_concat_update [of j "handlers s" handler_id p] show ?thesis
    by (auto simp: id_inv_def free_ids_def)
next
  case (hangup j c i)
  with inv mset_concat_update [of j "handlers s" handler_id "H_lock i"] show ?thesis
    by (simp add: id_inv_def free_ids_def)
qed (use inv in \<open>auto simp: id_inv_def free_ids_def add_ac\<close>)

interpretation pool_server: event_system pstep pool_inv
  by unfold_locales (auto simp: pool_inv_def intro: pool_lock_step seq_inv_step id_inv_step)

lemma pool_inv_init: "pool_inv pool_init"
  by (simp add: pool_inv_def lock_inv_def id_inv_def seq_inv_def pool_init_def free_ids_def)

lemma pool_inv_run: "run pstep es pool_init = Some s \<Longrightarrow> pool_inv s"
  by (rule pool_server.run_inv [OF pool_inv_init])


lemma id_inv_size:
  assumes "id_inv s"
  shows "thread_count s + length (main_id (main_pc s)) + length (concat (map handler_id (handlers s))) +
    length (pipe_ids s) + length (lost s) = MAX_THREADS"
proof -
  have "size (mset (free_ids s) + mset (main_id (main_pc s)) + mset (concat (map handler_id (handlers s))) +
      mset (pipe_ids s) + mset (lost s)) = MAX_THREADS"
    using assms by (metis id_inv_def length_map length_upt size_mset diff_zero)
  then show ?thesis using assms by (simp add: id_inv_def free_ids_def)
qed

lemma no_busy_no_ids: "count_where busy hs = 0 \<Longrightarrow> concat (map handler_id hs) = []"
  by (induction hs) (auto simp: busy_def split: if_splits)

section \<open>After every id is lost\<close>

text \<open>With all ids lost the main thread can no longer get past the wait for a free id.\<close>

definition starved :: "nat \<Rightarrow> pool \<Rightarrow> bool" where
  "starved n s \<longleftrightarrow> pool_inv s \<and> length (lost s) = MAX_THREADS \<and> length (handlers s) = n"

lemma starved_step:
  assumes "starved n s" and "pstep e s = Some t"
  shows "starved n t"
proof -
  have size: "main_id (main_pc s) = []" "thread_count s = 0"
    using assms(1) id_inv_size [of s] by (auto simp: starved_def pool_inv_def)
  have "pool_inv t" using assms by (auto simp: starved_def intro: pool_server.step_inv)
  with assms(2) show ?thesis
    using assms(1) size by (cases rule: pstep_cases) (auto simp: starved_def)
qed

interpretation starved_pool: event_system pstep "starved n" for n
  by unfold_locales (rule starved_step)

section \<open>Properties\<close>

definition ex_serve :: "ev list" where
  "ex_serve = [Accept 4] @ replicate 4 Main_step @ [Malloc True, Create True, Recv 0 ''hi'', Hangup 0,
     Handler 0, Handler 0]"

definition ex_lose :: "ev list" where
  "ex_lose = concat (replicate 5 ([Accept 4] @ replicate 4 Main_step @ [Malloc True, Create False]))"

definition ex_stuck :: "ev list" where
  "ex_stuck = [Accept 6, Main_step, Main_step, Wake, Main_step, Main_step]"

lemma ex_serve_run: "ends_in (\<lambda>s. handlers s = [H_unlock] \<and> pipe_ids s = [4] \<and> main_pc s = M_read)
    (run pstep ex_serve pool_init)"
  by code_simp

lemma ex_lose_run: "ends_in (\<lambda>s. length (lost s) = MAX_THREADS \<and> main_pc s = M_accept \<and>
    ends_in (\<lambda>t. main_pc t = M_wait 6) (run pstep ex_stuck s)) (run pstep ex_lose pool_init)"
  by code_simp

text \<open>
  C5: a thread id is never in two places: the free ids, the one in the main thread's hand, those of
  the running handlers, those in the pipe and those lost together are always the ids
  \<open>0 \<dots> MAX_THREADS - 1\<close>, each exactly once.
\<close>

theorem pool_ids:
  assumes "run pstep es pool_init = Some s"
  shows "mset (free_ids s) + mset (main_id (main_pc s)) + mset (concat (map handler_id (handlers s))) +
    mset (pipe_ids s) + mset (lost s) = mset (map int [0..<MAX_THREADS])"
  using pool_inv_run [OF assms] by (simp add: pool_inv_def id_inv_def)

theorem pool_ids_witness:
  "\<exists>s. run pstep ex_serve pool_init = Some s \<and> pipe_ids s = [4] \<and>
     mset (free_ids s) + mset (main_id (main_pc s)) + mset (concat (map handler_id (handlers s))) +
     mset (pipe_ids s) + mset (lost s) = mset (map int [0..<MAX_THREADS])"
  using ex_serve_run pool_ids [of ex_serve] by (blast elim: ends_inE)

text \<open>
  C6: the pool serves one client at a time. At most one handler is between its creation and the end of
  its \<open>pthread_mutex_unlock\<close>, so at most one talks to a client, and this only while the main thread
  waits at the pipe; when the main thread is back at \<open>accept\<close> no handler has anything left to do but to
  free its argument and to return. The other \<open>MAX_THREADS - 1\<close> ids are never in use.
\<close>

theorem pool_serial:
  assumes "run pstep es pool_init = Some s"
  shows "count_where working (handlers s) \<le> 1 \<and>
    ((\<exists>j < length (handlers s). \<exists>c i. handlers s ! j = H_serve c i) \<longrightarrow> main_pc s = M_read) \<and>
    (main_pc s = M_accept \<longrightarrow> set (handlers s) \<subseteq> {H_free, H_return, H_done})"
proof -
  have inv: "seq_inv s" using pool_inv_run [OF assms] by (simp add: pool_inv_def)
  have "main_pc s = M_read" if "j < length (handlers s)" "handlers s ! j = H_serve c i" for j c i
  proof -
    have "0 < count_where busy (handlers s)" using that by (intro count_where_pos_nth) (auto simp: busy_def)
    then show ?thesis using inv by (cases "main_pc s = M_read") (auto simp: seq_inv_def)
  qed
  moreover have "set (handlers s) \<subseteq> {H_free, H_return, H_done}" if "main_pc s = M_accept"
  proof -
    have "count_where working (handlers s) = 0" using inv that by (auto simp: seq_inv_def)
    then have "\<forall>h \<in> set (handlers s). \<not> working h" by (auto simp: count_where_0 in_set_conv_nth)
    then show ?thesis by (auto simp: working_def)
  qed
  ultimately show ?thesis using inv by (auto simp: seq_inv_def)
qed

text \<open>A handler is about to free its argument while its successor serves a client.\<close>

definition ex_two :: "ev list" where
  "ex_two = ex_serve @ [Handler 0] @ replicate 5 Main_step @ [Accept 7] @ replicate 4 Main_step @ [Malloc True, Create True]"

lemma ex_two_run: "ends_in (\<lambda>s. handlers s = [H_free, H_serve 7 4]) (run pstep ex_two pool_init)"
  by code_simp

theorem pool_serial_witness:
  "\<exists>s. run pstep ex_two pool_init = Some s \<and> handlers s = [H_free, H_serve 7 4] \<and>
     count_where working (handlers s) \<le> 1 \<and> main_pc s = M_read"
  using ex_two_run pool_serial [of ex_two] by (force elim: ends_inE)

text \<open>
  Every failed \<open>pthread_create\<close> costs the pool a thread id for good: whenever the main thread is
  back at \<open>accept\<close>, the free ids are those not lost.
\<close>

theorem pool_leaks_ids:
  assumes "run pstep es pool_init = Some s" and "main_pc s = M_accept"
  shows "thread_count s + length (lost s) = MAX_THREADS"
proof -
  have inv: "pool_inv s" by (rule pool_inv_run [OF assms(1)])
  then have "count_where busy (handlers s) = 0" and "pipe_ids s = []"
    using assms(2) by (auto simp: pool_inv_def seq_inv_def)
  then show ?thesis
    using inv assms(2) id_inv_size [of s] no_busy_no_ids [of "handlers s"] by (simp add: pool_inv_def)
qed

theorem pool_leaks_ids_witness:
  "\<exists>s. run pstep ex_lose pool_init = Some s \<and> main_pc s = M_accept \<and>
     length (lost s) = MAX_THREADS \<and> thread_count s + length (lost s) = MAX_THREADS"
  using ex_lose_run pool_leaks_ids [of ex_lose] by (blast elim: ends_inE)

text \<open>
  After \<open>MAX_THREADS\<close> failed calls of \<open>pthread_create\<close> the server accepts at most one more
  connection and never creates a handler again, whatever happens.
\<close>

theorem pool_starves:
  assumes "run pstep es pool_init = Some s" and "length (lost s) = MAX_THREADS"
    and "run pstep fs s = Some t"
  shows "length (handlers t) = length (handlers s) \<and> thread_count t = 0"
proof -
  have "starved (length (handlers s)) s"
    using assms(2) pool_inv_run [OF assms(1)] by (simp add: starved_def)
  then have "starved (length (handlers s)) t" using assms(3) by (rule starved_pool.run_inv)
  then show ?thesis using id_inv_size [of t] by (auto simp: starved_def pool_inv_def)
qed

theorem pool_starves_witness:
  "\<exists>s t. run pstep ex_lose pool_init = Some s \<and> run pstep ex_stuck s = Some t \<and>
     main_pc t = M_wait 6 \<and> length (handlers t) = length (handlers s)"
  using ex_lose_run pool_starves [of ex_lose _ ex_stuck] by (fastforce elim!: ends_inE)

end
