(* ===== verification/Stdio.thy ===== *)
theory Stdio
  imports Prelude
begin

text \<open>
  What the programs use of \<open>scanf\<close> and \<open>fgets\<close>: the standard input is the list of characters
  that are still to be read. Each function gives what it read and what is left.
\<close>

section \<open>Conversions\<close>

definition is_space :: "char \<Rightarrow> bool" where
  "is_space c \<longleftrightarrow> c \<in> {CHR '' '', CHR 0x09, CHR 0x0A, CHR 0x0B, CHR 0x0C, CHR 0x0D}"

definition is_digit :: "char \<Rightarrow> bool" where
  "is_digit c \<longleftrightarrow> 48 \<le> (of_char c :: nat) \<and> (of_char c :: nat) \<le> 57"

abbreviation newline :: char where
  "newline \<equiv> CHR 0x0A"

text \<open>\<open>%s\<close>: the next run of characters that are no white space; \<open>None\<close> at the end of the input.\<close>

definition scan_s :: "string \<Rightarrow> string option \<times> string" where
  "scan_s i = (case dropWhile is_space i of
     [] \<Rightarrow> (None, [])
   | t \<Rightarrow> (Some (takeWhile (\<lambda>c. \<not> is_space c) t), dropWhile (\<lambda>c. \<not> is_space c) t))"

definition digits_val :: "string \<Rightarrow> int" where
  "digits_val ds = foldl (\<lambda>v d. 10 * v + (of_char d - 48)) 0 ds"

text \<open>
  \<open>%d\<close> and \<open>%u\<close>: white space, an optional sign and at least one digit. On a mismatch nothing is
  stored and the characters from the mismatch on stay in the input; the sign is gone.
\<close>

definition scan_num :: "string \<Rightarrow> int option \<times> string" where
  "scan_num i = (
     let t = dropWhile is_space i;
         neg = (t \<noteq> [] \<and> hd t = CHR ''-'');
         u = (if t \<noteq> [] \<and> (hd t = CHR ''-'' \<or> hd t = CHR ''+'') then tl t else t);
         ds = takeWhile is_digit u
     in if ds = [] then (None, u)
        else (Some (if neg then - digits_val ds else digits_val ds), dropWhile is_digit u))"

definition scan_d :: "string \<Rightarrow> (int option \<times> string) c" where
  "scan_d i = (case scan_num i of
     (Some v, r) \<Rightarrow> if in_int v then Inr (Some v, r) else Inl Bad_Conversion
   | (None, r) \<Rightarrow> Inr (None, r))"

text \<open>\<open>%u\<close> takes a sign, too, and stores the value modulo \<open>2 ^ 32\<close>.\<close>

definition scan_u :: "string \<Rightarrow> (32 word option \<times> string) c" where
  "scan_u i = (case scan_num i of
     (Some v, r) \<Rightarrow> if \<bar>v\<bar> < 2 ^ 32 then Inr (Some (word_of_int v), r) else Inl Bad_Conversion
   | (None, r) \<Rightarrow> Inr (None, r))"

text \<open>\<open>scanf("%s", b)\<close>: the buffer stays as it is at the end of the input.\<close>

definition scan_into :: "string \<Rightarrow> char list \<Rightarrow> (char list \<times> string) c" where
  "scan_into i b = (case scan_s i of
     (None, r) \<Rightarrow> Inr (b, r)
   | (Some t, r) \<Rightarrow> cbind (put_str b t) (\<lambda>b'. Inr (b', r)))"

text \<open>
  The same into a fresh local array of \<open>n\<close> characters, as the string that is in it afterwards; at
  the end of the input nothing is stored and its content stays indeterminate, \<open>None\<close>.
\<close>

definition scan_fresh :: "nat \<Rightarrow> string \<Rightarrow> (string option \<times> string) c" where
  "scan_fresh n i = (case scan_s i of
     (None, r) \<Rightarrow> Inr (None, r)
   | (Some t, r) \<Rightarrow> cbind (put_str (replicate n NUL) t) (\<lambda>b. Inr (Some (cstr b), r)))"

text \<open>
  \<open>fgets(b, n, stdin)\<close>: at most \<open>n - 1\<close> characters, up to and including the first newline, and a
  NUL; \<open>None\<close> and an unchanged buffer when no character is left.
\<close>

definition fgets_line :: "nat \<Rightarrow> string \<Rightarrow> string" where
  "fgets_line n i = take (n - 1) (takeWhile (\<lambda>c. c \<noteq> newline) i @
     (if newline \<in> set i then [newline] else []))"

definition fgets :: "nat \<Rightarrow> char list \<Rightarrow> string \<Rightarrow> (char list option \<times> string) c" where
  "fgets n b i = (if i = [] then Inr (None, [])
     else cbind (put_str b (fgets_line n i))
       (\<lambda>b'. Inr (Some b', drop (length (fgets_line n i)) i)))"

section \<open>Words and separators\<close>

text \<open>A word is what \<open>%s\<close> reads back as it is: not empty, no white space and no NUL in it.\<close>

definition word_ok :: "nat \<Rightarrow> string \<Rightarrow> bool" where
  "word_ok n w \<longleftrightarrow> w \<noteq> [] \<and> length w < n \<and> (\<forall>c \<in> set w. \<not> is_space c \<and> c \<noteq> NUL)"

lemma newline_space [simp]: "is_space newline"
  by (simp add: is_space_def)

lemma scan_s_word:
  assumes "word_ok n w"
  shows "scan_s (w @ newline # r) = (Some w, newline # r)"
    and "scan_s (newline # w @ newline # r) = (Some w, newline # r)"
proof -
  obtain c w' where w: "w = c # w'" using assms by (cases w) (auto simp: word_ok_def)
  have all: "\<forall>c \<in> set w. \<not> is_space c" using assms by (simp add: word_ok_def)
  then have "takeWhile (\<lambda>c. \<not> is_space c) (w @ newline # r) = w"
      "dropWhile (\<lambda>c. \<not> is_space c) (w @ newline # r) = newline # r"
    by (simp_all add: takeWhile_append dropWhile_append)
  moreover have "dropWhile is_space (w @ newline # r) = w @ newline # r"
    using all w by simp
  ultimately show "scan_s (w @ newline # r) = (Some w, newline # r)"
      "scan_s (newline # w @ newline # r) = (Some w, newline # r)"
    using w by (simp_all add: scan_s_def)
qed

lemma word_ok_NUL: "word_ok n w \<Longrightarrow> NUL \<notin> set w"
  by (auto simp: word_ok_def)

lemma scan_fresh_word:
  assumes "word_ok n w"
  shows "scan_fresh n (newline # w @ newline # r) = Inr (Some w, newline # r)"
  using assms word_ok_NUL [OF assms]
  by (simp add: scan_fresh_def scan_s_word [OF assms] put_str_def) (auto simp: word_ok_def)

lemma scan_into_word:
  assumes "word_ok n w" and "length b = n"
  shows "scan_into (newline # w @ newline # r) b =
    Inr (w @ NUL # drop (Suc (length w)) b, newline # r)"
  using assms by (simp add: scan_into_def scan_s_word [OF assms(1)] put_str_def word_ok_def)

text \<open>Whatever is read into it, a terminated buffer stays terminated and keeps its length.\<close>

lemma scan_into_wf:
  "scan_into i b = Inr (b', r) \<Longrightarrow> terminated b \<Longrightarrow> terminated b' \<and> length b' = length b"
  by (auto simp: scan_into_def put_str_Inr split: option.splits prod.splits)

end
