(* ===== verification/Phonebook.thy ===== *)
theory Phonebook
  imports Stdio
begin

text \<open>
  What the two phone books, \<open>structs/task.c\<close> and \<open>dynamic/task.c\<close>, have in common: the record of an
  entry, the session with its standard input and output, searching and printing, the menu loop of
  \<open>main\<close>, and the contract of a store of entries with what a client of the menu may rely on.
  The two programs differ in how they keep the entries.
\<close>

section \<open>Entries and the session\<close>

definition NAME_LEN :: nat where "NAME_LEN = 10"

record abonent =
  name :: "char list"
  second_name :: "char list"
  tel :: "char list"

text \<open>The messages, one constructor for each \<open>printf\<close> with what it prints.\<close>

datatype msg = Ask_name | Ask_second_name | Ask_tel | Ask_delete | Ask_search | Menu
  | Entry string string string | Deleted | Not_found | Full | Bye | Wrong_choice

record 'b session =
  store :: 'b
  input :: string
  out :: "msg list"
  choice :: "int option"

definition say :: "msg \<Rightarrow> 'b session \<Rightarrow> 'b session" where
  "say m s = s\<lparr>out := out s @ [m]\<rparr>"

text \<open>The three \<open>scanf("%s", \<dots>)\<close> calls of \<open>add_abonent\<close>, into the record at hand.\<close>

definition read_entry :: "abonent \<Rightarrow> 'b session \<Rightarrow> (abonent \<times> 'b session) c" where
  "read_entry r s =
     cbind (scan_into (input s) (name r)) (\<lambda>(n, i1).
     cbind (scan_into i1 (second_name r)) (\<lambda>(sn, i2).
     cbind (scan_into i2 (tel r)) (\<lambda>(t, i3).
       Inr (\<lparr>name = n, second_name = sn, tel = t\<rparr>,
            say Ask_tel (say Ask_second_name (say Ask_name (s\<lparr>input := i3\<rparr>)))))))"

text \<open>One element of an array of records, read and written; an index outside the array has neither.\<close>

definition elem :: "'a list \<Rightarrow> nat \<Rightarrow> 'a c" where
  "elem l i = (if i < length l then Inr (l ! i) else Inl Bad_Index)"

definition set_elem :: "'a list \<Rightarrow> nat \<Rightarrow> 'a \<Rightarrow> 'a list c" where
  "set_elem l i x = (if i < length l then Inr (l[i := x]) else Inl Bad_Index)"

text \<open>
  The line \<open>printf("\<dots>%s\<dots>%s\<dots>%s")\<close> for one entry, and \<open>strcmp\<close> of its name with the local array that
  \<open>scanf\<close> was to fill: without a word in it the comparison reads indeterminate characters.
\<close>

definition entry_msg :: "abonent \<Rightarrow> msg c" where
  "entry_msg r = cbind (get_str (name r)) (\<lambda>n. cbind (get_str (second_name r)) (\<lambda>sn.
     cbind (get_str (tel r)) (\<lambda>t. Inr (Entry n sn t))))"

definition name_is :: "string option \<Rightarrow> abonent \<Rightarrow> bool c" where
  "name_is w r = cbind (get_str (name r)) (\<lambda>m.
     case w of None \<Rightarrow> Inl Uninit_Read | Some n \<Rightarrow> Inr (m = n))"

text \<open>
  The loops over \<open>i < count\<close>: the first index whose name matches, the lines of the matching entries,
  the lines of all entries.
\<close>

function find_name :: "string option \<Rightarrow> abonent list \<Rightarrow> nat \<Rightarrow> nat \<Rightarrow> nat option c" where
  "find_name w l cnt i =
     (if i < cnt then
        cbind (elem l i) (\<lambda>r.
        cbind (name_is w r) (\<lambda>b. if b then Inr (Some i) else find_name w l cnt (Suc i)))
      else Inr None)"
  by pat_completeness auto
termination by (relation "measure (\<lambda>(w, l, cnt, i). cnt - i)") auto

declare find_name.simps [simp del]

function print_from :: "(abonent \<Rightarrow> bool c) \<Rightarrow> abonent list \<Rightarrow> nat \<Rightarrow> nat \<Rightarrow> msg list c" where
  "print_from p l cnt i =
     (if i < cnt then
        cbind (elem l i) (\<lambda>r. cbind (p r) (\<lambda>b.
          if b then cbind (entry_msg r) (\<lambda>m.
                      cbind (print_from p l cnt (Suc i)) (\<lambda>ms. Inr (m # ms)))
          else print_from p l cnt (Suc i)))
      else Inr [])"
  by pat_completeness auto
termination by (relation "measure (\<lambda>(p, l, cnt, i). cnt - i)") auto

declare print_from.simps [simp del]

text \<open>\<open>search_abonent\<close> and \<open>print_abonents\<close>, given the array and the count.\<close>

definition search_abonent :: "abonent list \<Rightarrow> nat \<Rightarrow> 'b session \<Rightarrow> 'b session c" where
  "search_abonent l cnt s =
     cbind (scan_fresh NAME_LEN (input s)) (\<lambda>(w, i).
     cbind (print_from (name_is w) l cnt 0) (\<lambda>ms.
       Inr (s\<lparr>input := i, out := out s @ [Ask_search] @ ms\<rparr>)))"

definition print_abonents :: "abonent list \<Rightarrow> nat \<Rightarrow> 'b session \<Rightarrow> 'b session c" where
  "print_abonents l cnt s =
     cbind (print_from (\<lambda>r. Inr True) l cnt 0) (\<lambda>ms. Inr (s\<lparr>out := out s @ ms\<rparr>))"

section \<open>The menu loop\<close>

text \<open>
  One round of the \<open>do \<dots> while\<close> loop: the menu, \<open>scanf("%d", &choice)\<close>, the \<open>switch\<close>. When nothing
  can be converted \<open>choice\<close> keeps its value; before the first conversion it has none.
\<close>

definition menu_round :: "('b session \<Rightarrow> 'b session c) \<Rightarrow> ('b session \<Rightarrow> 'b session c) \<Rightarrow>
    ('b session \<Rightarrow> 'b session c) \<Rightarrow> ('b session \<Rightarrow> 'b session c) \<Rightarrow> 'b session \<Rightarrow> 'b session c" where
  "menu_round add del search print s =
     cbind (scan_d (input s)) (\<lambda>(v, i).
       let s1 = say Menu (s\<lparr>input := i, choice := (case v of None \<Rightarrow> choice s | Some k \<Rightarrow> Some k)\<rparr>)
       in case choice s1 of
            None \<Rightarrow> Inl Uninit_Read
          | Some k \<Rightarrow>
              if k = 1 then add s1
              else if k = 2 then del s1
              else if k = 3 then search s1
              else if k = 4 then print s1
              else if k = 5 then Inr (say Bye s1)
              else Inr (say Wrong_choice s1))"

text \<open>The loop; \<open>None\<close> is that the fuel did not suffice, as for a loop that never ends.\<close>

fun menu_loop :: "('b session \<Rightarrow> 'b session c) \<Rightarrow> ('b session \<Rightarrow> 'b session c) \<Rightarrow>
    ('b session \<Rightarrow> 'b session c) \<Rightarrow> ('b session \<Rightarrow> 'b session c) \<Rightarrow> nat \<Rightarrow> 'b session \<Rightarrow>
    'b session c option" where
  "menu_loop add del search print 0 s = None"
| "menu_loop add del search print (Suc n) s =
     (case menu_round add del search print s of
        Inl e \<Rightarrow> Some (Inl e)
      | Inr t \<Rightarrow> if choice t = Some 5 then Some (Inr t)
                 else menu_loop add del search print n t)"

text \<open>The session after at most \<open>n\<close> rounds, or the stop on the way; a session that was left stays.\<close>

fun menu_after :: "('b session \<Rightarrow> 'b session c) \<Rightarrow> ('b session \<Rightarrow> 'b session c) \<Rightarrow>
    ('b session \<Rightarrow> 'b session c) \<Rightarrow> ('b session \<Rightarrow> 'b session c) \<Rightarrow> nat \<Rightarrow> 'b session \<Rightarrow>
    'b session c" where
  "menu_after add del search print 0 s = Inr s"
| "menu_after add del search print (Suc n) s =
     cbind (menu_round add del search print s) (\<lambda>t.
       if choice t = Some 5 then Inr t else menu_after add del search print n t)"

lemma menu_loop_after:
  "menu_loop add del search print n s = None \<or>
   menu_loop add del search print n s = Some (menu_after add del search print n s)"
  by (induction n arbitrary: s) (auto split: sum.split)

definition start :: "'b \<Rightarrow> string \<Rightarrow> 'b session" where
  "start b i = \<lparr>store = b, input = i, out = [], choice = None\<rparr>"

lemma start_simps [simp]:
  "store (start b i) = b" "input (start b i) = i" "out (start b i) = []" "choice (start b i) = None"
  by (simp_all add: start_def)

section \<open>What the loops over the array do\<close>

text \<open>An entry is well formed when its three arrays hold strings.\<close>

definition entry_wf :: "abonent \<Rightarrow> bool" where
  "entry_wf r \<longleftrightarrow> length (name r) = NAME_LEN \<and> length (second_name r) = NAME_LEN \<and>
     length (tel r) = NAME_LEN \<and> terminated (name r) \<and> terminated (second_name r) \<and> terminated (tel r)"

type_synonym entry = "string \<times> string \<times> string"

definition entry_of :: "abonent \<Rightarrow> entry" where
  "entry_of r = (cstr (name r), cstr (second_name r), cstr (tel r))"

definition msg_of :: "entry \<Rightarrow> msg" where
  "msg_of e = Entry (fst e) (fst (snd e)) (snd (snd e))"

fun index_of :: "string \<Rightarrow> entry list \<Rightarrow> nat option" where
  "index_of n [] = None"
| "index_of n (e # es) = (if fst e = n then Some 0 else map_option Suc (index_of n es))"

lemma name_is_wf: "entry_wf r \<Longrightarrow> name_is (Some n) r = Inr (fst (entry_of r) = n)"
  by (simp add: name_is_def entry_wf_def entry_of_def get_str_def)

lemma entry_msg_wf: "entry_wf r \<Longrightarrow> entry_msg r = Inr (msg_of (entry_of r))"
  by (simp add: entry_msg_def entry_wf_def entry_of_def get_str_def msg_of_def)

lemma drop_take_nth:
  "i < cnt \<Longrightarrow> cnt \<le> length l \<Longrightarrow> drop i (take cnt l) = l ! i # drop (Suc i) (take cnt l)"
  by (metis Cons_nth_drop_Suc length_take min.absorb2 nth_take)

lemma entry_wf_nth:
  "\<forall>r \<in> set (take cnt l). entry_wf r \<Longrightarrow> i < cnt \<Longrightarrow> cnt \<le> length l \<Longrightarrow> entry_wf (l ! i)"
  by (metis length_take min.absorb2 nth_mem nth_take)

lemma find_name_step:
  "i < cnt \<Longrightarrow> i < length l \<Longrightarrow> entry_wf (l ! i) \<Longrightarrow>
   find_name (Some n) l cnt i =
     (if fst (entry_of (l ! i)) = n then Inr (Some i) else find_name (Some n) l cnt (Suc i))"
  by (subst find_name.simps) (simp add: name_is_wf elem_def)

lemma find_name_correct:
  assumes len: "cnt \<le> length l" and wf: "\<forall>r \<in> set (take cnt l). entry_wf r" and "i \<le> cnt"
  shows "find_name (Some n) l cnt i =
    Inr (map_option (\<lambda>k. i + k) (index_of n (map entry_of (drop i (take cnt l)))))"
  using assms(3)
proof (induction "cnt - i" arbitrary: i)
  case 0
  then show ?case by (subst find_name.simps) simp
next
  case (Suc m)
  then have i: "i < cnt" by simp
  have IH: "find_name (Some n) l cnt (Suc i) =
      Inr (map_option (\<lambda>k. Suc i + k) (index_of n (map entry_of (drop (Suc i) (take cnt l)))))"
    using Suc.hyps(2) i by (intro Suc.hyps(1)) simp_all
  have "find_name (Some n) l cnt i =
      (if fst (entry_of (l ! i)) = n then Inr (Some i) else find_name (Some n) l cnt (Suc i))"
    using i len entry_wf_nth [OF wf i len] by (intro find_name_step) simp_all
  then show ?case
    unfolding IH drop_take_nth [OF i len]
    by (cases "index_of n (map entry_of (drop (Suc i) (take cnt l)))") simp_all
qed

lemma print_from_step:
  "i < cnt \<Longrightarrow> i < length l \<Longrightarrow> entry_wf (l ! i) \<Longrightarrow> p (l ! i) = Inr b \<Longrightarrow>
   print_from p l cnt i =
     (if b then cbind (print_from p l cnt (Suc i)) (\<lambda>ms. Inr (msg_of (entry_of (l ! i)) # ms))
      else print_from p l cnt (Suc i))"
  by (subst print_from.simps) (simp add: entry_msg_wf elem_def)

lemma print_from_correct:
  assumes len: "cnt \<le> length l" and wf: "\<forall>r \<in> set (take cnt l). entry_wf r" and "i \<le> cnt"
    and p: "\<And>r. entry_wf r \<Longrightarrow> p r = Inr (P (entry_of r))"
  shows "print_from p l cnt i = Inr (map msg_of (filter P (map entry_of (drop i (take cnt l)))))"
  using assms(3)
proof (induction "cnt - i" arbitrary: i)
  case 0
  then show ?case by (subst print_from.simps) simp
next
  case (Suc m)
  then have i: "i < cnt" by simp
  have IH: "print_from p l cnt (Suc i) =
      Inr (map msg_of (filter P (map entry_of (drop (Suc i) (take cnt l)))))"
    using Suc by simp
  have e: "entry_wf (l ! i)" by (rule entry_wf_nth [OF wf i len])
  have "print_from p l cnt i =
     (if P (entry_of (l ! i))
      then cbind (print_from p l cnt (Suc i)) (\<lambda>ms. Inr (msg_of (entry_of (l ! i)) # ms))
      else print_from p l cnt (Suc i))"
    using i len e p [OF e] by (intro print_from_step) simp_all
  then show ?case unfolding IH drop_take_nth [OF i len] by simp
qed

text \<open>Without a word to compare with, an empty array is fine and any other is not.\<close>

lemma no_word:
  assumes "cnt \<le> length l" and "\<forall>r \<in> set (take cnt l). entry_wf r"
  shows "find_name None l cnt 0 = (if cnt = 0 then Inr None else Inl Uninit_Read)"
    and "print_from (name_is None) l cnt 0 = (if cnt = 0 then Inr [] else Inl Uninit_Read)"
proof -
  have e: "0 < cnt \<Longrightarrow> elem l 0 = Inr (l ! 0) \<and> name_is None (l ! 0) = Inl Uninit_Read"
    using assms(1) entry_wf_nth [OF assms(2) _ assms(1), of 0]
    by (auto simp: elem_def name_is_def entry_wf_def get_str_def)
  show "find_name None l cnt 0 = (if cnt = 0 then Inr None else Inl Uninit_Read)"
    using e by (subst find_name.simps) simp
  show "print_from (name_is None) l cnt 0 = (if cnt = 0 then Inr [] else Inl Uninit_Read)"
    using e by (subst print_from.simps) simp
qed

lemma read_entry_words:
  assumes w: "word_ok NAME_LEN n" "word_ok NAME_LEN sn" "word_ok NAME_LEN t"
    and r: "length (name r) = NAME_LEN" "length (second_name r) = NAME_LEN" "length (tel r) = NAME_LEN"
    and i: "input s = newline # n @ newline # sn @ newline # t @ newline # rest"
  shows "\<exists>r'. read_entry r s = Inr (r', s\<lparr>input := newline # rest,
      out := out s @ [Ask_name, Ask_second_name, Ask_tel]\<rparr>) \<and>
    entry_wf r' \<and> entry_of r' = (n, sn, t)"
proof -
  note R = scan_into_word [OF w(1) r(1)] scan_into_word [OF w(2) r(2)] scan_into_word [OF w(3) r(3)]
  show ?thesis
    using w r word_ok_NUL [OF w(1)] word_ok_NUL [OF w(2)] word_ok_NUL [OF w(3)]
    by (simp add: read_entry_def i R say_def entry_wf_def entry_of_def word_ok_def)
qed

text \<open>Whatever the input: what is read into a well formed entry leaves it well formed.\<close>

lemma read_entry_wf:
  "read_entry r s = Inr (r', s') \<Longrightarrow> entry_wf r \<Longrightarrow> entry_wf r' \<and> store s' = store s \<and> choice s' = choice s"
  by (auto simp: read_entry_def entry_wf_def say_def dest!: scan_into_wf)

text \<open>The ways in which reading words can go wrong.\<close>

definition input_errors :: "stop set" where
  "input_errors = {Write_Overflow, Uninit_Read, Bad_Conversion}"

lemma put_str_Inl: "put_str b t = Inl e \<Longrightarrow> e = Write_Overflow"
  by (simp add: put_str_def split: if_splits)

lemma scan_into_Inl: "scan_into i b = Inl e \<Longrightarrow> e \<in> input_errors"
  by (auto simp: scan_into_def cbind_eq_Inl input_errors_def split: option.splits prod.splits
      dest: put_str_Inl)

lemma scan_fresh_Inl: "scan_fresh n i = Inl e \<Longrightarrow> e \<in> input_errors"
  by (auto simp: scan_fresh_def cbind_eq_Inl input_errors_def split: option.splits prod.splits
      dest: put_str_Inl)

lemma scan_d_Inl: "scan_d i = Inl e \<Longrightarrow> e \<in> input_errors"
  by (auto simp: scan_d_def input_errors_def split: option.splits prod.splits if_splits)

lemma read_entry_Inl: "read_entry r s = Inl e \<Longrightarrow> e \<in> input_errors"
  by (auto simp: read_entry_def cbind_eq_Inl split: prod.splits dest: scan_into_Inl)

section \<open>Safety of the menu loop\<close>

text \<open>
  A result is safe for a predicate on stores when it is a session whose store satisfies it, or a
  stop of one of the given kinds; an operation is safe when it keeps the predicate in this sense.
\<close>

definition safe_res :: "('b \<Rightarrow> bool) \<Rightarrow> stop set \<Rightarrow> 'b session c \<Rightarrow> bool" where
  "safe_res ok E r = (case r of Inl e \<Rightarrow> e \<in> E | Inr t \<Rightarrow> ok (store t))"

definition safe_op :: "('b \<Rightarrow> bool) \<Rightarrow> stop set \<Rightarrow> ('b session \<Rightarrow> 'b session c) \<Rightarrow> bool" where
  "safe_op ok E f \<longleftrightarrow> (\<forall>s. ok (store s) \<longrightarrow> safe_res ok E (f s))"

lemma safe_res_simps [simp]:
  "safe_res ok E (Inl e) = (e \<in> E)" "safe_res ok E (Inr t) = ok (store t)"
  by (simp_all add: safe_res_def)

lemma safe_res_bind:
  "(\<And>e. m = Inl e \<Longrightarrow> e \<in> E) \<Longrightarrow> (\<And>x. m = Inr x \<Longrightarrow> safe_res ok E (f x)) \<Longrightarrow>
   safe_res ok E (cbind m f)"
  by (cases m) simp_all

lemma safe_opD: "safe_op ok E f \<Longrightarrow> ok (store s) \<Longrightarrow> safe_res ok E (f s)"
  by (simp add: safe_op_def)

lemma safe_opI: "(\<And>s. ok (store s) \<Longrightarrow> safe_res ok E (f s)) \<Longrightarrow> safe_op ok E f"
  by (simp add: safe_op_def)

lemma say_simps [simp]:
  "store (say m s) = store s" "input (say m s) = input s" "choice (say m s) = choice s"
  "out (say m s) = out s @ [m]"
  by (simp_all add: say_def)

lemma menu_round_safe:
  assumes "safe_op ok E add" "safe_op ok E del" "safe_op ok E search" "safe_op ok E print"
    and "input_errors \<subseteq> E"
  shows "safe_op ok E (menu_round add del search print)"
proof (rule safe_opI)
  fix s :: "'a session"
  assume "ok (store s)"
  then show "safe_res ok E (menu_round add del search print s)"
    unfolding menu_round_def
    using assms
    by (intro safe_res_bind)
      (auto simp: Let_def input_errors_def safe_opD split: option.split dest!: scan_d_Inl)
qed

lemma menu_after_safe:
  assumes "safe_op ok E add" "safe_op ok E del" "safe_op ok E search" "safe_op ok E print"
    and "input_errors \<subseteq> E" and "ok (store s)"
  shows "safe_res ok E (menu_after add del search print n s)"
  using assms(6)
proof (induction n arbitrary: s)
  case 0
  then show ?case by simp
next
  case (Suc n)
  note round = safe_opD [OF menu_round_safe [OF assms(1-5)] Suc.prems]
  show ?case
    using round Suc.IH by (auto intro!: safe_res_bind)
qed

section \<open>The contract of a store of entries\<close>

text \<open>
  A script of menu commands, as the text a user types: every word on a line of its own. What the
  program should do with it is \<open>perform\<close>: its effect on the entries and its messages, where
  \<open>rm i es\<close> is how the store lets the entry at index \<open>i\<close> go.
\<close>

datatype command = Add string string string | Delete string | Search string | Print

fun typed :: "command \<Rightarrow> string" where
  "typed (Add n sn t) = newline # ''1'' @ newline # n @ newline # sn @ newline # t"
| "typed (Delete n) = newline # ''2'' @ newline # n"
| "typed (Search n) = newline # ''3'' @ newline # n"
| "typed Print = newline # ''4''"

definition script :: "command list \<Rightarrow> string" where
  "script cs = concat (map typed cs) @ newline # ''5'' @ [newline]"

fun command_ok :: "command \<Rightarrow> bool" where
  "command_ok (Add n sn t) \<longleftrightarrow> word_ok NAME_LEN n \<and> word_ok NAME_LEN sn \<and> word_ok NAME_LEN t"
| "command_ok (Delete n) \<longleftrightarrow> word_ok NAME_LEN n"
| "command_ok (Search n) \<longleftrightarrow> word_ok NAME_LEN n"
| "command_ok Print \<longleftrightarrow> True"

fun perform :: "(nat \<Rightarrow> entry list \<Rightarrow> entry list) \<Rightarrow> command \<Rightarrow> entry list \<Rightarrow> entry list" where
  "perform rm (Add n sn t) es = es @ [(n, sn, t)]"
| "perform rm (Delete n) es = (case index_of n es of None \<Rightarrow> es | Some i \<Rightarrow> rm i es)"
| "perform rm (Search n) es = es"
| "perform rm Print es = es"

fun reply :: "command \<Rightarrow> entry list \<Rightarrow> msg list" where
  "reply (Add n sn t) es = [Ask_name, Ask_second_name, Ask_tel]"
| "reply (Delete n) es = [Ask_delete, if index_of n es = None then Not_found else Deleted]"
| "reply (Search n) es = Ask_search # map msg_of (filter (\<lambda>e. fst e = n) es)"
| "reply Print es = map msg_of es"

fun performs :: "(nat \<Rightarrow> entry list \<Rightarrow> entry list) \<Rightarrow> command list \<Rightarrow> entry list \<Rightarrow> entry list" where
  "performs rm [] es = es"
| "performs rm (c # cs) es = performs rm cs (perform rm c es)"

fun replies :: "(nat \<Rightarrow> entry list \<Rightarrow> entry list) \<Rightarrow> command list \<Rightarrow> entry list \<Rightarrow> msg list" where
  "replies rm [] es = [Menu, Bye]"
| "replies rm (c # cs) es = Menu # reply c es @ replies rm cs (perform rm c es)"

text \<open>The largest number of entries the store has on the way.\<close>

fun peak :: "(nat \<Rightarrow> entry list \<Rightarrow> entry list) \<Rightarrow> command list \<Rightarrow> entry list \<Rightarrow> nat" where
  "peak rm [] es = length es"
| "peak rm (c # cs) es = max (length es) (peak rm cs (perform rm c es))"

lemma peak_ge: "length es \<le> peak rm cs es"
  by (cases cs) auto

lemma scan_d_digit:
  "scan_d (newline # CHR ''1'' # newline # r) = Inr (Some 1, newline # r)"
  "scan_d (newline # CHR ''2'' # newline # r) = Inr (Some 2, newline # r)"
  "scan_d (newline # CHR ''3'' # newline # r) = Inr (Some 3, newline # r)"
  "scan_d (newline # CHR ''4'' # newline # r) = Inr (Some 4, newline # r)"
  "scan_d (newline # CHR ''5'' # newline # r) = Inr (Some 5, newline # r)"
  by (simp_all add: scan_d_def scan_num_def is_space_def is_digit_def digits_val_def in_int_def)

lemma script_newline: "\<exists>r. script cs = newline # r"
  by (cases cs rule: list.exhaust; cases "hd cs") (auto simp: script_def)

locale phone_store =
  fixes add del search print :: "'b session \<Rightarrow> 'b session c"
    and entries :: "'b \<Rightarrow> entry list" and wf :: "'b \<Rightarrow> bool" and cap :: nat
    and rm :: "nat \<Rightarrow> entry list \<Rightarrow> entry list" and stops :: "stop set"
  assumes add_law: "wf (store s) \<Longrightarrow> length (entries (store s)) < cap \<Longrightarrow>
      word_ok NAME_LEN n \<Longrightarrow> word_ok NAME_LEN sn \<Longrightarrow> word_ok NAME_LEN t \<Longrightarrow>
      input s = newline # n @ newline # sn @ newline # t @ newline # r \<Longrightarrow>
      (\<exists>e \<in> stops. add s = Inl e) \<or>
      (\<exists>b. add s = Inr (s\<lparr>store := b, input := newline # r,
            out := out s @ [Ask_name, Ask_second_name, Ask_tel]\<rparr>) \<and>
          wf b \<and> entries b = entries (store s) @ [(n, sn, t)])"
    and del_law: "wf (store s) \<Longrightarrow> word_ok NAME_LEN n \<Longrightarrow> input s = newline # n @ newline # r \<Longrightarrow>
      (\<exists>e \<in> stops. del s = Inl e) \<or>
      (\<exists>b. del s = Inr (s\<lparr>store := b, input := newline # r,
            out := out s @ reply (Delete n) (entries (store s))\<rparr>) \<and>
          wf b \<and> entries b = perform rm (Delete n) (entries (store s)))"
    and search_law: "wf (store s) \<Longrightarrow> word_ok NAME_LEN n \<Longrightarrow> input s = newline # n @ newline # r \<Longrightarrow>
      search s = Inr (s\<lparr>input := newline # r, out := out s @ reply (Search n) (entries (store s))\<rparr>)"
    and print_law: "wf (store s) \<Longrightarrow>
      print s = Inr (s\<lparr>out := out s @ reply Print (entries (store s))\<rparr>)"
begin

text \<open>One command is one round of the menu loop, which carries it out or stops the program.\<close>

lemma round_law:
  assumes "wf (store s)" and "command_ok c" 
    and "(\<exists>n sn t. c = Add n sn t) \<longrightarrow> length (entries (store s)) < cap"
    and inp: "input s = typed c @ newline # r"
  shows "(\<exists>e \<in> stops. menu_round add del search print s = Inl e) \<or>
    (\<exists>b k. menu_round add del search print s = Inr (s\<lparr>store := b, input := newline # r,
      out := out s @ Menu # reply c (entries (store s)), choice := Some k\<rparr>) \<and>
    k \<noteq> 5 \<and> wf b \<and> entries b = perform rm c (entries (store s)))"
    (is "?E \<or> (\<exists>b k. ?P b k)")
proof (cases c)
  case (Add n sn t)
  let ?s = "s\<lparr>input := newline # n @ newline # sn @ newline # t @ newline # r, choice := Some 1,
    out := out s @ [Menu]\<rparr>"
  have "(\<exists>e \<in> stops. add ?s = Inl e) \<or> (\<exists>b. add ?s = Inr (?s\<lparr>store := b, input := newline # r,
      out := out ?s @ [Ask_name, Ask_second_name, Ask_tel]\<rparr>) \<and> wf b \<and>
      entries b = entries (store s) @ [(n, sn, t)])"
    using assms Add add_law [of ?s n sn t r] by auto
  then have "?E \<or> (\<exists>b. ?P b 1)"
    using Add inp by (auto simp: menu_round_def scan_d_digit say_def)
  then show ?thesis by blast
next
  case (Delete n)
  let ?s = "s\<lparr>input := newline # n @ newline # r, choice := Some 2, out := out s @ [Menu]\<rparr>"
  have "(\<exists>e \<in> stops. del ?s = Inl e) \<or> (\<exists>b. del ?s = Inr (?s\<lparr>store := b, input := newline # r,
      out := out ?s @ reply (Delete n) (entries (store s))\<rparr>) \<and> wf b \<and>
      entries b = perform rm (Delete n) (entries (store s)))"
    using assms Delete del_law [of ?s n r] by auto
  then have "?E \<or> (\<exists>b. ?P b 2)"
    using Delete inp by (auto simp: menu_round_def scan_d_digit say_def)
  then show ?thesis by blast
next
  case (Search n)
  let ?s = "s\<lparr>input := newline # n @ newline # r, choice := Some 3, out := out s @ [Menu]\<rparr>"
  have "search ?s = Inr (?s\<lparr>input := newline # r, out := out ?s @ reply (Search n) (entries (store s))\<rparr>)"
    using assms Search search_law [of ?s n r] by simp
  with Search inp assms(1) have "?P (store s) 3" by (simp add: menu_round_def scan_d_digit say_def)
  then show ?thesis by blast
next
  case Print
  let ?s = "s\<lparr>input := newline # r, choice := Some 4, out := out s @ [Menu]\<rparr>"
  have "print ?s = Inr (?s\<lparr>out := out ?s @ reply Print (entries (store s))\<rparr>)"
    using assms print_law [of ?s] by simp
  with Print inp assms(1) have "?P (store s) 4" by (simp add: menu_round_def scan_d_digit say_def)
  then show ?thesis by blast
qed

text \<open>
  A whole session: a script is carried out to its end unless one of the stops ends it early. One
  round of fuel for each command and one for leaving are enough.
\<close>

lemma session_law:
  assumes "wf (store s)" and "\<forall>c \<in> set cs. command_ok c" and "peak rm cs (entries (store s)) \<le> cap"
    and "input s = script cs" and "length cs < fuel"
  shows "(\<exists>e \<in> stops. menu_loop add del search print fuel s = Some (Inl e)) \<or>
    (\<exists>t. menu_loop add del search print fuel s = Some (Inr t) \<and> wf (store t) \<and>
      entries (store t) = performs rm cs (entries (store s)) \<and>
      out t = out s @ replies rm cs (entries (store s)))"
  using assms
proof (induction cs arbitrary: s fuel)
  case Nil
  then obtain n where "fuel = Suc n" by (cases fuel) auto
  with Nil show ?case
    by (simp add: script_def menu_round_def scan_d_digit say_def)
next
  case (Cons c cs)
  then obtain n where n: "fuel = Suc n" "length cs < n" by (cases fuel) auto
  obtain r where r: "script cs = newline # r" using script_newline by blast
  have room: "(\<exists>n sn t. c = Add n sn t) \<longrightarrow> length (entries (store s)) < cap"
    using Cons.prems(3) peak_ge [of "perform rm c (entries (store s))" rm cs] by auto
  have "input s = typed c @ newline # r" using Cons.prems(4) r by (simp add: script_def)
  then consider (stop) e where "e \<in> stops" "menu_round add del search print s = Inl e"
    | (go) b k where "menu_round add del search print s = Inr (s\<lparr>store := b, input := newline # r,
      out := out s @ Menu # reply c (entries (store s)), choice := Some k\<rparr>)"
    "k \<noteq> 5" "wf b" "entries b = perform rm c (entries (store s))"
    using round_law [of s c r] Cons.prems room by auto
  then show ?case
  proof cases
    case stop
    with n show ?thesis by auto
  next
    case go
    let ?s = "s\<lparr>store := b, input := newline # r,
        out := out s @ Menu # reply c (entries (store s)), choice := Some k\<rparr>"
    have "(\<exists>e \<in> stops. menu_loop add del search print n ?s = Some (Inl e)) \<or>
      (\<exists>t. menu_loop add del search print n ?s = Some (Inr t) \<and> wf (store t) \<and>
      entries (store t) = performs rm cs (entries (store ?s)) \<and>
      out t = out ?s @ replies rm cs (entries (store ?s)))"
      using Cons.prems n go r by (intro Cons.IH) simp_all
    with go n show ?thesis by simp
  qed
qed

end

end
