(* ===== verification/Phonebook_Static.thy ===== *)
theory Phonebook_Static
  imports Phonebook
begin

text \<open>
  The phone book of \<open>structs/task.c\<close>: an array of \<open>MAX_ABONENTS\<close> records in \<open>main\<close>'s frame and a
  count. Deleting shifts the entries behind the gap and clears the last one. The contract of
  Phonebook holds with room for \<open>MAX_ABONENTS\<close> entries and removal that keeps the order.
\<close>

section \<open>State and operations\<close>

definition MAX_ABONENTS :: nat where "MAX_ABONENTS = 100"

record book =
  list :: "abonent list"
  cnt :: nat

definition zero_abonent :: abonent where
  "zero_abonent = \<lparr>name = replicate NAME_LEN NUL, second_name = replicate NAME_LEN NUL,
     tel = replicate NAME_LEN NUL\<rparr>"

definition book_init :: book where
  "book_init = \<lparr>list = replicate MAX_ABONENTS zero_abonent, cnt = 0\<rparr>"

definition add_abonent :: "book session \<Rightarrow> book session c" where
  "add_abonent s = (let b = store s in
     if MAX_ABONENTS \<le> cnt b then Inr (say Full s)
     else cbind (elem (list b) (cnt b)) (\<lambda>r0.
       cbind (read_entry r0 s) (\<lambda>(r, s').
       cbind (set_elem (list b) (cnt b) r) (\<lambda>l.
         Inr (s'\<lparr>store := \<lparr>list = l, cnt = cnt b + 1\<rparr>\<rparr>)))))"

text \<open>\<open>for (j = i; j < count - 1; j++) list[j] = list[j + 1]\<close>\<close>

function shift :: "abonent list \<Rightarrow> nat \<Rightarrow> nat \<Rightarrow> abonent list c" where
  "shift l n j =
     (if Suc j < n then cbind (elem l (Suc j)) (\<lambda>r. cbind (set_elem l j r) (\<lambda>l'. shift l' n (Suc j)))
      else Inr l)"
  by pat_completeness auto
termination by (relation "measure (\<lambda>(l, n, j). n - j)") auto

declare shift.simps [simp del]

definition delete_abonent :: "book session \<Rightarrow> book session c" where
  "delete_abonent s = (let b = store s in
     cbind (scan_fresh NAME_LEN (input s)) (\<lambda>(w, i).
     let s1 = say Ask_delete (s\<lparr>input := i\<rparr>) in
     cbind (find_name w (list b) (cnt b) 0) (\<lambda>k. case k of
       None \<Rightarrow> Inr (say Not_found s1)
     | Some k \<Rightarrow>
         cbind (shift (list b) (cnt b) k) (\<lambda>l.
         cbind (set_elem l (cnt b - 1) zero_abonent) (\<lambda>l'.
           Inr (say Deleted (s1\<lparr>store := \<lparr>list = l', cnt = cnt b - 1\<rparr>\<rparr>)))))))"

definition search_static :: "book session \<Rightarrow> book session c" where
  "search_static s = search_abonent (list (store s)) (cnt (store s)) s"

definition print_static :: "book session \<Rightarrow> book session c" where
  "print_static s = print_abonents (list (store s)) (cnt (store s)) s"

definition static_main :: "nat \<Rightarrow> string \<Rightarrow> book session c option" where
  "static_main fuel i =
     menu_loop add_abonent delete_abonent search_static print_static fuel (start book_init i)"

text \<open>The program after \<open>n\<close> rounds of the menu, whether or not it has ended by then.\<close>

definition static_after :: "nat \<Rightarrow> string \<Rightarrow> book session c" where
  "static_after n i =
     menu_after add_abonent delete_abonent search_static print_static n (start book_init i)"

section \<open>The array behind the entries\<close>

text \<open>The part of the array above the count is cleared.\<close>

definition book_wf :: "book \<Rightarrow> bool" where
  "book_wf b \<longleftrightarrow> length (list b) = MAX_ABONENTS \<and> cnt b \<le> MAX_ABONENTS \<and>
     (\<forall>r \<in> set (take (cnt b) (list b)). entry_wf r) \<and>
     (\<forall>r \<in> set (drop (cnt b) (list b)). r = zero_abonent)"

definition book_entries :: "book \<Rightarrow> entry list" where
  "book_entries b = map entry_of (take (cnt b) (list b))"

definition remove_at :: "nat \<Rightarrow> 'a list \<Rightarrow> 'a list" where
  "remove_at i xs = take i xs @ drop (Suc i) xs"

lemma entry_wf_zero [simp]: "entry_wf zero_abonent"
  by (simp add: entry_wf_def zero_abonent_def terminated_def NAME_LEN_def)

definition shifted :: "'a list \<Rightarrow> nat \<Rightarrow> nat \<Rightarrow> 'a list" where
  "shifted l n j = take j l @ drop (Suc j) (take n l) @ drop (n - 1) l"

lemma shift_correct: "j < n \<Longrightarrow> n \<le> length l \<Longrightarrow> shift l n j = Inr (shifted l n j)"
proof (induction "n - j" arbitrary: l j)
  case 0
  then show ?case by simp
next
  case (Suc m)
  show ?case
  proof (cases "Suc j < n")
    case True
    let ?l = "l[j := l ! Suc j]"
    have "shift l n j = shift ?l n (Suc j)"
      using True Suc.prems by (subst shift.simps) (simp add: elem_def set_elem_def)
    also have "\<dots> = Inr (shifted ?l n (Suc j))"
      using Suc True by (intro Suc.hyps(1)) simp_all
    also have "shifted ?l n (Suc j) = take (Suc j) ?l @ drop (Suc (Suc j)) (take n ?l) @ drop (n - 1) ?l"
      by (simp add: shifted_def)
    also have "take (Suc j) ?l = take j l @ [l ! Suc j]"
      using True Suc.prems by (simp add: take_Suc_conv_app_nth)
    also have "drop (Suc (Suc j)) (take n ?l) = drop (Suc (Suc j)) (take n l)"
      by (simp add: take_update_swap drop_update_cancel)
    also have "drop (n - 1) ?l = drop (n - 1) l"
      using True by (intro drop_update_cancel) simp
    finally show ?thesis
      using drop_take_nth [of "Suc j" n l] True Suc.prems by (simp add: shifted_def)
  next
    case False
    then have "n = Suc j" using Suc.prems by simp
    then show ?thesis using Suc.prems by (subst shift.simps) (simp add: shifted_def)
  qed
qed

lemma shift_clear:
  assumes "j < n" and "n \<le> length l"
  shows "take (n - 1) ((shifted l n j)[n - 1 := z]) = remove_at j (take n l)"
    and "drop (n - 1) ((shifted l n j)[n - 1 := z]) = z # drop n l"
    and "length (shifted l n j) = length l"
proof -
  have l: "length (take j l @ drop (Suc j) (take n l)) = n - 1" using assms by simp
  have s: "shifted l n j = (take j l @ drop (Suc j) (take n l)) @ l ! (n - 1) # drop n l"
    using assms shifted_def [of l n j] Cons_nth_drop_Suc [of "n - 1" l] by simp
  show "take (n - 1) ((shifted l n j)[n - 1 := z]) = remove_at j (take n l)"
    using assms unfolding s list_update_append l by (simp add: remove_at_def l)
  show "drop (n - 1) ((shifted l n j)[n - 1 := z]) = z # drop n l"
    using assms unfolding s list_update_append l by (simp add: l)
  show "length (shifted l n j) = length l"
    using assms by (simp add: shifted_def)
qed


lemma book_wf_init: "book_wf book_init"
  by (simp add: book_wf_def book_init_def)

lemma book_wf_room: "book_wf b \<Longrightarrow> cnt b < MAX_ABONENTS \<Longrightarrow> list b ! cnt b = zero_abonent"
  by (metis Cons_nth_drop_Suc book_wf_def list.set_intros(1))

lemma book_wf_push:
  assumes "book_wf b" and "cnt b < MAX_ABONENTS" and "entry_wf r"
  shows "book_wf \<lparr>list = (list b)[cnt b := r], cnt = cnt b + 1\<rparr>"
    and "book_entries \<lparr>list = (list b)[cnt b := r], cnt = cnt b + 1\<rparr> = book_entries b @ [entry_of r]"
proof -
  have len: "cnt b < length (list b)" using assms by (simp add: book_wf_def)
  have t: "take (Suc (cnt b)) ((list b)[cnt b := r]) = take (cnt b) (list b) @ [r]"
    using len by (simp add: take_Suc_conv_app_nth)
  have d: "drop (Suc (cnt b)) ((list b)[cnt b := r]) = drop (Suc (cnt b)) (list b)" by simp
  have sub: "set (drop (Suc (cnt b)) (list b)) \<subseteq> set (drop (cnt b) (list b))"
    by (rule set_drop_subset_set_drop) simp
  show "book_wf \<lparr>list = (list b)[cnt b := r], cnt = cnt b + 1\<rparr>"
    using assms t d sub by (auto simp: book_wf_def)
  show "book_entries \<lparr>list = (list b)[cnt b := r], cnt = cnt b + 1\<rparr> = book_entries b @ [entry_of r]"
    using t by (simp add: book_entries_def)
qed

definition book_delete :: "nat \<Rightarrow> book \<Rightarrow> book" where
  "book_delete k b =
     \<lparr>list = (shifted (list b) (cnt b) k)[cnt b - 1 := zero_abonent], cnt = cnt b - 1\<rparr>"

lemma remove_at_set: "set (remove_at i xs) \<subseteq> set xs"
  by (auto simp: remove_at_def dest: in_set_takeD in_set_dropD)

lemma remove_at_map: "remove_at i (map f xs) = map f (remove_at i xs)"
  by (simp add: remove_at_def take_map drop_map)

lemma book_wf_delete:
  assumes wf: "book_wf b" and k: "k < cnt b"
  shows "book_wf (book_delete k b)" and "book_entries (book_delete k b) = remove_at k (book_entries b)"
proof -
  have len: "cnt b \<le> length (list b)" using wf by (simp add: book_wf_def)
  note S = shift_clear [OF k len]
  show "book_wf (book_delete k b)"
    using wf S remove_at_set [of k "take (cnt b) (list b)"] by (auto simp: book_wf_def book_delete_def)
  show "book_entries (book_delete k b) = remove_at k (book_entries b)"
    using S by (simp add: book_entries_def book_delete_def remove_at_map)
qed

lemma find_name_book:
  "book_wf b \<Longrightarrow> find_name (Some n) (list b) (cnt b) 0 = Inr (index_of n (book_entries b))"
  using find_name_correct [of "cnt b" "list b" 0 n]
  by (simp add: book_wf_def book_entries_def option.map_ident)

lemma print_from_book:
  "book_wf b \<Longrightarrow> (\<And>r. entry_wf r \<Longrightarrow> p r = Inr (P (entry_of r))) \<Longrightarrow>
   print_from p (list b) (cnt b) 0 = Inr (map msg_of (filter P (book_entries b)))"
  using print_from_correct [of "cnt b" "list b" 0 p P] by (simp add: book_wf_def book_entries_def)

lemma index_of_less: "index_of n es = Some k \<Longrightarrow> k < length es \<and> fst (es ! k) = n"
  by (induction es arbitrary: k) (auto split: if_splits)

lemma book_wf_elems:
  assumes "book_wf b"
  shows "cnt b < MAX_ABONENTS \<Longrightarrow> elem (list b) (cnt b) = Inr zero_abonent"
    and "cnt b < MAX_ABONENTS \<Longrightarrow> set_elem (list b) (cnt b) r = Inr ((list b)[cnt b := r])"
    and "k < cnt b \<Longrightarrow> cbind (shift (list b) (cnt b) k) (\<lambda>l. set_elem l (cnt b - 1) zero_abonent) =
      Inr ((shifted (list b) (cnt b) k)[cnt b - 1 := zero_abonent])"
  using assms book_wf_room [OF assms] shift_clear(3) [of k "cnt b" "list b"]
  by (auto simp: elem_def set_elem_def shift_correct book_wf_def)

lemma index_of_book: "index_of n (book_entries b) = Some k \<Longrightarrow> k < cnt b"
  using index_of_less [of n "book_entries b" k] by (simp add: book_entries_def)

lemma delete_abonent_book:
  assumes "book_wf (store s)" and "scan_fresh NAME_LEN (input s) = Inr (Some n, i)"
  shows "delete_abonent s = Inr (say (if index_of n (book_entries (store s)) = None then Not_found else Deleted)
    (say Ask_delete (s\<lparr>input := i, store := (case index_of n (book_entries (store s)) of
       None \<Rightarrow> store s | Some k \<Rightarrow> book_delete k (store s))\<rparr>)))"
proof (cases "index_of n (book_entries (store s))")
  case None
  then show ?thesis
    using assms find_name_book [OF assms(1), of n] by (simp add: delete_abonent_def Let_def say_def)
next
  case (Some k)
  then show ?thesis
    using assms find_name_book [OF assms(1), of n] book_wf_elems(3) [OF assms(1) index_of_book [OF Some]]
    by (auto simp: delete_abonent_def Let_def book_delete_def say_def)
qed

interpretation static_book: phone_store add_abonent delete_abonent search_static print_static
  book_entries book_wf MAX_ABONENTS remove_at "{}"
proof unfold_locales
  fix s :: "book session" and n sn t r
  assume wf: "book_wf (store s)" and room: "length (book_entries (store s)) < MAX_ABONENTS"
    and w: "word_ok NAME_LEN n" "word_ok NAME_LEN sn" "word_ok NAME_LEN t"
    and i: "input s = newline # n @ newline # sn @ newline # t @ newline # r"
  let ?b = "store s"
  have c: "cnt ?b < MAX_ABONENTS" using wf room by (simp add: book_entries_def book_wf_def)
  obtain r' where r': "read_entry zero_abonent s = Inr (r', s\<lparr>input := newline # r,
      out := out s @ [Ask_name, Ask_second_name, Ask_tel]\<rparr>)" "entry_wf r'" "entry_of r' = (n, sn, t)"
    using read_entry_words [OF w _ _ _ i, of zero_abonent] entry_wf_zero by (auto simp: entry_wf_def)
  have "\<exists>b. add_abonent s = Inr (s\<lparr>store := b, input := newline # r,
          out := out s @ [Ask_name, Ask_second_name, Ask_tel]\<rparr>) \<and>
        book_wf b \<and> book_entries b = book_entries ?b @ [(n, sn, t)]"
    using c r' book_wf_push [OF wf c r'(2)] book_wf_elems(1,2) [OF wf c]
    by (intro exI [of _ "\<lparr>list = (list ?b)[cnt ?b := r'], cnt = cnt ?b + 1\<rparr>"])
      (simp add: add_abonent_def Let_def)
  then show "(\<exists>e \<in> {}. add_abonent s = Inl e) \<or>
      (\<exists>b. add_abonent s = Inr (s\<lparr>store := b, input := newline # r,
          out := out s @ [Ask_name, Ask_second_name, Ask_tel]\<rparr>) \<and>
        book_wf b \<and> book_entries b = book_entries ?b @ [(n, sn, t)])" by blast
next
  fix s :: "book session" and n r
  assume wf: "book_wf (store s)" and w: "word_ok NAME_LEN n" and i: "input s = newline # n @ newline # r"
  have "\<exists>b. delete_abonent s = Inr (s\<lparr>store := b, input := newline # r,
          out := out s @ reply (Delete n) (book_entries (store s))\<rparr>) \<and>
        book_wf b \<and> book_entries b = perform remove_at (Delete n) (book_entries (store s))"
    using wf book_wf_delete [OF wf] index_of_book [of n "store s"]
      delete_abonent_book [OF wf, of n "newline # r"]
    by (intro exI [of _ "case index_of n (book_entries (store s)) of
          None \<Rightarrow> store s | Some k \<Rightarrow> book_delete k (store s)"])
      (simp add: i scan_fresh_word [OF w] say_def split: option.splits)
  then show "(\<exists>e \<in> {}. delete_abonent s = Inl e) \<or>
      (\<exists>b. delete_abonent s = Inr (s\<lparr>store := b, input := newline # r,
          out := out s @ reply (Delete n) (book_entries (store s))\<rparr>) \<and>
        book_wf b \<and> book_entries b = perform remove_at (Delete n) (book_entries (store s)))" by blast
next
  fix s :: "book session" and n r
  assume wf: "book_wf (store s)" and w: "word_ok NAME_LEN n" and i: "input s = newline # n @ newline # r"
  show "search_static s = Inr (s\<lparr>input := newline # r,
      out := out s @ reply (Search n) (book_entries (store s))\<rparr>)"
    using print_from_book [OF wf, of "name_is (Some n)" "\<lambda>e. fst e = n", OF name_is_wf]
    by (simp add: search_static_def search_abonent_def i scan_fresh_word [OF w])
next
  fix s :: "book session"
  assume wf: "book_wf (store s)"
  show "print_static s = Inr (s\<lparr>out := out s @ reply Print (book_entries (store s))\<rparr>)"
    using print_from_book [OF wf, of "\<lambda>r. Inr True" "\<lambda>e. True"]
    by (simp add: print_static_def print_abonents_def)
qed


lemma safe_add_static: "safe_op book_wf input_errors add_abonent"
proof (rule safe_opI)
  fix s :: "book session"
  assume wf: "book_wf (store s)"
  show "safe_res book_wf input_errors (add_abonent s)"
  proof (cases "cnt (store s) < MAX_ABONENTS")
    case True
    then show ?thesis
      using wf book_wf_elems(1,2) [OF wf True] book_wf_push(1) [OF wf True]
      by (auto simp: add_abonent_def Let_def intro!: safe_res_bind dest: read_entry_Inl read_entry_wf)
  next
    case False
    then show ?thesis using wf by (simp add: add_abonent_def)
  qed
qed

lemma safe_delete_static: "safe_op book_wf input_errors delete_abonent"
proof (rule safe_opI)
  fix s :: "book session"
  assume wf: "book_wf (store s)"
  show "safe_res book_wf input_errors (delete_abonent s)"
  proof (cases "scan_fresh NAME_LEN (input s)")
    case (Inl e)
    then show ?thesis by (auto simp: delete_abonent_def dest: scan_fresh_Inl)
  next
    case (Inr p)
    obtain w i where p: "p = (w, i)" by (cases p)
    show ?thesis
    proof (cases w)
      case None
      then show ?thesis
        using Inr p no_word(1) [of "cnt (store s)" "list (store s)"] wf
        by (simp add: delete_abonent_def Let_def book_wf_def input_errors_def)
    next
      case (Some n)
      then show ?thesis
        using wf Inr p delete_abonent_book [OF wf, of n i] book_wf_delete(1) [OF wf]
          index_of_book [of n "store s"]
        by (simp split: option.splits)
    qed
  qed
qed

lemma search_from_book:
  assumes "book_wf b"
  shows "print_from (name_is w) (list b) (cnt b) 0 = (case w of
      None \<Rightarrow> if cnt b = 0 then Inr [] else Inl Uninit_Read
    | Some n \<Rightarrow> Inr (map msg_of (filter (\<lambda>e. fst e = n) (book_entries b))))"
  using assms no_word(2) [of "cnt b" "list b"]
    print_from_book [OF assms, of "name_is w" "\<lambda>e. fst e = the w"] name_is_wf
  by (auto simp: book_wf_def split: option.split)

lemma safe_search_static: "safe_op book_wf input_errors search_static"
proof (rule safe_opI)
  fix s :: "book session"
  assume "book_wf (store s)"
  then show "safe_res book_wf input_errors (search_static s)"
    unfolding search_static_def search_abonent_def
    by (intro safe_res_bind)
      (auto simp: search_from_book input_errors_def split: option.splits if_splits
        dest!: scan_fresh_Inl)
qed

lemma safe_print_static: "safe_op book_wf input_errors print_static"
  by (auto simp: print_static_def print_abonents_def print_from_book [where P = "\<lambda>e. True"]
      intro!: safe_opI safe_res_bind)

lemma book_entries_init [simp]: "book_entries book_init = []"
  by (simp add: book_entries_def book_init_def)

lemma static_main_runs:
  assumes "\<forall>c \<in> set cs. command_ok c" and "peak remove_at cs [] \<le> MAX_ABONENTS" and "length cs < fuel"
  shows "\<exists>t. static_main fuel (script cs) = Some (Inr t) \<and> book_wf (store t) \<and>
    book_entries (store t) = performs remove_at cs [] \<and> out t = replies remove_at cs []"
  unfolding static_main_def
  using static_book.session_law [of "start book_init (script cs)" cs fuel] assms by (simp add: book_wf_init)

section \<open>At the end of the input\<close>

text \<open>The input is exhausted and the last number read is 1 or 4: every further round is the same.\<close>

definition stuck :: "book session \<Rightarrow> bool" where
  "stuck s \<longleftrightarrow> book_wf (store s) \<and> dropWhile is_space (input s) = [] \<and> choice s \<in> {Some 1, Some 4}"

lemma scan_blank:
  "dropWhile is_space i = [] \<Longrightarrow> scan_d i = Inr (None, [])"
  "dropWhile is_space i = [] \<Longrightarrow> scan_into i b = Inr (b, [])"
  by (simp_all add: scan_d_def scan_num_def scan_into_def scan_s_def del: dropWhile_eq_Nil_conv)

lemma scan_d_newline: "scan_d (newline # i) = scan_d i"
  by (simp add: scan_d_def scan_num_def)

lemma stuck_act:
  assumes "stuck s"
  shows "\<exists>t. add_abonent s = Inr t \<and> stuck t" and "\<exists>t. print_static s = Inr t \<and> stuck t"
proof -
  have wf: "book_wf (store s)" and i: "dropWhile is_space (input s) = []"
    using assms by (simp_all add: stuck_def)
  show "\<exists>t. print_static s = Inr t \<and> stuck t"
    using static_book.print_law [OF wf] assms by (simp add: stuck_def)
  show "\<exists>t. add_abonent s = Inr t \<and> stuck t"
  proof (cases "cnt (store s) < MAX_ABONENTS")
    case True
    then show ?thesis
      using book_wf_push(1) [OF wf True entry_wf_zero] book_wf_elems(1,2) [OF wf True] assms
      by (simp add: add_abonent_def read_entry_def scan_blank [OF i] scan_blank zero_abonent_def Let_def stuck_def)
  next
    case False
    then show ?thesis using assms by (simp add: add_abonent_def stuck_def)
  qed
qed

lemma stuck_round:
  assumes "stuck s"
  shows "\<exists>t. menu_round add_abonent delete_abonent search_static print_static s = Inr t \<and> stuck t"
proof -
  obtain k where k: "choice s = Some k" "k = 1 \<or> k = 4" using assms by (auto simp: stuck_def)
  then have "stuck (say Menu (s\<lparr>input := [], choice := Some k\<rparr>))" using assms by (simp add: stuck_def)
  note act = stuck_act [OF this]
  have "scan_d (input s) = Inr (None, [])" using assms by (intro scan_blank) (simp add: stuck_def)
  then show ?thesis using act k by (auto simp: menu_round_def Let_def)
qed

lemma stuck_loops: "stuck s \<Longrightarrow> menu_loop add_abonent delete_abonent search_static print_static n s = None"
proof (induction n arbitrary: s)
  case 0
  then show ?case by simp
next
  case (Suc n)
  then obtain t where "menu_round add_abonent delete_abonent search_static print_static s = Inr t" "stuck t"
    using stuck_round by blast
  then show ?case using Suc.IH [of t] by (auto simp: stuck_def)
qed

section \<open>Properties\<close>

text \<open>
  C7: a session does what the menu says: for every script of commands with words that fit the
  fields and never more than \<open>MAX_ABONENTS\<close> entries, \<open>main\<close> ends with exactly the entries the
  commands leave, in the order they were added, and prints the answers to the commands.
\<close>

theorem static_session:
  assumes "\<forall>c \<in> set cs. command_ok c" and "peak remove_at cs [] \<le> MAX_ABONENTS" and "length cs < fuel"
  shows "\<exists>t. static_main fuel (script cs) = Some (Inr t) \<and>
    book_entries (store t) = performs remove_at cs [] \<and> out t = replies remove_at cs []"
  using static_main_runs [OF assms] by blast

definition ex_commands :: "command list" where
  "ex_commands = [Add ''ann'' ''lee'' ''12'', Add ''bob'' ''ray'' ''34'', Add ''ann'' ''poe'' ''56'',
     Delete ''ann'', Search ''ann'', Delete ''eve'', Print]"

lemma ex_commands_ok: "\<forall>c \<in> set ex_commands. command_ok c"
  by (simp add: ex_commands_def word_ok_def NAME_LEN_def is_space_def)

theorem static_session_witness:
  "\<exists>t. static_main 8 (script ex_commands) = Some (Inr t) \<and>
    book_entries (store t) = [(''bob'', ''ray'', ''34''), (''ann'', ''poe'', ''56'')]"
proof -
  have "peak remove_at ex_commands [] \<le> MAX_ABONENTS"
    and e: "performs remove_at ex_commands [] = [(''bob'', ''ray'', ''34''), (''ann'', ''poe'', ''56'')]"
    by (simp_all add: ex_commands_def remove_at_def MAX_ABONENTS_def)
  then have "\<exists>t. static_main 8 (script ex_commands) = Some (Inr t) \<and>
    book_entries (store t) = performs remove_at ex_commands [] \<and>
    out t = replies remove_at ex_commands []"
    by (intro static_session [OF ex_commands_ok]) (simp_all add: ex_commands_def)
  then show ?thesis unfolding e by blast
qed

text \<open>
  C8: whatever the input, after any number of rounds of the menu the program has never read or
  written a record outside the array and never read an unterminated field: the array consists of
  \<open>MAX_ABONENTS\<close> records, the first \<open>cnt\<close> of them strings and the others cleared. All that can go
  wrong is in \<open>scanf\<close>: a word longer than its field, a number that is no \<open>int\<close>, an end of the
  input before a word or number that is needed. If the program ends within these rounds, it ends so.
\<close>

theorem static_safe:
  "(case static_after n i of
      Inl e \<Rightarrow> e \<in> {Write_Overflow, Uninit_Read, Bad_Conversion} | Inr t \<Rightarrow> book_wf (store t)) \<and>
   (static_main n i = None \<or> static_main n i = Some (static_after n i))"
proof -
  have "safe_res book_wf input_errors (static_after n i)"
    unfolding static_after_def
    using menu_after_safe [OF safe_add_static safe_delete_static safe_search_static safe_print_static]
      book_wf_init by simp
  then show ?thesis
    using menu_loop_after [of add_abonent delete_abonent search_static print_static n "start book_init i"]
    by (simp add: safe_res_def input_errors_def static_main_def static_after_def)
qed

text \<open>
  The end of the input alone harms neither deleting nor searching while no entry is there to compare
  with; after an entry was added, the comparison reads an array that nothing was written to.
\<close>

lemma no_word_at_end:
  "static_after 2 (''2'' @ [newline]) \<noteq> Inl Uninit_Read"
  "static_after 2 (newline # typed (Add ''ann'' ''lee'' ''12'') @ newline # ''2'' @ [newline]) = Inl Uninit_Read"
  by code_simp+

text \<open>
  \<open>scanf("%s", \<dots>)\<close> has no width: a name of \<open>NAME_LEN\<close> characters or more is written past
  the end of its field.
\<close>

theorem static_name_overflow:
  assumes "\<forall>c \<in> set w. \<not> is_space c" and "NAME_LEN \<le> length w"
  shows "static_main (Suc n) (newline # ''1'' @ newline # w @ newline # r) = Some (Inl Write_Overflow)"
proof -
  have "w \<noteq> []" using assms(2) by (auto simp: NAME_LEN_def)
  then have "scan_s (newline # w @ newline # r) = (Some w, newline # r)"
    using assms(1) by (cases w) (auto simp: scan_s_def takeWhile_append dropWhile_append)
  then show ?thesis
    using assms(2)
    by (simp add: static_main_def menu_round_def start_def scan_d_digit say_def add_abonent_def
        book_init_def MAX_ABONENTS_def read_entry_def scan_into_def put_str_def zero_abonent_def elem_def)
qed

theorem static_name_overflow_witness:
  "static_main 1 (newline # ''1'' @ newline # ''Alexandria'' @ newline # []) = Some (Inl Write_Overflow)"
  using static_name_overflow [of "''Alexandria''" 0 "[]"] by (simp add: is_space_def NAME_LEN_def)

text \<open>
  \<open>main\<close> does not look at what \<open>scanf\<close> returns: when the input ends after a choice of 1 or 4,
  without a 5, \<open>choice\<close> keeps its value and the loop never ends.
\<close>

theorem static_eof_loops:
  assumes "d \<in> {CHR ''1'', CHR ''4''}" and "dropWhile is_space r = []"
  shows "static_main fuel (d # newline # r) = None"
proof (cases fuel)
  case 0
  then show ?thesis by (simp add: static_main_def)
next
  case (Suc n)
  define k :: int where "k = (if d = CHR ''1'' then 1 else 4)"
  let ?s = "say Menu ((start book_init (d # newline # r))\<lparr>input := newline # r, choice := Some k\<rparr>)"
  have "stuck ?s"
    using assms(2) book_wf_init by (simp add: stuck_def k_def del: dropWhile_eq_Nil_conv)
  note act = stuck_act [OF this]
  have "scan_d (d # newline # r) = Inr (Some k, newline # r)"
    using assms(1) scan_d_digit(1,4) [of r] by (auto simp: scan_d_newline k_def)
  then obtain t where "menu_round add_abonent delete_abonent search_static print_static
      (start book_init (d # newline # r)) = Inr t" "stuck t"
    using act assms(1) by (auto simp: menu_round_def k_def Let_def)
  then show ?thesis
    using Suc stuck_loops [of t n] by (auto simp: static_main_def stuck_def)
qed

theorem static_eof_loops_witness:
  "static_main 1000 (CHR ''4'' # newline # []) = None \<and> static_main 1000 (CHR ''1'' # newline # [newline]) = None"
  using static_eof_loops [of "CHR ''4''" "[]" 1000] static_eof_loops [of "CHR ''1''" "[newline]" 1000]
  by (simp add: is_space_def)

end
