(* ===== verification/Phonebook_Dynamic.thy ===== *)
theory Phonebook_Dynamic
  imports Phonebook_Static
begin

text \<open>
  The phone book of \<open>dynamic/task.c\<close>: a block of records that \<open>realloc\<close> grows and shrinks by one.
  Deleting moves the last entry into the gap. What \<open>realloc\<close> does is up to an environment: which
  calls succeed, what the fresh memory holds, and whether a request for no bytes gives \<open>NULL\<close>.
  The contract of Phonebook holds in every environment whose calls all succeed; in every other
  one the program leaves with \<open>exit(1)\<close> and never touches memory outside its block.
\<close>

section \<open>The heap block\<close>

record heap_env =
  grants :: "nat \<Rightarrow> bool"
  fresh :: "nat \<Rightarrow> nat \<Rightarrow> abonent"
  zero_null :: bool

text \<open>The \<open>k\<close>-th call of \<open>realloc\<close>, for \<open>n\<close> records; \<open>None\<close> is \<open>NULL\<close>.\<close>

definition records_of :: "abonent list option \<Rightarrow> abonent list" where
  "records_of p = (case p of None \<Rightarrow> [] | Some l \<Rightarrow> l)"

definition realloc_records :: "heap_env \<Rightarrow> nat \<Rightarrow> abonent list option \<Rightarrow> nat \<Rightarrow> abonent list option" where
  "realloc_records E k p n =
     (if n = 0 \<and> zero_null E \<or> \<not> grants E k then None
      else Some (take n (records_of p) @ map (fresh E k) [length (records_of p)..<n]))"

record dbook =
  block :: "abonent list option"
  dcnt :: nat
  calls :: nat

definition dbook_init :: dbook where
  "dbook_init = \<lparr>block = None, dcnt = 0, calls = 0\<rparr>"

section \<open>The operations\<close>

definition dyn_add_abonent :: "heap_env \<Rightarrow> dbook session \<Rightarrow> dbook session c" where
  "dyn_add_abonent E s = (let b = store s in
     cbind (chk (int (dcnt b) + 1)) (\<lambda>m.
     case realloc_records E (calls b) (block b) (nat m) of
       None \<Rightarrow> Inl (Exit 1)
     | Some l \<Rightarrow>
         cbind (elem l (dcnt b)) (\<lambda>r0.
         cbind (read_entry r0 s) (\<lambda>(r, s').
         cbind (set_elem l (dcnt b) r) (\<lambda>l'.
           Inr (s'\<lparr>store := \<lparr>block = Some l', dcnt = dcnt b + 1, calls = calls b + 1\<rparr>\<rparr>))))))"

definition dyn_delete_abonent :: "heap_env \<Rightarrow> dbook session \<Rightarrow> dbook session c" where
  "dyn_delete_abonent E s = (let b = store s in
     cbind (scan_fresh NAME_LEN (input s)) (\<lambda>(w, i).
     let s1 = say Ask_delete (s\<lparr>input := i\<rparr>) in
     cbind (find_name w (records_of (block b)) (dcnt b) 0) (\<lambda>k. case k of
       None \<Rightarrow> Inr (say Not_found s1)
     | Some k \<Rightarrow>
         cbind (elem (records_of (block b)) (dcnt b - 1)) (\<lambda>r.
         cbind (set_elem (records_of (block b)) k r) (\<lambda>l.
         let p = realloc_records E (calls b) (Some l) (dcnt b - 1)
         in if p = None \<and> 0 < dcnt b - 1 then Inl (Exit 1)
            else Inr (say Deleted (s1\<lparr>store := \<lparr>block = p, dcnt = dcnt b - 1, calls = calls b + 1\<rparr>\<rparr>)))))))"

definition dyn_search :: "dbook session \<Rightarrow> dbook session c" where
  "dyn_search s = search_abonent (records_of (block (store s))) (dcnt (store s)) s"

definition dyn_print :: "dbook session \<Rightarrow> dbook session c" where
  "dyn_print s = print_abonents (records_of (block (store s))) (dcnt (store s)) s"

text \<open>\<open>main\<close>; the block is freed after the loop.\<close>

definition dynamic_main :: "heap_env \<Rightarrow> nat \<Rightarrow> string \<Rightarrow> dbook session c option" where
  "dynamic_main E fuel i =
     menu_loop (dyn_add_abonent E) (dyn_delete_abonent E) dyn_search dyn_print fuel (start dbook_init i)"

section \<open>The block behind the entries\<close>

definition dyn_wf :: "dbook \<Rightarrow> bool" where
  "dyn_wf b \<longleftrightarrow> length (records_of (block b)) = dcnt b \<and> (\<forall>r \<in> set (records_of (block b)). entry_wf r)"

definition dyn_entries :: "dbook \<Rightarrow> entry list" where
  "dyn_entries b = map entry_of (records_of (block b))"

definition swap_remove :: "nat \<Rightarrow> 'a list \<Rightarrow> 'a list" where
  "swap_remove i xs = butlast (xs[i := last xs])"

text \<open>Fresh records are arrays of the right size, whatever they hold.\<close>

definition env_ok :: "heap_env \<Rightarrow> bool" where
  "env_ok E \<longleftrightarrow> (\<forall>k i. length (name (fresh E k i)) = NAME_LEN \<and>
     length (second_name (fresh E k i)) = NAME_LEN \<and> length (tel (fresh E k i)) = NAME_LEN)"

text \<open>How a session can end early: not at all when every call of \<open>realloc\<close> succeeds.\<close>

definition oom_stops :: "heap_env \<Rightarrow> stop set" where
  "oom_stops E = (if \<forall>k. grants E k then {} else {Exit 1})"

lemma records_of_simps [simp]: "records_of None = []" "records_of (Some l) = l"
  by (simp_all add: records_of_def)

lemma dyn_wf_init: "dyn_wf dbook_init"
  and dyn_entries_init: "dyn_entries dbook_init = []"
  by (simp_all add: dyn_wf_def dyn_entries_def dbook_init_def)

lemma dyn_entries_length: "dyn_wf b \<Longrightarrow> length (dyn_entries b) = dcnt b"
  by (simp add: dyn_wf_def dyn_entries_def)

lemma realloc_grow:
  assumes "dyn_wf b"
  shows "realloc_records E k (block b) (Suc (dcnt b)) =
    (if grants E k then Some (records_of (block b) @ [fresh E k (dcnt b)]) else None)"
  using assms by (simp add: realloc_records_def dyn_wf_def)

lemma realloc_shrink:
  assumes "length l = n" and "0 < n"
  shows "realloc_records E k (Some l) (n - 1) =
    (if n = 1 \<and> zero_null E \<or> \<not> grants E k then None else Some (butlast l))"
  using assms by (auto simp: realloc_records_def butlast_conv_take)

lemma dyn_find:
  assumes "dyn_wf b"
  shows "find_name (Some n) (records_of (block b)) (dcnt b) 0 = Inr (index_of n (dyn_entries b))"
  using assms find_name_correct [of "dcnt b" "records_of (block b)" 0 n]
  by (simp add: dyn_wf_def dyn_entries_def option.map_ident)

lemma dyn_print_from:
  assumes "dyn_wf b" and "\<And>r. entry_wf r \<Longrightarrow> p r = Inr (P (entry_of r))"
  shows "print_from p (records_of (block b)) (dcnt b) 0 = Inr (map msg_of (filter P (dyn_entries b)))"
  using assms(1) print_from_correct [of "dcnt b" "records_of (block b)" 0 p P, OF _ _ _ assms(2)]
  by (simp add: dyn_wf_def dyn_entries_def)

lemma map_swap_remove: "i < length xs \<Longrightarrow> map f (swap_remove i xs) = swap_remove i (map f xs)"
  by (cases xs rule: rev_cases) (auto simp: swap_remove_def map_butlast map_update)

lemma set_swap_remove: "i < length xs \<Longrightarrow> set (swap_remove i xs) \<subseteq> set xs"
  by (cases xs rule: rev_cases)
    (auto simp: swap_remove_def dest!: in_set_butlastD dest: set_update_subset_insert [THEN subsetD])

definition dyn_push :: "abonent \<Rightarrow> dbook \<Rightarrow> dbook" where
  "dyn_push r b = \<lparr>block = Some (records_of (block b) @ [r]), dcnt = dcnt b + 1, calls = calls b + 1\<rparr>"

lemma dyn_push:
  "dyn_wf b \<Longrightarrow> entry_wf r \<Longrightarrow> dyn_wf (dyn_push r b)"
  "dyn_entries (dyn_push r b) = dyn_entries b @ [entry_of r]"
  by (auto simp: dyn_wf_def dyn_push_def dyn_entries_def)

text \<open>Adding, by cases of the call of \<open>realloc\<close>.\<close>

lemma dyn_add_cases:
  assumes "dyn_wf (store s)" and "dcnt (store s) < 2147483647"
  shows "dyn_add_abonent E s = (if grants E (calls (store s))
    then cbind (read_entry (fresh E (calls (store s)) (dcnt (store s))) s)
      (\<lambda>(r, s'). Inr (s'\<lparr>store := dyn_push r (store s)\<rparr>))
    else Inl (Exit 1))"
proof -
  let ?b = "store s"
  have l: "length (records_of (block ?b)) = dcnt ?b" using assms(1) by (simp add: dyn_wf_def)
  have n: "nat (int (dcnt ?b) + 1) = Suc (dcnt ?b)" by simp
  have c: "chk (int (dcnt ?b) + 1) = Inr (int (dcnt ?b) + 1)" using assms(2) by (simp add: in_int_def)
  have u: "(records_of (block ?b) @ [x])[dcnt ?b := r] = records_of (block ?b) @ [r]" for x r
    by (simp add: l [symmetric])
  have v: "elem (records_of (block ?b) @ [x]) (dcnt ?b) = Inr x" for x by (simp add: elem_def l [symmetric])
  have w: "set_elem (records_of (block ?b) @ [x]) (dcnt ?b) r = Inr (records_of (block ?b) @ [r])" for x r
    using u [of x r] by (simp add: set_elem_def l)
  show ?thesis
    unfolding dyn_add_abonent_def Let_def c cbind.simps n realloc_grow [OF assms(1)]
    by (simp add: v w dyn_push_def)
qed

text \<open>Deleting: the entry is replaced by the last one, or there is none, or the heap refuses.\<close>

definition dyn_remove :: "heap_env \<Rightarrow> nat \<Rightarrow> dbook \<Rightarrow> dbook" where
  "dyn_remove E k b = \<lparr>block = (if dcnt b = 1 \<and> zero_null E \<or> \<not> grants E (calls b) then None
     else Some (swap_remove k (records_of (block b)))), dcnt = dcnt b - 1, calls = calls b + 1\<rparr>"

lemma dyn_remove:
  assumes "dyn_wf b" and "k < dcnt b" and "dcnt b = 1 \<or> grants E (calls b)"
  shows "dyn_wf (dyn_remove E k b)" and "dyn_entries (dyn_remove E k b) = swap_remove k (dyn_entries b)"
proof -
  have l: "length (records_of (block b)) = dcnt b" using assms(1) by (simp add: dyn_wf_def)
  have r: "records_of (block (dyn_remove E k b)) = swap_remove k (records_of (block b))"
  proof (cases "dcnt b = 1")
    case True
    then have "swap_remove k (records_of (block b)) = []"
      using l by (simp add: swap_remove_def butlast_conv_take)
    then show ?thesis by (simp add: dyn_remove_def)
  next
    case False
    then show ?thesis using assms(3) by (simp add: dyn_remove_def)
  qed
  show "dyn_entries (dyn_remove E k b) = swap_remove k (dyn_entries b)"
    using l assms(2) by (simp add: dyn_entries_def r map_swap_remove)
  have "length (swap_remove k (records_of (block b))) = dcnt b - 1"
    using l by (simp add: swap_remove_def)
  then show "dyn_wf (dyn_remove E k b)"
    using assms(1,2) set_swap_remove [of k "records_of (block b)"] l
    unfolding dyn_wf_def r by (auto simp: dyn_remove_def)
qed

lemma dyn_delete_cases:
  assumes "dyn_wf (store s)" and "scan_fresh NAME_LEN (input s) = Inr (Some n, i)"
  shows "dyn_delete_abonent E s = (let b = store s; s1 = say Ask_delete (s\<lparr>input := i\<rparr>) in
    case index_of n (dyn_entries b) of
      None \<Rightarrow> Inr (say Not_found s1)
    | Some k \<Rightarrow> if dcnt b = 1 \<or> grants E (calls b)
        then Inr (say Deleted (s1\<lparr>store := dyn_remove E k b\<rparr>)) else Inl (Exit 1))"
proof (cases "index_of n (dyn_entries (store s))")
  case None
  then show ?thesis
    using assms(2) dyn_find [OF assms(1)] by (simp add: dyn_delete_abonent_def Let_def)
next
  case (Some k)
  let ?b = "store s" let ?l = "records_of (block ?b)"
  have l: "length ?l = dcnt ?b" using assms(1) by (simp add: dyn_wf_def)
  have k: "k < dcnt ?b"
    using index_of_less [OF Some] dyn_entries_length [OF assms(1)] by simp
  then have "elem ?l (dcnt ?b - 1) = Inr (last ?l)"
    using l by (subst last_conv_nth) (auto simp: elem_def)
  moreover have "set_elem ?l k (last ?l) = Inr (?l[k := last ?l])" using l k by (simp add: set_elem_def)
  moreover have "realloc_records E (calls ?b) (Some (?l[k := last ?l])) (dcnt ?b - 1) =
      (if dcnt ?b = 1 \<and> zero_null E \<or> \<not> grants E (calls ?b) then None else Some (swap_remove k ?l))"
    using l k by (subst realloc_shrink) (simp_all add: swap_remove_def)
  ultimately show ?thesis
    using assms(2) dyn_find [OF assms(1)] Some k
    by (auto simp: dyn_delete_abonent_def dyn_remove_def Let_def)
qed

interpretation dynamic_book: phone_store "dyn_add_abonent E" "dyn_delete_abonent E" dyn_search dyn_print
  dyn_entries "\<lambda>b. dyn_wf b \<and> env_ok E" 2147483647 swap_remove "oom_stops E" for E
proof unfold_locales
  fix s :: "dbook session" and n sn t r
  assume "dyn_wf (store s) \<and> env_ok E" and room: "length (dyn_entries (store s)) < 2147483647"
    and w: "word_ok NAME_LEN n" "word_ok NAME_LEN sn" "word_ok NAME_LEN t"
    and i: "input s = newline # n @ newline # sn @ newline # t @ newline # r"
  then have wf: "dyn_wf (store s)" and env: "env_ok E" by simp_all
  let ?f = "fresh E (calls (store s)) (dcnt (store s))"
  note cs = dyn_add_cases [OF wf, of E] and r = read_entry_words [OF w _ _ _ i, of ?f]
  obtain r' where r': "read_entry ?f s = Inr (r', s\<lparr>input := newline # r,
      out := out s @ [Ask_name, Ask_second_name, Ask_tel]\<rparr>)" "entry_wf r'" "entry_of r' = (n, sn, t)"
    using r env by (auto simp: env_ok_def)
  show "(\<exists>e \<in> oom_stops E. dyn_add_abonent E s = Inl e) \<or>
      (\<exists>b. dyn_add_abonent E s = Inr (s\<lparr>store := b, input := newline # r,
          out := out s @ [Ask_name, Ask_second_name, Ask_tel]\<rparr>) \<and>
        (dyn_wf b \<and> env_ok E) \<and> dyn_entries b = dyn_entries (store s) @ [(n, sn, t)])"
    using cs room env r' dyn_push(1) [OF wf] dyn_entries_length [OF wf]
    by (auto simp: oom_stops_def dyn_push(2) intro!: exI [of _ "dyn_push r' (store s)"])
next
  fix s :: "dbook session" and n r
  assume "dyn_wf (store s) \<and> env_ok E" and w: "word_ok NAME_LEN n" and i: "input s = newline # n @ newline # r"
  then have wf: "dyn_wf (store s)" and env: "env_ok E" by simp_all
  have k: "index_of n (dyn_entries (store s)) = Some k \<Longrightarrow> k < dcnt (store s)" for k
    using index_of_less dyn_entries_length [OF wf] by metis
  show "(\<exists>e \<in> oom_stops E. dyn_delete_abonent E s = Inl e) \<or>
      (\<exists>b. dyn_delete_abonent E s = Inr (s\<lparr>store := b, input := newline # r,
          out := out s @ reply (Delete n) (dyn_entries (store s))\<rparr>) \<and>
        (dyn_wf b \<and> env_ok E) \<and> dyn_entries b = perform swap_remove (Delete n) (dyn_entries (store s)))"
    using dyn_delete_cases [OF wf, of n "newline # r" E] wf env dyn_remove [OF wf k]
    by (auto simp: i scan_fresh_word [OF w] say_def oom_stops_def Let_def split: option.splits
        intro!: exI [of _ "case index_of n (dyn_entries (store s)) of
          None \<Rightarrow> store s | Some k \<Rightarrow> dyn_remove E k (store s)"])
next
  fix s :: "dbook session" and n r
  assume "dyn_wf (store s) \<and> env_ok E" and w: "word_ok NAME_LEN n" and i: "input s = newline # n @ newline # r"
  then show "dyn_search s = Inr (s\<lparr>input := newline # r,
      out := out s @ reply (Search n) (dyn_entries (store s))\<rparr>)"
    using dyn_print_from [of "store s" "name_is (Some n)" "\<lambda>e. fst e = n", OF _ name_is_wf]
    by (simp add: dyn_search_def search_abonent_def scan_fresh_word [OF w])
next
  fix s :: "dbook session"
  assume "dyn_wf (store s) \<and> env_ok E"
  then show "dyn_print s = Inr (s\<lparr>out := out s @ reply Print (dyn_entries (store s))\<rparr>)"
    using dyn_print_from [of "store s" "\<lambda>r. Inr True" "\<lambda>e. True"]
    by (simp add: dyn_print_def print_abonents_def)
qed

lemma dynamic_main_runs:
  assumes "env_ok E" and "\<forall>c \<in> set cs. command_ok c" and "peak swap_remove cs [] \<le> 2147483647"
    and "length cs < fuel"
  shows "(\<exists>e \<in> oom_stops E. dynamic_main E fuel (script cs) = Some (Inl e)) \<or>
    (\<exists>t. dynamic_main E fuel (script cs) = Some (Inr t) \<and>
      dyn_entries (store t) = performs swap_remove cs [] \<and> out t = replies swap_remove cs [])"
  unfolding dynamic_main_def
  using dynamic_book.session_law [of "start dbook_init (script cs)" E cs fuel] assms
  by (simp add: dyn_wf_init dyn_entries_init) blast

section \<open>The two ways of deleting\<close>

lemma mset_remove:
  assumes "i < length xs"
  shows "mset (remove_at i xs) + {#xs ! i#} = mset xs" and "mset (swap_remove i xs) + {#xs ! i#} = mset xs"
proof -
  show "mset (remove_at i xs) + {#xs ! i#} = mset xs"
    by (subst id_take_nth_drop [OF assms], unfold remove_at_def) simp
  obtain ys y where xs: "xs = ys @ [y]" using assms by (cases xs rule: rev_cases) auto
  show "mset (swap_remove i xs) + {#xs ! i#} = mset xs"
  proof (cases "i = length ys")
    case True
    then show ?thesis by (simp add: xs swap_remove_def)
  next
    case False
    then have "i < length ys" using assms xs by simp
    then show ?thesis
      by (simp add: xs swap_remove_def nth_append list_update_append butlast_append mset_update add_ac)
  qed
qed

lemma index_of_None: "index_of n es = None \<longleftrightarrow> n \<notin> fst ` set es"
  by (induction es) auto

text \<open>With different names, the entry a name denotes does not depend on the order.\<close>

lemma named_unique:
  "distinct (map fst es) \<Longrightarrow> mset es = mset fs \<Longrightarrow> x \<in> set es \<Longrightarrow> y \<in> set fs \<Longrightarrow> fst x = fst y \<Longrightarrow> x = y"
  by (metis distinct_map inj_on_eq_iff mset_eq_setD)

fun added :: "command list \<Rightarrow> string list" where
  "added [] = []"
| "added (Add n sn t # cs) = n # added cs"
| "added (c # cs) = added cs"

lemma perform_agree:
  assumes d: "distinct (map fst es)" and m: "mset es = mset fs"
  shows "mset (perform remove_at c es) = mset (perform swap_remove c fs)"
    and "length (perform remove_at c es) = length (perform swap_remove c fs)"
proof -
  show "mset (perform remove_at c es) = mset (perform swap_remove c fs)"
  proof (cases c)
    case (Delete n)
    show ?thesis
    proof (cases "index_of n es")
      case None
      then have "index_of n fs = None" using mset_eq_setD [OF m] by (simp add: index_of_None)
      with None Delete m show ?thesis by simp
    next
      case (Some i)
      then obtain j where j: "index_of n fs = Some j"
        using mset_eq_setD [OF m] by (metis index_of_None not_Some_eq)
      have "es ! i = fs ! j"
        using index_of_less [OF Some] index_of_less [OF j] by (intro named_unique [OF d m]) simp_all
      then have "mset (remove_at i es) + {#fs ! j#} = mset (swap_remove j fs) + {#fs ! j#}"
        using mset_remove(1) [of i es] mset_remove(2) [of j fs] index_of_less [OF Some]
          index_of_less [OF j] m by metis
      then have "mset (remove_at i es) = mset (swap_remove j fs)" by simp
      with Some j Delete show ?thesis by simp
    qed
  qed (use m in simp_all)
  then show "length (perform remove_at c es) = length (perform swap_remove c fs)"
    by (metis size_mset)
qed

lemma perform_names:
  "distinct (map fst es @ added (c # cs)) \<Longrightarrow> distinct (map fst (perform remove_at c es) @ added cs)"
proof -
  assume d: "distinct (map fst es @ added (c # cs))"
  have "distinct (map fst (take i es))" "distinct (map fst (drop (Suc i) es))" for i
    using d by (auto simp flip: take_map drop_map)
  then have "set (remove_at i es) \<subseteq> set es" "distinct (map fst (remove_at i es))" for i
    using d set_take_disj_set_drop_if_distinct [of "map fst es" i "Suc i"]
    by (auto simp: remove_at_def take_map drop_map dest: in_set_takeD in_set_dropD)
  with d show ?thesis by (cases c) (auto split: option.splits, force)
qed

lemma performs_agree:
  assumes "distinct (map fst es @ added cs)" and "mset es = mset fs"
  shows "mset (performs remove_at cs es) = mset (performs swap_remove cs fs) \<and>
    peak remove_at cs es = peak swap_remove cs fs"
  using assms
proof (induction cs arbitrary: es fs)
  case Nil
  then show ?case using mset_eq_length by auto
next
  case (Cons c cs)
  have "distinct (map fst es)" using Cons.prems(1) by simp
  then have "mset (perform remove_at c es) = mset (perform swap_remove c fs)"
    using Cons.prems(2) by (rule perform_agree)
  with Cons.IH [OF perform_names [OF Cons.prems(1)]] show ?case
    using mset_eq_length [OF Cons.prems(2)] by simp
qed

section \<open>Properties\<close>

text \<open>
  C9: a session in which every \<open>realloc\<close> succeeds does what the menu says, where deleting an entry
  moves the last one into its place; when a call fails the only other end is \<open>exit(1)\<close>.
\<close>

theorem dynamic_session:
  assumes "env_ok E" and "\<forall>c \<in> set cs. command_ok c" and "peak swap_remove cs [] \<le> 2147483647"
    and "length cs < fuel"
  shows "(\<exists>k. \<not> grants E k) \<and> dynamic_main E fuel (script cs) = Some (Inl (Exit 1)) \<or>
    (\<exists>t. dynamic_main E fuel (script cs) = Some (Inr t) \<and>
      dyn_entries (store t) = performs swap_remove cs [] \<and> out t = replies swap_remove cs [])"
  using dynamic_main_runs [OF assms] by (auto simp: oom_stops_def split: if_splits)

definition ex_env :: "bool \<Rightarrow> heap_env" where
  "ex_env z = \<lparr>grants = \<lambda>k. True, fresh = \<lambda>k i. \<lparr>name = replicate 10 CHR ''x'',
     second_name = replicate 10 CHR ''x'', tel = replicate 10 CHR ''x''\<rparr>, zero_null = z\<rparr>"

lemma ex_env_ok: "env_ok (ex_env z)" "grants (ex_env z) k"
  by (simp_all add: ex_env_def env_ok_def NAME_LEN_def)

lemma performs_ex_commands:
  "performs swap_remove ex_commands [] = [(''ann'', ''poe'', ''56''), (''bob'', ''ray'', ''34'')]"
  "peak swap_remove ex_commands [] = 3"
  by (simp_all add: ex_commands_def swap_remove_def)

theorem dynamic_session_witness:
  "\<exists>t. dynamic_main (ex_env True) 8 (script ex_commands) = Some (Inr t) \<and>
    dyn_entries (store t) = [(''ann'', ''poe'', ''56''), (''bob'', ''ray'', ''34'')]"
proof -
  have "length ex_commands < 8" by (simp add: ex_commands_def)
  then show ?thesis
    using dynamic_session [OF ex_env_ok(1) ex_commands_ok, of 8 True] performs_ex_commands ex_env_ok(2)
    by auto
qed

text \<open>
  C10: the two phone books agree: for every script of commands with words that fit the fields, in which
  no two entries are added under one name and which never has more than \<open>MAX_ABONENTS\<close> entries at a
  time, and on a heap where every \<open>realloc\<close> succeeds, both programs end, with the same entries up to
  their order.
\<close>

theorem phonebooks_agree:
  assumes "env_ok E" and "\<forall>k. grants E k" and "\<forall>c \<in> set cs. command_ok c"
    and "distinct (added cs)" and "peak remove_at cs [] \<le> MAX_ABONENTS" and "length cs < fuel"
  shows "\<exists>t u. static_main fuel (script cs) = Some (Inr t) \<and> dynamic_main E fuel (script cs) = Some (Inr u) \<and>
    mset (book_entries (store t)) = mset (dyn_entries (store u))"
proof -
  have m: "mset (performs remove_at cs []) = mset (performs swap_remove cs [])"
    "peak remove_at cs [] = peak swap_remove cs []"
    using performs_agree [of "[]" cs "[]"] assms(4) by simp_all
  then have "peak swap_remove cs [] \<le> 2147483647" using assms(5) by (simp add: MAX_ABONENTS_def)
  then show ?thesis
    using static_main_runs [OF assms(3,5,6)] dynamic_main_runs [OF assms(1,3) _ assms(6)] assms(2) m(1)
    by (force simp: oom_stops_def)
qed

definition ex_distinct :: "command list" where
  "ex_distinct = [Add ''ann'' ''lee'' ''12'', Add ''bob'' ''ray'' ''34'', Add ''eve'' ''poe'' ''56'',
     Delete ''ann'', Print]"

theorem phonebooks_agree_witness:
  "\<exists>t u. static_main 6 (script ex_distinct) = Some (Inr t) \<and>
    dynamic_main (ex_env False) 6 (script ex_distinct) = Some (Inr u) \<and>
    mset (book_entries (store t)) = mset (dyn_entries (store u))"
  using ex_env_ok
  by (intro phonebooks_agree)
    (simp_all add: ex_distinct_def word_ok_def NAME_LEN_def is_space_def remove_at_def MAX_ABONENTS_def)

end
