(* ===== verification/File_Manager.thy ===== *)
theory File_Manager
  imports Prelude
begin

text \<open>
  The two-panel file manager of \<open>file system/fm/file_manager.c\<close>: each panel keeps an array of
  \<open>MAX_FILES\<close> entries, the number of entries listed, the entry under the cursor, the first entry
  shown and the path it was read from. The directory the process is in is one for both panels.
  The operating system is a parameter: what \<open>opendir\<close> and \<open>readdir\<close> list, what \<open>stat\<close> says of a
  path, and where \<open>chdir\<close> leads. What \<open>ncurses\<close> is asked to draw is a list of commands.
\<close>

section \<open>State\<close>

definition MAX_FILES :: nat where "MAX_FILES = 1024"

definition MIN_WIDTH :: int where "MIN_WIDTH = 107"

definition MIN_HEIGHT :: int where "MIN_HEIGHT = 24"

definition PATH_SIZE :: nat where "PATH_SIZE = 1024"

record dir_file =
  file_name :: string
  size :: int
  is_dir :: bool

record panel =
  files :: "dir_file list"
  file_count :: int
  current_file :: int
  scroll_offset :: int
  current_path :: string

text \<open>
  \<open>list_dir p\<close> is the sequence of names \<open>readdir\<close> returns for the path \<open>p\<close>, \<open>None\<close> when \<open>opendir\<close>
  fails; \<open>stat_of p\<close> the size and whether it is a directory; \<open>chdir_from d p\<close> the directory that
  \<open>chdir(p)\<close> leads to from \<open>d\<close>.
\<close>

record os =
  list_dir :: "string \<Rightarrow> string list option"
  stat_of :: "string \<Rightarrow> (int \<times> bool) option"
  chdir_from :: "string \<Rightarrow> string \<Rightarrow> string option"

record fm =
  panels :: "panel list"
  active_panel :: nat
  cwd :: string

definition zero_file :: dir_file where
  "zero_file = \<lparr>file_name = [], size = 0, is_dir = False\<rparr>"

definition zero_panel :: panel where
  "zero_panel = \<lparr>files = replicate MAX_FILES zero_file, file_count = 0, current_file = 0,
     scroll_offset = 0, current_path = []\<rparr>"

text \<open>\<open>snprintf\<close> into a buffer of \<open>n\<close> characters truncates; a \<open>getcwd\<close> that does not fit fails.\<close>

definition snprintf :: "nat \<Rightarrow> string \<Rightarrow> string" where
  "snprintf n s = take (n - 1) s"

definition getcwd :: "string \<Rightarrow> panel \<Rightarrow> panel" where
  "getcwd d p = (if length d < PATH_SIZE then p\<lparr>current_path := d\<rparr> else p)"

section \<open>Listing a directory\<close>

definition file_of :: "os \<Rightarrow> string \<Rightarrow> string \<Rightarrow> dir_file" where
  "file_of os path n = (case stat_of os (snprintf 1024 (path @ ''/'' @ n)) of
     Some (s, d) \<Rightarrow> \<lparr>file_name = snprintf 256 n, size = s, is_dir = d\<rparr>
   | None \<Rightarrow> \<lparr>file_name = snprintf 256 n, size = 0, is_dir = False\<rparr>)"

text \<open>The loop over \<open>readdir\<close>; nothing stops it at \<open>MAX_FILES\<close>.\<close>

fun read_loop :: "os \<Rightarrow> string \<Rightarrow> string list \<Rightarrow> panel \<Rightarrow> panel c" where
  "read_loop os path [] p = Inr p"
| "read_loop os path (n # ns) p =
     (if file_count p < int (length (files p))
      then read_loop os path ns (p\<lparr>files := (files p)[nat (file_count p) := file_of os path n],
             file_count := file_count p + 1\<rparr>)
      else Inl Write_Overflow)"

definition list_files :: "os \<Rightarrow> panel \<Rightarrow> string \<Rightarrow> panel c" where
  "list_files os p path = (case list_dir os path of
     None \<Rightarrow> Inr p
   | Some ns \<Rightarrow> read_loop os path ns (p\<lparr>file_count := 0\<rparr>))"

section \<open>Navigation\<close>

datatype key = Key_up | Key_down | Enter | Tab | Quit | Other_key

definition key_up :: "panel \<Rightarrow> panel" where
  "key_up p = (if 0 < current_file p then
     let q = p\<lparr>current_file := current_file p - 1\<rparr> in
     if current_file q < scroll_offset q then q\<lparr>scroll_offset := scroll_offset q - 1\<rparr> else q
   else p)"

definition key_down :: "int \<Rightarrow> panel \<Rightarrow> panel" where
  "key_down height p = (if current_file p < file_count p - 1 then
     let q = p\<lparr>current_file := current_file p + 1\<rparr> in
     if scroll_offset q + height \<le> current_file q then q\<lparr>scroll_offset := scroll_offset q + 1\<rparr> else q
   else p)"

text \<open>The result is the panel and the directory of the process.\<close>

definition enter :: "os \<Rightarrow> string \<Rightarrow> panel \<Rightarrow> (panel \<times> string) c" where
  "enter os d p = (let i = nat (current_file p) in
     if \<not> (0 \<le> current_file p \<and> i < length (files p)) then Inl Read_Overflow
     else if is_dir (files p ! i) then
       let d' = (case chdir_from os d (file_name (files p ! i)) of Some e \<Rightarrow> e | None \<Rightarrow> d);
           q = getcwd d' p
       in cbind (list_files os q (current_path q))
            (\<lambda>q. Inr (q\<lparr>current_file := 0, scroll_offset := 0\<rparr>, d'))
     else Inr (p, d))"

definition handle_navigation :: "os \<Rightarrow> key \<Rightarrow> int \<Rightarrow> string \<Rightarrow> panel \<Rightarrow> (panel \<times> string) c" where
  "handle_navigation os ch height d p = (case ch of
     Key_up \<Rightarrow> Inr (key_up p, d)
   | Key_down \<Rightarrow> Inr (key_down height p, d)
   | Enter \<Rightarrow> enter os d p
   | _ \<Rightarrow> Inr (p, d))"

section \<open>The main loop\<close>

definition check_terminal_size :: "int \<Rightarrow> int \<Rightarrow> unit c" where
  "check_terminal_size cols lines =
     (if cols < MIN_WIDTH \<or> lines < MIN_HEIGHT then Inl (Exit 1) else Inr ())"

definition fm_start :: "os \<Rightarrow> string \<Rightarrow> int \<Rightarrow> int \<Rightarrow> fm c" where
  "fm_start os d cols lines =
     cbind (check_terminal_size cols lines) (\<lambda>_.
     let p0 = getcwd d zero_panel; p1 = getcwd d zero_panel in
     cbind (list_files os p0 (current_path p0)) (\<lambda>q0.
     cbind (list_files os p1 (current_path p1)) (\<lambda>q1.
       Inr \<lparr>panels = [q0, q1], active_panel = 0, cwd = d\<rparr>)))"

text \<open>One key; \<open>Quit\<close> leaves the program.\<close>

definition fm_step :: "os \<Rightarrow> int \<Rightarrow> key \<Rightarrow> fm \<Rightarrow> fm c" where
  "fm_step os lines k s = (case k of
     Tab \<Rightarrow> Inr (s\<lparr>active_panel := 1 - active_panel s\<rparr>)
   | Quit \<Rightarrow> Inl (Exit 0)
   | Other_key \<Rightarrow> Inr s
   | _ \<Rightarrow> cbind (handle_navigation os k (lines - 3) (cwd s) (panels s ! active_panel s)) (\<lambda>(p, d).
            Inr (s\<lparr>panels := (panels s)[active_panel s := p], cwd := d\<rparr>)))"

fun fm_keys :: "os \<Rightarrow> int \<Rightarrow> key list \<Rightarrow> fm \<Rightarrow> fm c" where
  "fm_keys os lines [] s = Inr s"
| "fm_keys os lines (k # ks) s = cbind (fm_step os lines k s) (fm_keys os lines ks)"

section \<open>Drawing\<close>

datatype attr = Bold | Reverse

datatype draw = On attr | Off attr | Text int int string | Dir_row int int string
  | File_row int int string int | Blank_row int int

definition display_row :: "nat \<Rightarrow> nat \<Rightarrow> panel \<Rightarrow> int \<Rightarrow> int \<Rightarrow> nat \<Rightarrow> draw list" where
  "display_row idx active p x y i = (let k = int i + scroll_offset p; f = files p ! nat k in
     if k < file_count p then
       (if k = current_file p \<and> idx = active then [On Reverse] else []) @
       [if is_dir f then Dir_row (y + int i) x (file_name f) else File_row (y + int i) x (file_name f) (size f)] @
       (if k = current_file p \<and> idx = active then [Off Reverse] else [])
     else [Blank_row (y + int i) x])"

definition display_panel :: "nat \<Rightarrow> nat \<Rightarrow> panel \<Rightarrow> int \<Rightarrow> int \<Rightarrow> int \<Rightarrow> int \<Rightarrow> draw list" where
  "display_panel idx active p x y width height =
     (if idx = active then [On Bold] else []) @
     [Text (y - 1) x ''Name'', Text (y - 1) (x + width - 10) ''Size''] @
     (if idx = active then [Off Bold] else []) @
     concat (map (display_row idx active p x y) [0..<nat height])"

definition titles :: "nat \<Rightarrow> int \<Rightarrow> draw list" where
  "titles active cols = (if active = 0
     then [Text 0 (cols div 4) ''Window 1'', On Bold, Text 0 (3 * cols div 4) ''Window 2'', Off Bold]
     else [On Bold, Text 0 (cols div 4) ''Window 1'', Off Bold, Text 0 (3 * cols div 4) ''Window 2''])"

definition draw_screen :: "int \<Rightarrow> int \<Rightarrow> fm \<Rightarrow> draw list" where
  "draw_screen cols lines s =
     titles (active_panel s) cols @
     display_panel 0 (active_panel s) (panels s ! 0) 1 2 (cols div 2 - 2) (lines - 3) @
     display_panel 1 (active_panel s) (panels s ! 1) (cols div 2 + 2) 2 (cols div 2 - 2) (lines - 3) @
     map (\<lambda>i. Text i (cols div 2) ''|'') [1..lines - 2]"

text \<open>What is drawn with which attributes switched on.\<close>

fun styled :: "draw list \<Rightarrow> attr set \<Rightarrow> (draw \<times> attr set) list" where
  "styled [] A = []"
| "styled (On a # ds) A = styled ds (insert a A)"
| "styled (Off a # ds) A = styled ds (A - {a})"
| "styled (d # ds) A = (d, A) # styled ds A"

text \<open>The program on a terminal of the given size, up to the keys that were pressed.\<close>

definition fm_main :: "os \<Rightarrow> string \<Rightarrow> int \<Rightarrow> int \<Rightarrow> key list \<Rightarrow> fm c" where
  "fm_main os d cols lines ks = cbind (fm_start os d cols lines) (fm_keys os lines ks)"

section \<open>The cursor stays on the screen\<close>

definition panel_wf :: "int \<Rightarrow> panel \<Rightarrow> bool" where
  "panel_wf height p \<longleftrightarrow> length (files p) = MAX_FILES \<and> 0 \<le> file_count p \<and> file_count p \<le> int MAX_FILES \<and>
     0 \<le> scroll_offset p \<and> scroll_offset p \<le> current_file p \<and>
     current_file p < scroll_offset p + height \<and> current_file p < max 1 (file_count p)"

definition fm_wf :: "int \<Rightarrow> fm \<Rightarrow> bool" where
  "fm_wf lines s \<longleftrightarrow> MIN_HEIGHT \<le> lines \<and> length (panels s) = 2 \<and> active_panel s < 2 \<and>
     (\<forall>p \<in> set (panels s). panel_wf (lines - 3) p)"

lemma read_loop_eq:
  assumes "0 \<le> file_count p" and "file_count p \<le> int (length (files p))"
  shows "read_loop os path ns p =
    (if file_count p + int (length ns) \<le> int (length (files p))
     then Inr (p\<lparr>files := take (nat (file_count p)) (files p) @ map (file_of os path) ns @
                 drop (nat (file_count p) + length ns) (files p),
               file_count := file_count p + int (length ns)\<rparr>)
     else Inl Write_Overflow)"
  using assms
proof (induction ns arbitrary: p)
  case Nil
  then show ?case by simp
next
  case (Cons n ns)
  show ?case
  proof (cases "file_count p < int (length (files p))")
    case True
    let ?i = "nat (file_count p)"
    have i: "?i < length (files p)" "nat (file_count p + 1) = Suc ?i" using True Cons.prems by auto
    show ?thesis
      using Cons.prems True i
      by (simp add: Cons.IH take_Suc_conv_app_nth take_update_cancel drop_update_cancel)
  next
    case False
    then show ?thesis using Cons.prems by simp
  qed
qed

lemma list_files_eq:
  assumes "length (files p) = MAX_FILES"
  shows "list_files os p path = (case list_dir os path of
      None \<Rightarrow> Inr p
    | Some ns \<Rightarrow> if length ns \<le> MAX_FILES
        then Inr (p\<lparr>files := map (file_of os path) ns @ drop (length ns) (files p), file_count := int (length ns)\<rparr>)
        else Inl Write_Overflow)"
  using assms by (simp add: list_files_def read_loop_eq split: option.split)

lemma list_files_wf:
  assumes "list_files os p path = Inr q" and "length (files p) = MAX_FILES"
    and "0 \<le> file_count p" and "file_count p \<le> int MAX_FILES"
  shows "length (files q) = MAX_FILES" and "0 \<le> file_count q" and "file_count q \<le> int MAX_FILES"
    and "current_file q = current_file p" and "scroll_offset q = scroll_offset p"
    and "current_path q = current_path p"
  using assms by (auto simp: list_files_eq split: option.splits if_splits)

lemma panel_wf_up: "panel_wf h p \<Longrightarrow> panel_wf h (key_up p)"
  by (auto simp: panel_wf_def key_up_def Let_def)

lemma panel_wf_down: "panel_wf h p \<Longrightarrow> panel_wf h (key_down h p)"
  by (auto simp: panel_wf_def key_down_def Let_def)

lemma getcwd_simps [simp]:
  "files (getcwd d p) = files p" "file_count (getcwd d p) = file_count p"
  "current_file (getcwd d p) = current_file p" "scroll_offset (getcwd d p) = scroll_offset p"
  by (simp_all add: getcwd_def)

lemma panel_wf_enter: "panel_wf h p \<Longrightarrow> 0 < h \<Longrightarrow> enter os d p = Inr (q, d') \<Longrightarrow> panel_wf h q"
  by (auto simp: enter_def Let_def panel_wf_def split: if_splits dest: list_files_wf)

lemma panel_wf_navigation:
  "panel_wf h p \<Longrightarrow> 0 < h \<Longrightarrow> handle_navigation os k h d p = Inr (q, d') \<Longrightarrow> panel_wf h q"
  by (cases k)
    (auto simp: handle_navigation_def panel_wf_up panel_wf_down dest: panel_wf_enter)

definition fm_move :: "os \<Rightarrow> int \<Rightarrow> key \<Rightarrow> fm \<Rightarrow> fm option" where
  "fm_move os lines k s = (case fm_step os lines k s of Inl e \<Rightarrow> None | Inr t \<Rightarrow> Some t)"

lemma fm_keys_run: "fm_keys os lines ks s = Inr t \<longleftrightarrow> run (fm_move os lines) ks s = Some t"
  by (induction ks arbitrary: s) (auto simp: fm_move_def split: sum.splits)

lemma fm_step_cases:
  assumes "fm_step os lines k s = Inr t"
  obtains "t = s" | "t = s\<lparr>active_panel := 1 - active_panel s\<rparr>"
  | p d where "handle_navigation os k (lines - 3) (cwd s) (panels s ! active_panel s) = Inr (p, d)"
      "t = s\<lparr>panels := (panels s)[active_panel s := p], cwd := d\<rparr>"
proof (cases "k \<in> {Key_up, Key_down, Enter}")
  case True
  then have "fm_step os lines k s =
      cbind (handle_navigation os k (lines - 3) (cwd s) (panels s ! active_panel s)) (\<lambda>(p, d).
        Inr (s\<lparr>panels := (panels s)[active_panel s := p], cwd := d\<rparr>))"
    by (auto simp: fm_step_def)
  then show thesis using assms that(3) by auto
next
  case False
  then show thesis using assms that(1,2) by (cases k) (auto simp: fm_step_def)
qed

interpretation file_manager: event_system "fm_move os lines" "fm_wf lines" for os lines
proof unfold_locales
  fix s k t
  assume wf: "fm_wf lines s" and "fm_move os lines k s = Some t"
  then have "fm_step os lines k s = Inr t" by (simp add: fm_move_def split: sum.splits)
  then show "fm_wf lines t"
  proof (cases rule: fm_step_cases)
    case (3 p d)
    have "panel_wf (lines - 3) (panels s ! active_panel s)" "0 < lines - 3"
      using wf by (auto simp: fm_wf_def MIN_HEIGHT_def)
    then have "panel_wf (lines - 3) p" using 3(1) by (rule panel_wf_navigation)
    then show ?thesis
      using wf 3(2) by (auto simp: fm_wf_def dest!: set_update_subset_insert [THEN subsetD])
  qed (use wf in \<open>auto simp: fm_wf_def\<close>)
qed

lemma fm_start_wf:
  assumes "fm_start os d cols lines = Inr s"
  shows "fm_wf lines s"
proof -
  have z: "panel_wf (lines - 3) q"
    if "MIN_HEIGHT \<le> lines" "list_files os (getcwd d zero_panel) path = Inr q" for q path
    using that list_files_wf [OF that(2)]
    by (auto simp: panel_wf_def zero_panel_def MIN_HEIGHT_def)
  show ?thesis
    using assms z by (auto simp: fm_start_def check_terminal_size_def fm_wf_def Let_def split: if_splits)
qed

lemma fm_reach_wf:
  "fm_start os d cols lines = Inr s \<Longrightarrow> fm_keys os lines ks s = Inr t \<Longrightarrow> fm_wf lines t"
  using file_manager.run_inv [OF fm_start_wf] by (simp only: fm_keys_run)

lemma navigation_stop:
  assumes "panel_wf h p" and "handle_navigation os k h c p = Inl e"
  shows "e = Write_Overflow \<and> (\<exists>path ns. list_dir os path = Some ns \<and> MAX_FILES < length ns)"
proof (cases "k = Enter")
  case True
  have l: "length (files p) = MAX_FILES" "0 \<le> current_file p" "nat (current_file p) < MAX_FILES"
    using assms(1) by (auto simp: panel_wf_def MAX_FILES_def)
  with assms(2) True show ?thesis
    by (auto simp: handle_navigation_def enter_def Let_def list_files_eq cbind_eq_Inl not_le
        split: option.splits if_splits)
next
  case False
  then show ?thesis using assms(2) by (cases k) (auto simp: handle_navigation_def)
qed

lemma fm_step_ends:
  assumes "fm_wf lines s"
  shows "case fm_step os lines k s of
     Inl e \<Rightarrow> e = Exit 0 \<and> k = Quit \<or>
       e = Write_Overflow \<and> (\<exists>path ns. list_dir os path = Some ns \<and> MAX_FILES < length ns)
   | Inr t \<Rightarrow> k \<noteq> Quit \<and> fm_wf lines t"
proof (cases "fm_step os lines k s")
  case (Inl e)
  have "panel_wf (lines - 3) (panels s ! active_panel s)" using assms by (auto simp: fm_wf_def)
  then show ?thesis
    using Inl navigation_stop by (cases k) (auto simp: fm_step_def cbind_eq_Inl split: prod.splits)
next
  case (Inr t)
  then have "k \<noteq> Quit" by (auto simp: fm_step_def)
  with Inr show ?thesis using assms file_manager.step_inv [of lines s os k t] by (simp add: fm_move_def)
qed

lemma fm_keys_ends:
  assumes "fm_wf lines s"
  shows "case fm_keys os lines ks s of
     Inl e \<Rightarrow> e = Exit 0 \<and> Quit \<in> set ks \<or>
       e = Write_Overflow \<and> (\<exists>path ns. list_dir os path = Some ns \<and> MAX_FILES < length ns)
   | Inr t \<Rightarrow> Quit \<notin> set ks"
  using assms
proof (induction ks arbitrary: s)
  case Nil
  then show ?case by simp
next
  case (Cons k ks)
  note step = fm_step_ends [OF Cons.prems, where os = os and k = k]
  show ?case
  proof (cases "fm_step os lines k s")
    case (Inl e)
    then show ?thesis using step by auto
  next
    case (Inr t)
    then have "k \<noteq> Quit" "fm_wf lines t" using step by simp_all
    then show ?thesis using Inr Cons.IH [of t] by (auto split: sum.splits)
  qed
qed

section \<open>What the screen shows\<close>

text \<open>A row of a panel is drawn with no attribute, but for the one under the cursor.\<close>

definition row_text :: "panel \<Rightarrow> int \<Rightarrow> int \<Rightarrow> nat \<Rightarrow> draw" where
  "row_text p x y i = (let k = int i + scroll_offset p; f = files p ! nat k in
     if k < file_count p
     then (if is_dir f then Dir_row (y + int i) x (file_name f) else File_row (y + int i) x (file_name f) (size f))
     else Blank_row (y + int i) x)"

lemma styled_row:
  "styled (display_row idx active p x y i @ ds) {} =
   (row_text p x y i, if int i + scroll_offset p = current_file p \<and> idx = active \<and>
     current_file p < file_count p then {Reverse} else {}) # styled ds {}"
  by (simp add: display_row_def row_text_def Let_def)

lemma styled_rows:
  "styled (concat (map (display_row idx active p x y) ns)) {} =
   map (\<lambda>i. (row_text p x y i, if int i + scroll_offset p = current_file p \<and> idx = active \<and>
     current_file p < file_count p then {Reverse} else {})) ns"
  by (induction ns) (simp_all add: styled_row)

lemma filter_upt_one:
  "filter (\<lambda>i. i = k) [0..<n] = (if k < n then [k] else [])"
  by (induction n) auto

lemma styled_panel:
  assumes "panel_wf height p"
  shows "filter (\<lambda>(d, A). Reverse \<in> A) (styled (display_panel idx active p x y width height) {}) =
    (if idx = active \<and> current_file p < file_count p
     then [(row_text p x y (nat (current_file p - scroll_offset p)), {Reverse})] else [])"
proof -
  let ?k = "nat (current_file p - scroll_offset p)"
  have k: "0 \<le> scroll_offset p" "scroll_offset p \<le> current_file p" "?k < nat height"
    using assms by (auto simp: panel_wf_def)
  have e: "int i + scroll_offset p = current_file p \<longleftrightarrow> i = ?k" for i using k by auto
  show ?thesis
    using k(3) by (auto simp: display_panel_def styled_rows e filter_map comp_def if_distrib
        filter_upt_one cong: if_cong)
qed

section \<open>An example\<close>

text \<open>Every directory has the entries \<open>a\<close>, a directory, and \<open>b\<close>; entering \<open>a\<close> appends it to the path.\<close>

definition ex_os :: os where
  "ex_os = \<lparr>list_dir = \<lambda>p. Some [''a'', ''b''],
     stat_of = \<lambda>p. Some (int (length p), last p = CHR ''a''),
     chdir_from = \<lambda>d p. Some (d @ ''/'' @ p)\<rparr>"

lemma ex_os_simps [simp]:
  "list_dir ex_os p = Some [''a'', ''b'']" "stat_of ex_os p = Some (int (length p), last p = CHR ''a'')"
  "chdir_from ex_os d p = Some (d @ ''/'' @ p)"
  by (simp_all add: ex_os_def)

definition ex_panel :: "string \<Rightarrow> panel" where
  "ex_panel d = zero_panel\<lparr>files := [file_of ex_os d ''a'', file_of ex_os d ''b''] @ replicate 1022 zero_file,
     file_count := 2, current_path := d\<rparr>"

definition ex_fm :: fm where
  "ex_fm = \<lparr>panels = [ex_panel ''r'', ex_panel ''r''], active_panel = 0, cwd = ''r''\<rparr>"

lemma ex_list: "length (files p) = 1024 \<Longrightarrow> list_files ex_os p d =
    Inr (p\<lparr>files := [file_of ex_os d ''a'', file_of ex_os d ''b''] @ drop 2 (files p), file_count := 2\<rparr>)"
  by (simp add: list_files_eq MAX_FILES_def numeral_2_eq_2)

lemma ex_start: "fm_start ex_os ''r'' 120 30 = Inr ex_fm"
  by (simp add: fm_start_def check_terminal_size_def MIN_WIDTH_def MIN_HEIGHT_def ex_list
      zero_panel_def getcwd_def PATH_SIZE_def MAX_FILES_def ex_fm_def ex_panel_def)

lemma ex_is_dir: "length d < 1000 \<Longrightarrow> is_dir (file_of ex_os d ''a'')" "file_name (file_of ex_os d ''a'') = ''a''"
  by (simp_all add: file_of_def snprintf_def)

lemma ex_enter: "length d < 1000 \<Longrightarrow> c = d \<Longrightarrow> enter ex_os c (ex_panel d) = Inr (ex_panel (d @ ''/a''), d @ ''/a'')"
  by (simp add: enter_def ex_panel_def ex_is_dir ex_list getcwd_def PATH_SIZE_def zero_panel_def
      MAX_FILES_def Let_def)

section \<open>Properties\<close>

text \<open>
  Listing a directory puts one entry for each name into the array, in the order of \<open>readdir\<close>, and
  leaves the list as it was when the directory cannot be opened; a directory with more than
  \<open>MAX_FILES\<close> names is written past the end of the array.
\<close>

theorem fm_listing:
  assumes "length (files p) = MAX_FILES"
  shows "list_files os p path = (case list_dir os path of
      None \<Rightarrow> Inr p
    | Some ns \<Rightarrow> if length ns \<le> MAX_FILES
        then Inr (p\<lparr>files := map (file_of os path) ns @ drop (length ns) (files p), file_count := int (length ns)\<rparr>)
        else Inl Write_Overflow)"
  by (rule list_files_eq [OF assms])

theorem fm_listing_witness:
  "list_files ex_os zero_panel ''r'' = Inr (zero_panel\<lparr>file_count := 2,
     files := [file_of ex_os ''r'' ''a'', file_of ex_os ''r'' ''b''] @ replicate 1022 zero_file\<rparr>)"
  using fm_listing [of zero_panel ex_os "''r''"]
  by (simp add: zero_panel_def MAX_FILES_def numeral_2_eq_2)

text \<open>
  C11: whatever keys are pressed, the cursor of each panel is on an entry of the listing (or at 0 when
  it is empty) and on the rows the panel shows, and the listing fits the array.
\<close>

theorem fm_cursor:
  assumes "fm_start os d cols lines = Inr s" and "fm_keys os lines ks s = Inr t" and "p \<in> set (panels t)"
  shows "0 \<le> scroll_offset p \<and> scroll_offset p \<le> current_file p \<and>
    current_file p < scroll_offset p + (lines - 3) \<and> current_file p < max 1 (file_count p) \<and>
    file_count p \<le> int (length (files p))"
  using fm_reach_wf [OF assms(1,2)] assms(3) by (auto simp: fm_wf_def panel_wf_def)

theorem fm_cursor_witness:
  "\<exists>t. fm_keys ex_os 30 [Key_down, Tab] ex_fm = Inr t \<and> current_file (panels t ! 0) = 1 \<and>
     current_file (panels t ! 0) < scroll_offset (panels t ! 0) + 27"
proof -
  obtain t where t: "fm_keys ex_os 30 [Key_down, Tab] ex_fm = Inr t" "current_file (panels t ! 0) = 1"
      "length (panels t) = 2"
    by (simp add: ex_fm_def fm_step_def handle_navigation_def key_down_def ex_panel_def zero_panel_def Let_def)
  then have "panels t ! 0 \<in> set (panels t)" by (intro nth_mem) simp
  then have "current_file (panels t ! 0) < scroll_offset (panels t ! 0) + 27"
    using fm_cursor [OF ex_start t(1)] by simp
  then show ?thesis using t(1,2) by blast
qed

text \<open>
  C12: after any keys, each panel draws one row in reverse video, the entry under its cursor, if it is the
  active panel and its listing is not empty, and none otherwise.
\<close>

theorem fm_highlight:
  assumes "fm_start os d cols lines = Inr s" and "fm_keys os lines ks s = Inr t" and "i < 2"
  shows "filter (\<lambda>(c, A). Reverse \<in> A)
      (styled (display_panel i (active_panel t) (panels t ! i) x y width (lines - 3)) {}) =
    (let p = panels t ! i in
     if i = active_panel t \<and> 0 < file_count p
     then [(row_text p x y (nat (current_file p - scroll_offset p)), {Reverse})] else [])"
proof -
  have wf: "panel_wf (lines - 3) (panels t ! i)"
    using fm_reach_wf [OF assms(1,2)] assms(3) by (auto simp: fm_wf_def)
  then have "current_file (panels t ! i) < file_count (panels t ! i) \<longleftrightarrow> 0 < file_count (panels t ! i)"
    by (auto simp: panel_wf_def)
  then show ?thesis using styled_panel [OF wf] by (simp add: Let_def)
qed

theorem fm_highlight_witness:
  "\<exists>t. fm_keys ex_os 30 [Key_down] ex_fm = Inr t \<and>
     filter (\<lambda>(c, A). Reverse \<in> A) (styled (display_panel 0 (active_panel t) (panels t ! 0) 1 2 58 27) {}) =
       [(File_row 3 1 ''b'' 3, {Reverse})]"
proof -
  obtain t where t: "fm_keys ex_os 30 [Key_down] ex_fm = Inr t" "active_panel t = 0"
      "panels t ! 0 = (ex_panel ''r'')\<lparr>current_file := 1\<rparr>"
    by (simp add: ex_fm_def fm_step_def handle_navigation_def key_down_def ex_panel_def zero_panel_def Let_def)
  have "row_text ((ex_panel ''r'')\<lparr>current_file := 1\<rparr>) 1 2 1 = File_row 3 1 ''b'' 3"
    by (simp add: row_text_def ex_panel_def zero_panel_def file_of_def snprintf_def)
  then show ?thesis
    using fm_highlight [OF ex_start t(1), of 0 1 2 58] t by (simp add: ex_panel_def zero_panel_def)
qed

text \<open>
  C13: how the program can end, from its start on: with 1 when the terminal is too small; with 0 at the
  key for leaving; by writing past the array of entries, which takes a directory with more than
  \<open>MAX_FILES\<close> names. Otherwise it runs on: the terminal is large enough and nobody has pressed q.
\<close>

theorem fm_stops:
  "case fm_main os d cols lines ks of
     Inl e \<Rightarrow> e = Exit 1 \<and> (cols < MIN_WIDTH \<or> lines < MIN_HEIGHT) \<or>
       MIN_WIDTH \<le> cols \<and> MIN_HEIGHT \<le> lines \<and>
         (e = Exit 0 \<and> Quit \<in> set ks \<or>
          e = Write_Overflow \<and> (\<exists>path ns. list_dir os path = Some ns \<and> MAX_FILES < length ns))
   | Inr t \<Rightarrow> MIN_WIDTH \<le> cols \<and> MIN_HEIGHT \<le> lines \<and> Quit \<notin> set ks"
proof (cases "fm_start os d cols lines")
  case (Inl e)
  have "length (files (getcwd d zero_panel)) = MAX_FILES" by (simp add: zero_panel_def)
  with Inl show ?thesis
    by (auto simp: fm_main_def fm_start_def check_terminal_size_def Let_def cbind_eq_Inl list_files_eq
        not_less not_le split: if_splits option.splits)
next
  case (Inr s)
  then have "MIN_WIDTH \<le> cols" "MIN_HEIGHT \<le> lines" "fm_main os d cols lines ks = fm_keys os lines ks s"
    by (auto simp: fm_start_def fm_main_def check_terminal_size_def split: if_splits)
  then show ?thesis using fm_keys_ends [OF fm_start_wf [OF Inr], where os = os and ks = ks] by (auto split: sum.splits)
qed

theorem fm_stops_witness:
  "fm_main ex_os ''r'' 120 30 [Key_down, Quit] = Inl (Exit 0) \<and>
   fm_main ex_os ''r'' 79 30 [Quit] = Inl (Exit 1)"
proof -
  have "fm_main ex_os ''r'' 120 30 [Key_down, Quit] = Inl (Exit 0)"
    by (simp add: fm_main_def ex_start) (simp add: ex_fm_def fm_step_def handle_navigation_def)
  moreover have "\<exists>e. fm_main ex_os ''r'' 79 30 [Quit] = Inl e"
    by (simp add: fm_main_def fm_start_def check_terminal_size_def MIN_WIDTH_def MIN_HEIGHT_def)
  ultimately show ?thesis
    using fm_stops [where os = ex_os and d = "''r''" and cols = 79 and lines = 30 and ks = "[Quit]"] by (auto simp: MIN_WIDTH_def)
qed

text \<open>
  Both panels share the directory of the process: when the second panel enters a directory of its
  listing after the first one has moved, the name is looked up where the first panel is now, and not
  in the directory the second panel shows.
\<close>

theorem fm_panels_share_cwd:
  assumes "fm_start os d cols lines = Inr s" and "f = files (panels s ! 1) ! 0" and "is_dir f"
    and "chdir_from os d (file_name f) = Some e" and "chdir_from os e (file_name f) = Some g"
    and "length g < PATH_SIZE" and "fm_keys os lines [Enter, Tab] s = Inr u"
    and "fm_keys os lines [Enter] u = Inr t"
  shows "panels u ! 1 = panels s ! 1 \<and> current_path (panels t ! 1) = g"
proof -
  obtain p where s: "s = \<lparr>panels = [p, p], active_panel = 0, cwd = d\<rparr>"
    using assms(1) by (auto simp: fm_start_def Let_def)
  have p: "length (files p) = MAX_FILES" "0 \<le> file_count p" "file_count p \<le> int MAX_FILES"
    "current_file p = 0" "files p ! 0 = f"
    using assms(1,2) list_files_wf [where p = "getcwd d zero_panel"]
    by (auto simp: fm_start_def Let_def s zero_panel_def)
  obtain q where u: "u = \<lparr>panels = [q, p], active_panel = 1, cwd = e\<rparr>"
    using assms(3,4,7) p by (auto simp: s fm_step_def handle_navigation_def enter_def Let_def split: if_splits)
  obtain r where t: "t = \<lparr>panels = [q, r], active_panel = 1, cwd = g\<rparr>" "current_path r = g"
    using assms(3,5,6,8) p list_files_wf [where p = "getcwd g p" and path = g]
    by (auto simp: u fm_step_def handle_navigation_def enter_def Let_def getcwd_def split: if_splits)
  show ?thesis by (simp add: s u t)
qed

theorem fm_panels_share_cwd_witness:
  "\<exists>u t. fm_keys ex_os 30 [Enter, Tab] ex_fm = Inr u \<and> fm_keys ex_os 30 [Enter] u = Inr t \<and>
     current_path (panels u ! 1) = ''r'' \<and> current_path (panels t ! 1) = ''r/a/a''"
proof -
  have u: "fm_keys ex_os 30 [Enter, Tab] ex_fm =
      Inr \<lparr>panels = [ex_panel ''r/a'', ex_panel ''r''], active_panel = 1, cwd = ''r/a''\<rparr>" (is "_ = Inr ?u")
    by (simp add: ex_fm_def fm_step_def handle_navigation_def ex_enter)
  obtain t where t: "fm_keys ex_os 30 [Enter] ?u = Inr t"
    by (simp add: fm_step_def handle_navigation_def enter_def ex_panel_def ex_is_dir ex_list getcwd_def
        PATH_SIZE_def zero_panel_def MAX_FILES_def Let_def)
  have "panels ?u ! 1 = panels ex_fm ! 1 \<and> current_path (panels t ! 1) = ''r/a/a''"
    by (rule fm_panels_share_cwd [OF ex_start refl _ _ _ _ u t, of "''r/a''"])
      (simp_all add: ex_fm_def ex_panel_def ex_is_dir PATH_SIZE_def)
  moreover have "current_path (panels ?u ! 1) = ''r''" by (simp add: ex_panel_def)
  ultimately show ?thesis using u t by blast
qed

end
