(* ===== verification/Packets.thy ===== *)
theory Packets
  imports Prelude
begin

unbundle bit_operations_syntax

text \<open>
  The programs on raw sockets: the sniffer of \<open>sockets/hw4/sniffer.c\<close> and the senders of
  \<open>sockets/hw5/client.c\<close> (a UDP header), \<open>sockets/hw6/client.c\<close> (UDP and IP headers) and
  \<open>sockets/hw7/client.c\<close> (UDP, IP and Ethernet headers). A buffer is a list of bytes; one that
  the program has not initialised has arbitrary content, an argument of the definitions. The
  kernel's side, whether a socket can be had, whether \<open>sendto\<close> succeeds and what \<open>recvfrom\<close>
  brings, is an argument, too.
\<close>

section \<open>Bytes and headers\<close>

type_synonym byte = "8 word"

text \<open>\<open>htons\<close> as bytes in memory; \<open>ntohs\<close> back.\<close>

definition be16 :: "16 word \<Rightarrow> byte list" where
  "be16 w = [ucast (drop_bit 8 w), ucast w]"

definition ntohs :: "byte \<Rightarrow> byte \<Rightarrow> nat" where
  "ntohs hi lo = 256 * unat hi + unat lo"

text \<open>An \<open>unsigned short\<close> in memory on a little-endian machine.\<close>

definition le16 :: "byte \<Rightarrow> byte \<Rightarrow> nat" where
  "le16 lo hi = unat lo + 256 * unat hi"

definition le16_bytes :: "16 word \<Rightarrow> byte list" where
  "le16_bytes w = [ucast w, ucast (drop_bit 8 w)]"

text \<open>
  Assignments through a pointer into a buffer: bytes at an offset, or a bit field of a byte, whose
  other bits the mask keeps.
\<close>

datatype assign = Bytes nat "byte list" | Bits nat byte byte

definition put_at :: "nat \<Rightarrow> byte list \<Rightarrow> byte list \<Rightarrow> byte list" where
  "put_at off bs b = take off b @ bs @ drop (off + length bs) b"

fun assign1 :: "assign \<Rightarrow> byte list \<Rightarrow> byte list c" where
  "assign1 (Bytes off bs) b =
     (if off + length bs \<le> length b then Inr (put_at off bs b) else Inl Write_Overflow)"
| "assign1 (Bits off keep v) b =
     (if off < length b then Inr (b[off := (b ! off AND keep) OR v]) else Inl Write_Overflow)"

fun assigns :: "assign list \<Rightarrow> byte list \<Rightarrow> byte list c" where
  "assigns [] b = Inr b"
| "assigns (a # as) b = cbind (assign1 a b) (assigns as)"

definition bytes_of :: "string \<Rightarrow> byte list" where
  "bytes_of s = map of_char s"

definition HELLO :: string where "HELLO = ''Hello from raw socket!''"

definition SOURCE_PORT :: "16 word" where "SOURCE_PORT = 12345"

definition SERVER_PORT :: "16 word" where "SERVER_PORT = 8080"

definition SERVER_IP :: "byte list" where "SERVER_IP = [192, 168, 1, 41]"

definition CLIENT_IP :: "byte list" where "CLIENT_IP = [192, 168, 1, 37]"

definition SRC_MAC :: "byte list" where "SRC_MAC = [0x08, 0x00, 0x27, 0x16, 0xA3, 0x3C]"

definition DST_MAC :: "byte list" where "DST_MAC = [0x08, 0x00, 0x27, 0x68, 0xA4, 0x38]"

text \<open>The bytes a call of \<open>sendto\<close> with length \<open>n\<close> hands to the kernel.\<close>

definition send_bytes :: "nat \<Rightarrow> byte list \<Rightarrow> byte list c" where
  "send_bytes n b = (if n \<le> length b then Inr (take n b) else Inl Read_Overflow)"

text \<open>\<open>recvfrom\<close> overwrites the front of the buffer with as much of the datagram as fits.\<close>

definition recv_bytes :: "byte list \<Rightarrow> byte list \<Rightarrow> byte list" where
  "recv_bytes d b = take (length b) d @ drop (length d) b"

text \<open>\<open>printf("%s")\<close> from an offset on.\<close>

definition print_at :: "nat \<Rightarrow> byte list \<Rightarrow> byte list c" where
  "print_at off b = (if 0 \<in> set (drop off b) then Inr (takeWhile (\<lambda>x. x \<noteq> 0) (drop off b))
     else Inl Read_Overflow)"

section \<open>The senders\<close>

text \<open>What the three \<open>main\<close> functions print.\<close>

datatype notice = Socket_failed | No_interface | Send_failed | Packet_sent | Receive_failed | Received "byte list"

record kernel =
  socket_ok :: bool
  send_ok :: bool
  incoming :: "byte list option"

text \<open>From \<open>sendto\<close> to the end: the packet sent and the notes printed.\<close>

definition exchange :: "kernel \<Rightarrow> byte list \<Rightarrow> byte list \<Rightarrow> nat \<Rightarrow> (byte list \<times> notice list) c" where
  "exchange K p buffer off =
     (let n1 = (if send_ok K then Packet_sent else Send_failed) in
      case incoming K of
        None \<Rightarrow> Inr (p, [n1, Receive_failed])
      | Some d \<Rightarrow> cbind (print_at off (recv_bytes d buffer)) (\<lambda>s. Inr (p, [n1, Received s])))"

text \<open>\<open>strcpy(data, HELLO)\<close> and the UDP header, at the offset of that header.\<close>

definition udp_fields :: "nat \<Rightarrow> assign list" where
  "udp_fields u =
     [Bytes (u + 8) (bytes_of HELLO @ [0]), Bytes u (be16 SOURCE_PORT), Bytes (u + 2) (be16 SERVER_PORT),
      Bytes (u + 4) (be16 (8 + of_nat (length HELLO))), Bytes (u + 6) [0, 0]]"

definition hw5_packet :: "byte list \<Rightarrow> byte list c" where
  "hw5_packet junk = cbind (assigns (udp_fields 0) junk) (send_bytes (8 + length HELLO))"

definition hw5_main :: "kernel \<Rightarrow> byte list \<Rightarrow> byte list \<Rightarrow> (byte list \<times> notice list) c" where
  "hw5_main K packet buffer =
     (if \<not> socket_ok K then Inl (Exit 1)
      else cbind (hw5_packet packet) (\<lambda>p. exchange K p buffer (20 + 8)))"

text \<open>The assignments to the IP header of \<open>hw6\<close>, at offset 0.\<close>

definition hw6_ip_fields :: "assign list" where
  "hw6_ip_fields =
     [Bits 0 0x0F 0x40, Bits 0 0xF0 5, Bytes 9 [17], Bytes 2 (be16 (20 + 8 + 1024)), Bytes 10 [0, 0],
      Bytes 6 [0, 0], Bytes 4 [0, 0], Bytes 8 [255], Bytes 1 [0], Bytes 12 CLIENT_IP, Bytes 16 SERVER_IP]"

definition hw6_packet :: "byte list \<Rightarrow> byte list c" where
  "hw6_packet junk =
     cbind (assigns (take 1 (udp_fields 20) @ hw6_ip_fields @ drop 1 (udp_fields 20)) junk)
       (send_bytes (20 + 8 + 1024))"

definition hw6_main :: "kernel \<Rightarrow> byte list \<Rightarrow> byte list \<Rightarrow> (byte list \<times> notice list) c" where
  "hw6_main K packet buffer =
     (if \<not> socket_ok K then Inl (Exit 1)
      else cbind (hw6_packet packet) (\<lambda>p. exchange K p buffer (20 + 8)))"

section \<open>The checksum of \<open>hw7\<close>\<close>

text \<open>The loop over ten \<open>unsigned short\<close>s, from an offset of the buffer on.\<close>

fun sum_loop :: "byte list \<Rightarrow> nat \<Rightarrow> nat \<Rightarrow> nat \<Rightarrow> nat c" where
  "sum_loop b off 0 csum = Inr csum"
| "sum_loop b off (Suc n) csum =
     (if off + 1 < length b then sum_loop b (off + 2) n (csum + le16 (b ! off) (b ! (off + 1)))
      else Inl Read_Overflow)"

text \<open>The loop that adds the carries: \<open>while ((tmp = csum >> 16)) csum = (csum & 0xFFFF) + tmp\<close>.\<close>

function fold_carries :: "nat \<Rightarrow> nat" where
  "fold_carries csum = (if csum div 65536 \<noteq> 0 then fold_carries (csum mod 65536 + csum div 65536) else csum)"
  by pat_completeness auto
termination
proof (relation "measure id")
  fix csum :: nat
  assume "csum div 65536 \<noteq> 0"
  then have "csum div 65536 < 65536 * (csum div 65536)" by simp
  then have "csum mod 65536 + csum div 65536 < csum"
    by (metis add.commute add_less_cancel_left mod_mult_div_eq)
  then show "(csum mod 65536 + csum div 65536, csum) \<in> measure id" by simp
qed simp

declare fold_carries.simps [simp del]

definition checksum :: "byte list \<Rightarrow> nat \<Rightarrow> 16 word c" where
  "checksum b off = cbind (sum_loop b off 10 0) (\<lambda>csum. Inr (NOT (of_nat (fold_carries csum))))"

text \<open>The frame: the assignments before the checksum, its storing, and those after it.\<close>

definition hw7_before :: "assign list" where
  "hw7_before =
     [Bytes 0 DST_MAC, Bytes 6 SRC_MAC, Bytes 12 (be16 0x0800),
      Bits 14 0x0F 0x40, Bits 14 0xF0 5, Bytes 23 [17], Bytes 16 (be16 (20 + 8 + 100)),
      Bytes 20 [0, 0], Bytes 22 [255], Bytes 15 [0], Bytes 26 CLIENT_IP, Bytes 30 SERVER_IP]"

definition hw7_after :: "assign list" where
  "hw7_after =
     [Bytes 34 (be16 SOURCE_PORT), Bytes 36 (be16 SERVER_PORT), Bytes 38 (be16 (8 + 100)), Bytes 40 [0, 0],
      Bytes 42 (bytes_of HELLO @ replicate (100 - length HELLO) 0)]"

definition hw7_frame :: "byte list \<Rightarrow> byte list c" where
  "hw7_frame junk =
     cbind (assigns hw7_before junk) (\<lambda>b.
     cbind (checksum b 14) (\<lambda>c.
     cbind (assigns (Bytes 24 (le16_bytes c) # hw7_after) b) (send_bytes (14 + 20 + 8 + 100))))"

definition hw7_main :: "kernel \<Rightarrow> bool \<Rightarrow> byte list \<Rightarrow> byte list \<Rightarrow> (byte list \<times> notice list) c" where
  "hw7_main K has_interface buffer recv_buffer =
     (if \<not> socket_ok K then Inl (Exit 1)
      else cbind (hw7_frame buffer) (\<lambda>p. cbind (exchange K p recv_buffer (14 + 20 + 8)) (\<lambda>(p, ns).
        Inr (p, (if has_interface then [] else [No_interface]) @ ns))))"

section \<open>The sniffer\<close>

definition BUFFER_SIZE :: nat where "BUFFER_SIZE = 100"

text \<open>One character of the output: \<open>char\<close> is signed.\<close>

definition shown :: "byte \<Rightarrow> byte" where
  "shown x = (if 32 \<le> sint x \<and> sint x \<le> 126 then x else 46)"

text \<open>The loop \<open>for (int i = 0; i < packet_size; i++)\<close> over \<open>data[i]\<close>, \<open>data\<close> being at offset 28.\<close>

function show_data :: "byte list \<Rightarrow> 64 word \<Rightarrow> nat \<Rightarrow> byte list c" where
  "show_data b n i =
     (if of_nat i < n then
        if 28 + i < length b then cbind (show_data b n (Suc i)) (\<lambda>s. Inr (shown (b ! (28 + i)) # s))
        else Inl Read_Overflow
      else Inr [])"
  by pat_completeness auto
termination by (relation "measure (\<lambda>(b, n, i). length b - i)") auto

declare show_data.simps [simp del]

record report =
  source_ip :: "byte list"
  destination_ip :: "byte list"
  packet_size :: "64 word"
  packet_data :: "byte list"

text \<open>One round of the loop, after \<open>recvfrom\<close> has filled the buffer.\<close>

definition sniff :: "byte list \<Rightarrow> report c" where
  "sniff b =
     (let u = unat (b ! 0 AND 0x0F) * 4;
          n = (of_nat (ntohs (b ! (u + 4)) (b ! (u + 5))) :: 64 word) - 8
      in if u + 5 < length b
         then cbind (show_data b n 0) (\<lambda>s. Inr \<lparr>source_ip = take 4 (drop 12 b),
                destination_ip = take 4 (drop 16 b), packet_size = n, packet_data = s\<rparr>)
         else Inl Read_Overflow)"

text \<open>
  \<open>main\<close>: the datagrams that arrive, \<open>None\<close> for a \<open>recvfrom\<close> that fails, and the reports so far.
\<close>

fun sniff_loop :: "byte list option list \<Rightarrow> byte list \<Rightarrow> report list \<Rightarrow> report list c" where
  "sniff_loop [] b rs = Inr rs"
| "sniff_loop (None # ds) b rs = Inl (Exit 1)"
| "sniff_loop (Some d # ds) b rs =
     cbind (sniff (recv_bytes d b)) (\<lambda>r. sniff_loop ds (recv_bytes d b) (rs @ [r]))"

definition sniffer_main :: "bool \<Rightarrow> byte list option list \<Rightarrow> byte list \<Rightarrow> report list c" where
  "sniffer_main opened ds buffer = (if opened then sniff_loop ds buffer [] else Inl (Exit 1))"

section \<open>The one's complement sum\<close>

lemma fold_carries_bound: "fold_carries n < 65536"
proof (induction n rule: fold_carries.induct)
  case (1 n)
  then show ?case by (subst fold_carries.simps) auto
qed

lemma mod_65535_carry: "(n mod 65536 + n div 65536) mod 65535 = n mod (65535::nat)"
proof -
  have "n = n mod 65536 + n div 65536 + 65535 * (n div 65536)"
    using div_mult_mod_eq [of n 65536] by simp
  then show ?thesis by (metis mod_mult_self2)
qed

lemma fold_carries_mod: "fold_carries n mod 65535 = n mod 65535"
proof (induction n rule: fold_carries.induct)
  case (1 n)
  then show ?case using mod_65535_carry [of n] by (subst fold_carries.simps) auto
qed

lemma fold_carries_0: "fold_carries n = 0 \<longleftrightarrow> n = 0"
proof (induction n rule: fold_carries.induct)
  case (1 n)
  have "n mod 65536 + n div 65536 = 0 \<longleftrightarrow> n = 0" by (auto simp: div_eq_0_iff)
  with 1 show ?case by (subst fold_carries.simps) auto
qed

lemma fold_carries_full: "fold_carries n = 65535 \<longleftrightarrow> 0 < n \<and> n mod 65535 = 0"
proof -
  have "fold_carries n = 65535 \<longleftrightarrow> fold_carries n \<noteq> 0 \<and> fold_carries n mod 65535 = 0"
    using fold_carries_bound [of n] by (auto elim!: dvdE simp: mod_eq_0_iff_dvd)
  then show ?thesis by (simp add: fold_carries_0 fold_carries_mod)
qed

text \<open>What a receiver checks: the sum over the whole header, checksum included, has all bits set.\<close>

definition header_ok :: "byte list \<Rightarrow> nat \<Rightarrow> bool" where
  "header_ok b off \<longleftrightarrow> (\<exists>s. sum_loop b off 10 0 = Inr s \<and> fold_carries s = 65535)"

definition word_at :: "byte list \<Rightarrow> nat \<Rightarrow> nat" where
  "word_at b i = le16 (b ! i) (b ! (i + 1))"

lemma sum_loop_eq:
  "off + 2 * n \<le> length b \<Longrightarrow> sum_loop b off n s = Inr (s + (\<Sum>k<n. word_at b (off + 2 * k)))"
proof (induction n arbitrary: off s)
  case 0
  then show ?case by simp
next
  case (Suc n)
  have "(\<Sum>k<Suc n. word_at b (off + 2 * k)) = word_at b off + (\<Sum>k<n. word_at b (off + 2 + 2 * k))"
    by (subst sum.lessThan_Suc_shift) (simp add: add_ac)
  with Suc show ?case by (simp add: word_at_def)
qed

lemma le16_bytes: "le16_bytes w = [x, y] \<Longrightarrow> le16 x y = unat w"
proof -
  assume "le16_bytes w = [x, y]"
  then have x: "x = ucast w" and y: "y = ucast (drop_bit 8 w)" by (auto simp: le16_bytes_def)
  have "unat x = unat w mod 256" by (simp add: x unsigned_ucast_eq take_bit_eq_mod)
  moreover have d: "unat (drop_bit 8 w) = unat w div 256"
    by (simp only: unat_drop_bit_eq) (simp add: drop_bit_eq_div)
  moreover have "unat y = unat w div 256"
    using unat_bound [of w] by (simp only: y unsigned_ucast_eq d) (simp add: take_bit_eq_mod)
  ultimately show ?thesis by (simp add: le16_def)
qed

lemma le16_extremes:
  "le16 x y = 0 \<longleftrightarrow> x = 0 \<and> y = 0" "le16 x y = 65535 \<longleftrightarrow> x = 255 \<and> y = 255"
proof -
  show "le16 x y = 0 \<longleftrightarrow> x = 0 \<and> y = 0" by (simp add: le16_def unat_eq_zero)
  have "unat x < 256" "unat y < 256" using unat_bound [of x] unat_bound [of y] by simp_all
  then have "le16 x y = 65535 \<longleftrightarrow> unat x = 255 \<and> unat y = 255"
    unfolding le16_def by (cases "unat y = 255") auto
  then show "le16 x y = 65535 \<longleftrightarrow> x = 255 \<and> y = 255" by (simp add: word_unat_eq_iff)
qed

lemma unat_not16: "unat (NOT w) = 65535 - unat w" for w :: "16 word"
proof -
  have "NOT w = -1 - w" by (simp add: not_eq_complement)
  then show ?thesis by (simp add: unat_sub word_order.extremum unsigned_minus_1_eq_mask mask_eq_exp_minus_1)
qed

lemma put_at_length [simp]: "off + length bs \<le> length b \<Longrightarrow> length (put_at off bs b) = length b"
  by (simp add: put_at_def)

lemma put_at_nth:
  "off + length bs \<le> length b \<Longrightarrow> i < length b \<Longrightarrow>
   put_at off bs b ! i = (if off \<le> i \<and> i < off + length bs then bs ! (i - off) else b ! i)"
  by (auto simp: put_at_def nth_append)

text \<open>
  Storing the checksum: the header is right exactly when the two bytes it goes to were zero (in one's
  complement) while it was computed.
\<close>

lemma checksum_stored:
  assumes len: "off + 20 \<le> length b" and nz: "b ! off \<noteq> 0" and c: "checksum b off = Inr w"
  shows "header_ok (put_at (off + 10) (le16_bytes w) b) off \<longleftrightarrow> word_at b (off + 10) \<in> {0, 65535}"
proof -
  let ?b = "put_at (off + 10) (le16_bytes w) b"
  define k where "k = word_at b (off + 10)"
  define R where "R = (\<Sum>i \<in> {..<10} - {5}. word_at b (off + 2 * i))"
  have split: "(\<Sum>i<10. f i) = f 5 + (\<Sum>i \<in> {..<10} - {5}. f i)" for f :: "nat \<Rightarrow> nat"
    by (subst sum.remove [of _ 5]) simp_all
  have S: "sum_loop b off 10 0 = Inr (k + R)"
    using len by (simp add: sum_loop_eq split k_def R_def)
  have w: "w = NOT (of_nat (fold_carries (k + R)))" using c by (simp add: checksum_def S)
  have uw: "unat w = 65535 - fold_carries (k + R)"
    using fold_carries_bound [of "k + R"] by (simp add: w unat_not16 unsigned_of_nat take_bit_eq_mod)
  obtain x y where xy: "le16_bytes w = [x, y]" by (simp add: le16_bytes_def)
  have "word_at ?b (off + 2 * i) = word_at b (off + 2 * i)" if "i \<noteq> 5" "i < 10" for i
    using len that by (auto simp: word_at_def put_at_nth xy)
  then have "(\<Sum>i \<in> {..<10} - {5}. word_at ?b (off + 2 * i)) = R" by (simp add: R_def)
  moreover have "word_at ?b (off + 2 * 5) = unat w"
    using len by (simp add: word_at_def put_at_nth xy le16_bytes [OF xy])
  ultimately have S': "sum_loop ?b off 10 0 = Inr (unat w + R)"
    using len xy by (simp add: sum_loop_eq split)
  have R: "0 < R"
  proof -
    have "0 < word_at b (off + 2 * 0)" using nz by (simp add: word_at_def le16_def unat_gt_0)
    then show ?thesis
      unfolding R_def by (intro sum_pos2 [of _ 0]) simp_all
  qed
  have k: "k < 65536"
    using unat_bound [of "b ! (off + 10)"] unat_bound [of "b ! (off + 10 + 1)"]
    by (simp add: k_def word_at_def le16_def)
  have f: "fold_carries (k + R) mod 65535 = (k + R) mod 65535" "fold_carries (k + R) \<le> 65535"
    using fold_carries_mod fold_carries_bound [of "k + R"] by simp_all
  have "header_ok ?b off \<longleftrightarrow> 0 < unat w + R \<and> (unat w + R) mod 65535 = 0"
    by (simp add: header_ok_def S' fold_carries_full)
  also have "(unat w + R) mod 65535 = 0 \<longleftrightarrow> 65535 dvd k"
  proof -
    have "int (fold_carries (k + R)) mod 65535 = int (k + R) mod 65535"
      using f(1) by (metis of_nat_mod of_nat_numeral)
    then obtain m where "int (k + R) = int (fold_carries (k + R)) + 65535 * m" by (elim mod_eqE)
    then have "int (unat w + R) = 65535 * (m + 1) - int k" using f(2) by (simp add: uw of_nat_diff)
    then have "65535 dvd int (unat w + R) \<longleftrightarrow> 65535 dvd int k"
      by (metis dvd_diff_right_iff dvd_triv_left)
    then show ?thesis by (metis mod_eq_0_iff_dvd of_nat_dvd_iff of_nat_numeral)
  qed
  also have "65535 dvd k \<longleftrightarrow> k \<in> {0, 65535}" using k by (auto elim!: dvdE)
  finally show ?thesis using R by (simp add: k_def)
qed

section \<open>The frame of \<open>hw7\<close>\<close>

text \<open>Assignments keep the length, and the bytes at places none of them names.\<close>

fun places :: "assign \<Rightarrow> nat set" where
  "places (Bytes off bs) = {off ..< off + length bs}"
| "places (Bits off keep v) = {off}"

lemma assign1_frame:
  "assign1 a b = Inr b' \<Longrightarrow> length b' = length b \<and> (\<forall>i. i \<notin> places a \<longrightarrow> i < length b \<longrightarrow> b' ! i = b ! i)"
  by (cases a) (auto simp: put_at_nth split: if_splits)

lemma assigns_frame:
  "assigns as b = Inr b' \<Longrightarrow>
   length b' = length b \<and> (\<forall>i. (\<forall>a \<in> set as. i \<notin> places a) \<longrightarrow> i < length b \<longrightarrow> b' ! i = b ! i)"
proof (induction as arbitrary: b)
  case Nil
  then show ?case by simp
next
  case (Cons a as)
  then obtain c where "assign1 a b = Inr c" "assigns as c = Inr b'" by auto
  with Cons.IH [of c] assign1_frame [of a b c] show ?case by auto
qed

lemma assigns_total:
  "(\<forall>a \<in> set as. places a \<subseteq> {..<length b} \<and> places a \<noteq> {}) \<Longrightarrow> \<exists>b'. assigns as b = Inr b'"
proof (induction as arbitrary: b)
  case Nil
  then show ?case by simp
next
  case (Cons a as)
  have "\<exists>c. assign1 a b = Inr c"
    using Cons.prems by (cases a) (auto simp: lessThan_atLeast0)
  then obtain c where c: "assign1 a b = Inr c" by blast
  with Cons.IH [of c] Cons.prems assign1_frame [OF c] show ?case by auto
qed

lemma HELLO_length: "length HELLO = 22"
  by (simp add: HELLO_def)

lemma bytes_of_length [simp]: "length (bytes_of s) = length s"
  by (simp add: bytes_of_def)

lemmas field_lengths = be16_def le16_bytes_def SERVER_IP_def CLIENT_IP_def SRC_MAC_def DST_MAC_def
  HELLO_length

lemma be16_length [simp]: "length (be16 w) = 2"
  by (simp add: be16_def)

lemma assigns_append: "assigns (as @ bs) b = cbind (assigns as b) (assigns bs)"
proof (induction as arbitrary: b)
  case (Cons a as)
  then have "assigns (as @ bs) = (\<lambda>x. cbind (assigns as x) (assigns bs))" by blast
  then show ?case by (simp add: cbind_assoc)
qed simp

lemma hw7_frame_steps:
  assumes "length junk = 142"
  obtains b where "assigns hw7_before junk = Inr b" "length b = 142" "b ! 14 AND 0x0F = 5"
    "b ! 24 = junk ! 24" "b ! 25 = junk ! 25"
proof -
  have "\<exists>b. assigns hw7_before junk = Inr b"
    using assms by (intro assigns_total) (auto simp: hw7_before_def field_lengths)
  then obtain b where b: "assigns hw7_before junk = Inr b" by blast
  have l: "length b = 142" "b ! 24 = junk ! 24" "b ! 25 = junk ! 25"
    using assigns_frame [OF b] assms by (simp_all add: hw7_before_def field_lengths)
  have split: "take 4 hw7_before @ Bits 14 0xF0 5 # drop 5 hw7_before = hw7_before"
    by (simp add: hw7_before_def)
  have "assigns (take 4 hw7_before @ Bits 14 0xF0 5 # drop 5 hw7_before) junk = Inr b"
    unfolding split by (rule b)
  then obtain u where u: "assigns (take 4 hw7_before) junk = Inr u"
      "assigns (Bits 14 0xF0 5 # drop 5 hw7_before) u = Inr b"
    unfolding assigns_append cbind_eq_Inr by blast
  have "length u = 142" using assigns_frame [OF u(1)] assms by simp
  with u(2) have v: "assigns (drop 5 hw7_before) (u[14 := (u ! 14 AND 0xF0) OR 5]) = Inr b" by simp
  have "b ! 14 = (u ! 14 AND 0xF0) OR 5"
    using assigns_frame [OF v] \<open>length u = 142\<close> by (simp add: hw7_before_def field_lengths)
  then have "b ! 14 AND 0x0F = 5" by (simp add: bit.conj_disj_distrib2 and.assoc)
  with b l that show thesis by blast
qed

lemma hw7_after_steps:
  assumes "length c = 142"
  obtains f where "assigns hw7_after c = Inr f" "length f = 142" "\<And>i. i < 34 \<Longrightarrow> f ! i = c ! i"
    "f ! 38 = 0" "f ! 39 = 108"
proof -
  have "\<exists>f. assigns hw7_after c = Inr f"
    using assms by (intro assigns_total) (auto simp: hw7_after_def field_lengths)
  then obtain f where f: "assigns hw7_after c = Inr f" by blast
  have fr: "length f = 142" "i < 34 \<Longrightarrow> f ! i = c ! i" for i
    using assigns_frame [OF f] assms by (auto simp: hw7_after_def field_lengths)
  have split: "take 2 hw7_after @ Bytes 38 (be16 (8 + 100)) # drop 3 hw7_after = hw7_after"
    by (simp add: hw7_after_def)
  have "assigns (take 2 hw7_after @ Bytes 38 (be16 (8 + 100)) # drop 3 hw7_after) c = Inr f"
    unfolding split by (rule f)
  then obtain u where u: "assigns (take 2 hw7_after) c = Inr u"
      "assigns (Bytes 38 (be16 (8 + 100)) # drop 3 hw7_after) u = Inr f"
    unfolding assigns_append cbind_eq_Inr by blast
  have l: "length u = 142" using assigns_frame [OF u(1)] assms by simp
  with u(2) have v: "assigns (drop 3 hw7_after) (put_at 38 (be16 (8 + 100)) u) = Inr f"
    by (simp add: be16_def)
  have "f ! i = put_at 38 (be16 (8 + 100)) u ! i" if "i \<in> {38, 39}" for i
    using that assigns_frame [OF v] l by (auto simp: hw7_after_def field_lengths)
  then have "f ! 38 = 0" "f ! 39 = 108" using l by (simp_all add: put_at_nth be16_def)
  with f fr that show thesis by blast
qed

lemma hw7_frame_sum:
  assumes "length junk = 142"
  shows "\<exists>f. hw7_frame junk = Inr f \<and> length f = 142 \<and> (header_ok f 14 \<longleftrightarrow> word_at junk 24 \<in> {0, 65535}) \<and>
    f ! 14 AND 0x0F = 5 \<and> f ! 38 = 0 \<and> f ! 39 = 108"
proof -
  obtain b where b: "assigns hw7_before junk = Inr b" "length b = 142" "b ! 14 AND 0x0F = 5"
      "b ! 24 = junk ! 24" "b ! 25 = junk ! 25"
    using hw7_frame_steps [OF assms] by blast
  have nz: "b ! 14 \<noteq> 0" using b(3) by auto
  obtain w where w: "checksum b 14 = Inr w" using b(2) by (simp add: checksum_def sum_loop_eq)
  let ?c = "put_at 24 (le16_bytes w) b"
  have c: "length ?c = 142" "?c ! 14 = b ! 14"
      "assigns (Bytes 24 (le16_bytes w) # hw7_after) b = assigns hw7_after ?c"
    using b(2) by (simp_all add: le16_bytes_def put_at_nth)
  obtain f where f: "assigns hw7_after ?c = Inr f" "length f = 142" "\<And>i. i < 34 \<Longrightarrow> f ! i = ?c ! i"
      "f ! 38 = 0" "f ! 39 = 108"
    using hw7_after_steps [OF c(1)] by blast
  have "(\<Sum>k<10. word_at f (14 + 2 * k)) = (\<Sum>k<10. word_at ?c (14 + 2 * k))"
    by (intro sum.cong) (simp_all add: word_at_def f(3))
  then have "header_ok f 14 \<longleftrightarrow> header_ok ?c 14"
    using f(2) c(1) by (simp add: header_ok_def sum_loop_eq)
  also have "\<dots> \<longleftrightarrow> word_at junk 24 \<in> {0, 65535}"
    using checksum_stored [of 14 b w] b nz w by (simp add: word_at_def)
  finally show ?thesis
    using b w c f f(3) [of 14] by (simp add: hw7_frame_def send_bytes_def le16_bytes_def)
qed

text \<open>The client of \<open>hw6\<close> passes a length to \<open>sendto\<close> that is longer than its buffer.\<close>

lemma hw6_overreads:
  assumes "length junk = 1024"
  shows "hw6_packet junk = Inl Read_Overflow"
proof -
  let ?as = "take 1 (udp_fields 20) @ hw6_ip_fields @ drop 1 (udp_fields 20)"
  have "\<exists>b. assigns ?as junk = Inr b"
    using assms by (intro assigns_total) (auto simp: udp_fields_def hw6_ip_fields_def field_lengths)
  then obtain b where b: "assigns ?as junk = Inr b" by blast
  then have "length b = 1024" using assigns_frame [OF b] assms by simp
  with b show ?thesis by (simp add: hw6_packet_def send_bytes_def)
qed

section \<open>What the sniffer shows\<close>

lemma show_data_eq:
  assumes "28 \<le> length b" and "length b < 2 ^ 63" and "i \<le> length b - 28"
  shows "show_data b n i = (if unat n \<le> length b - 28
    then Inr (map (\<lambda>k. shown (b ! (28 + k))) [i..<unat n]) else Inl Read_Overflow)"
  using assms(3)
proof (induction "length b - 28 - i" arbitrary: i)
  case 0
  then have i: "i = length b - 28" by simp
  then have "of_nat i < n \<longleftrightarrow> i < unat n"
    using assms(2) by (simp add: word_less_nat_alt unsigned_of_nat take_bit_nat_eq_self)
  then show ?case using i assms(1) by (subst show_data.simps) auto
next
  case (Suc m)
  then have i: "i < length b - 28" by simp
  then have "of_nat i < n \<longleftrightarrow> i < unat n"
    using assms(2) by (simp add: word_less_nat_alt unsigned_of_nat take_bit_nat_eq_self)
  moreover have "show_data b n (Suc i) = (if unat n \<le> length b - 28
    then Inr (map (\<lambda>k. shown (b ! (28 + k))) [Suc i..<unat n]) else Inl Read_Overflow)"
    using Suc i by (intro Suc.hyps(1)) auto
  ultimately show ?case using i by (subst show_data.simps) (auto simp: upt_conv_Cons)
qed

text \<open>The offset and the length field of the UDP header in a received datagram.\<close>

definition udp_offset :: "byte list \<Rightarrow> nat" where
  "udp_offset b = 4 * unat (b ! 0 AND 0x0F)"

definition udp_len :: "byte list \<Rightarrow> nat" where
  "udp_len b = ntohs (b ! (udp_offset b + 4)) (b ! (udp_offset b + 5))"

lemma udp_offset_bound: "udp_offset b \<le> 60"
proof -
  have "b ! 0 AND 0x0F = take_bit 4 (b ! 0)" by (simp add: take_bit_eq_mask mask_eq_exp_minus_1)
  then have "unat (b ! 0 AND 0x0F) = take_bit 4 (unat (b ! 0))" by (simp add: unsigned_take_bit_eq)
  moreover have "take_bit 4 (unat (b ! 0)) < 2 ^ 4" by (rule take_bit_nat_less_exp)
  ultimately show ?thesis by (simp add: udp_offset_def)
qed

lemma ntohs_bound: "ntohs x y < 65536"
  using unat_bound [of x] unat_bound [of y] by (simp add: ntohs_def)

lemma size_t_diff: "n < 65536 \<Longrightarrow> unat ((of_nat n :: 64 word) - 8) = (if 8 \<le> n then n - 8 else 2 ^ 64 - 8 + n)"
  by (auto simp: unat_sub_if_size word_size unsigned_of_nat take_bit_nat_eq_self word_le_nat_alt)

lemma sniff_eq:
  assumes "length b = BUFFER_SIZE"
  shows "sniff b = (if 8 \<le> udp_len b \<and> udp_len b \<le> 80
    then Inr \<lparr>source_ip = take 4 (drop 12 b), destination_ip = take 4 (drop 16 b),
      packet_size = of_nat (udp_len b - 8), packet_data = map shown (take (udp_len b - 8) (drop 28 b))\<rparr>
    else Inl Read_Overflow)"
proof -
  let ?n = "(of_nat (udp_len b) :: 64 word) - 8"
  have l: "length b = 100" using assms by (simp add: BUFFER_SIZE_def)
  have u: "unat ?n = (if 8 \<le> udp_len b then udp_len b - 8 else 2 ^ 64 - 8 + udp_len b)"
    by (rule size_t_diff) (simp add: udp_len_def ntohs_bound)
  have in_range: "udp_offset b + 5 < length b" using udp_offset_bound [of b] l by simp
  have "sniff b = cbind (show_data b ?n 0) (\<lambda>s. Inr \<lparr>source_ip = take 4 (drop 12 b),
      destination_ip = take 4 (drop 16 b), packet_size = ?n, packet_data = s\<rparr>)"
    using in_range by (simp add: sniff_def Let_def udp_len_def udp_offset_def mult.commute)
  moreover have "show_data b ?n 0 = (if unat ?n \<le> 72
    then Inr (map (\<lambda>k. shown (b ! (28 + k))) [0..<unat ?n]) else Inl Read_Overflow)"
    using show_data_eq [of b 0 ?n] l by simp
  moreover have "map (\<lambda>k. shown (b ! (28 + k))) [0..<n] = map shown (take n (drop 28 b))" if "n \<le> 72" for n
    using l that by (intro nth_equalityI) simp_all
  moreover have "unat ?n \<le> 72 \<longleftrightarrow> 8 \<le> udp_len b \<and> udp_len b \<le> 80" unfolding u by auto
  moreover have "8 \<le> udp_len b \<Longrightarrow> ?n = of_nat (udp_len b - 8)" by (simp add: of_nat_diff)
  ultimately show ?thesis by (auto simp: u)
qed

lemma put_at_append:
  "length pre = off \<Longrightarrow> length mid = length bs \<Longrightarrow> put_at off bs (pre @ mid @ post) = pre @ bs @ post"
  by (simp add: put_at_def)

lemma shown_HELLO: "map shown (bytes_of HELLO) = bytes_of HELLO"
  by (simp add: HELLO_def bytes_of_def shown_def)

lemma hw5_packet_eq:
  assumes "31 \<le> length junk"
  shows "hw5_packet junk = Inr (be16 SOURCE_PORT @ be16 SERVER_PORT @ be16 30 @ [0, 0] @ bytes_of HELLO)"
proof -
  obtain a b c d e r where j: "junk = a @ b @ c @ d @ e @ r"
      "length a = 2" "length b = 2" "length c = 2" "length d = 2" "length e = 23"
  proof -
    have "junk = take 2 junk @ take 2 (drop 2 junk) @ take 2 (drop 4 junk) @ take 2 (drop 6 junk) @
        take 23 (drop 8 junk) @ drop 31 junk"
      by (simp add: take_add [symmetric] flip: append_assoc)
    then show thesis using that assms by simp
  qed
  let ?t = "bytes_of HELLO @ [0]"
  have "put_at 8 ?t junk = a @ b @ c @ d @ ?t @ r"
    using put_at_append [of "a @ b @ c @ d" 8 e ?t r] j by (simp add: HELLO_length)
  moreover have "put_at 0 x (a @ b @ c @ d @ y) = x @ b @ c @ d @ y" if "length x = 2" for x y
    using put_at_append [of "[]" 0 a x] j that by simp
  moreover have "put_at 2 x (u @ b @ c @ d @ y) = u @ x @ c @ d @ y" if "length x = 2" "length u = 2" for x y u
    using put_at_append [of u 2 b x] j that by simp
  moreover have "put_at 4 x (u @ v @ c @ d @ y) = u @ v @ x @ d @ y"
    if "length x = 2" "length u = 2" "length v = 2" for x y u v
    using put_at_append [of "u @ v" 4 c x] j that by simp
  moreover have "put_at 6 x (u @ v @ z @ d @ y) = u @ v @ z @ x @ y"
    if "length x = 2" "length u = 2" "length v = 2" "length z = 2" for x y u v z
    using put_at_append [of "u @ v @ z" 6 d x] j that by simp
  ultimately have "assigns (udp_fields 0) junk =
      Inr (be16 SOURCE_PORT @ be16 SERVER_PORT @ be16 30 @ [0, 0] @ ?t @ r)"
    using assms by (simp add: udp_fields_def HELLO_length j del: add_2_eq_Suc')
  then show ?thesis by (simp add: hw5_packet_def send_bytes_def HELLO_length be16_def)
qed

lemma recv_bytes_nth: "length b \<le> length d \<Longrightarrow> recv_bytes d b = take (length b) d"
  by (simp add: recv_bytes_def)

text \<open>What the buffer holds after each datagram, and the report of it.\<close>

fun buffers :: "byte list list \<Rightarrow> byte list \<Rightarrow> byte list list" where
  "buffers [] b = []"
| "buffers (d # ds) b = recv_bytes d b # buffers ds (recv_bytes d b)"

definition report_of :: "byte list \<Rightarrow> report" where
  "report_of b = \<lparr>source_ip = take 4 (drop 12 b), destination_ip = take 4 (drop 16 b),
     packet_size = of_nat (udp_len b - 8), packet_data = map shown (take (udp_len b - 8) (drop 28 b))\<rparr>"

lemma recv_bytes_length: "length (recv_bytes d b) = length b"
  by (simp add: recv_bytes_def)

lemma sniff_loop_reports:
  "length b = BUFFER_SIZE \<Longrightarrow> sniff_loop (map Some ds) b rs =
    (if list_all (\<lambda>b. 8 \<le> udp_len b \<and> udp_len b \<le> 80) (buffers ds b) then Inr (rs @ map report_of (buffers ds b)) else Inl Read_Overflow)"
proof (induction ds arbitrary: b rs)
  case (Cons d ds)
  then have "length (recv_bytes d b) = BUFFER_SIZE" by (simp add: recv_bytes_length)
  then show ?case using Cons.IH by (simp add: sniff_eq report_of_def)
qed simp

section \<open>Properties\<close>

text \<open>
  C14: the sniffer reports every datagram that arrives, in order, as long as the length field of each
  UDP header is between 8 and 80: it shows the addresses and that many bytes less 8, from offset 28
  of its buffer on, where an earlier datagram may have left them. At the first other length, also one
  below 8, which wraps around, it reads past the end of the buffer.
\<close>

theorem sniffer_session:
  assumes "length junk = BUFFER_SIZE"
  shows "sniffer_main True (map Some ds) junk = (if list_all (\<lambda>b. 8 \<le> udp_len b \<and> udp_len b \<le> 80) (buffers ds junk)
    then Inr (map report_of (buffers ds junk)) else Inl Read_Overflow)"
  using sniff_loop_reports [OF assms, of ds "[]"] by (simp add: sniffer_main_def)

text \<open>A datagram of 30 bytes with a length of 10, and one that wraps around.\<close>

definition ex_datagram :: "byte list" where
  "ex_datagram = [0x45, 0, 0, 30, 0, 0, 0, 0, 64, 17, 0, 0, 10, 0, 0, 1, 10, 0, 0, 2, 0, 9, 0, 7, 0, 10, 0, 0, 72, 7]"

theorem sniffer_session_witness:
  "sniffer_main True (map Some [ex_datagram]) (replicate 100 0) =
     Inr [\<lparr>source_ip = [10, 0, 0, 1], destination_ip = [10, 0, 0, 2], packet_size = 2, packet_data = [72, 46]\<rparr>] \<and>
   sniffer_main True (map Some [0x45 # replicate 29 0]) (replicate 100 0) = Inl Read_Overflow"
proof -
  have len: "udp_len (recv_bytes ex_datagram (replicate 100 0)) = 10" "udp_len (recv_bytes (0x45 # replicate 29 0) (replicate 100 0)) = 0"
    by (simp_all add: ex_datagram_def recv_bytes_def udp_len_def udp_offset_def ntohs_def nth_append)
  have "report_of (recv_bytes ex_datagram (replicate 100 0)) =
      \<lparr>source_ip = [10, 0, 0, 1], destination_ip = [10, 0, 0, 2], packet_size = 2, packet_data = [72, 46]\<rparr>"
    unfolding report_of_def len by (simp add: ex_datagram_def recv_bytes_def shown_def)
  then show ?thesis
    using sniffer_session [of "replicate 100 0" "[ex_datagram]"] sniffer_session [of "replicate 100 0" "[0x45 # replicate 29 0]"] len
    by (simp add: BUFFER_SIZE_def)
qed

text \<open>
  C15: what the client of \<open>hw5\<close> sends does not depend on what its buffer held, and when the kernel puts
  an IP header without options in front of it the sniffer shows the text of the client.
\<close>

theorem hw5_sniffed:
  assumes "31 \<le> length junk" and "length h = 20" and "h ! 0 AND 0x0F = 5" and "length b = BUFFER_SIZE"
  shows "\<exists>p r. hw5_packet junk = Inr p \<and>
    p = be16 SOURCE_PORT @ be16 SERVER_PORT @ be16 30 @ [0, 0] @ bytes_of HELLO \<and>
    sniff (recv_bytes (h @ p) b) = Inr r \<and> packet_size r = 22 \<and> packet_data r = bytes_of HELLO"
proof -
  define p where "p = be16 SOURCE_PORT @ be16 SERVER_PORT @ be16 30 @ [0, 0] @ bytes_of HELLO"
  let ?b = "recv_bytes (h @ p) b"
  have b: "?b = h @ p @ drop 50 b" "length ?b = BUFFER_SIZE"
    using assms(2,4) by (simp_all add: recv_bytes_def BUFFER_SIZE_def HELLO_length p_def)
  have p: "p ! 4 = 0" "p ! 5 = 30" "length p = 30" "take 22 (drop 8 p) = bytes_of HELLO"
    by (simp_all add: p_def be16_def HELLO_length)
  have off: "udp_offset ?b = 20" using assms(2,3) by (simp add: udp_offset_def b(1) nth_append)
  have len: "udp_len ?b = 30"
    unfolding udp_len_def off using assms(2) p by (simp add: b(1) nth_append ntohs_def)
  have "take 22 (drop 28 ?b) = bytes_of HELLO" using assms(2) p by (simp add: b(1) HELLO_length)
  then have "sniff ?b = Inr \<lparr>source_ip = take 4 (drop 12 ?b), destination_ip = take 4 (drop 16 ?b),
      packet_size = 22, packet_data = bytes_of HELLO\<rparr>"
    using sniff_eq [OF b(2)] len by (simp add: shown_HELLO)
  then show ?thesis using hw5_packet_eq [OF assms(1)] by (simp add: p_def)
qed

theorem hw5_sniffed_witness:
  "\<exists>p r. hw5_packet (replicate 1024 7) = Inr p \<and>
     sniff (recv_bytes (replicate 20 0x45 @ p) (replicate 100 7)) = Inr r \<and> packet_data r = bytes_of HELLO"
proof -
  have "31 \<le> length (replicate 1024 (7::byte))" "length (replicate 20 (0x45::byte)) = 20"
    "replicate 20 (0x45::byte) ! 0 AND 0x0F = 5" "length (replicate 100 (7::byte)) = BUFFER_SIZE"
    by (simp_all add: BUFFER_SIZE_def)
  from hw5_sniffed [OF this] show ?thesis by blast
qed

text \<open>
  C16: the checksum of the frame of \<open>hw7\<close> is computed while the checksum field holds whatever the buffer
  held: the header the frame is sent with is right if and only if that was zero (in one's complement).
\<close>

theorem hw7_checksum:
  assumes "length junk = 142"
  shows "\<exists>f. hw7_frame junk = Inr f \<and> length f = 142 \<and>
    (header_ok f 14 \<longleftrightarrow> junk ! 24 = 0 \<and> junk ! 25 = 0 \<or> junk ! 24 = 255 \<and> junk ! 25 = 255)"
proof -
  have "word_at junk 24 \<in> {0, 65535} \<longleftrightarrow>
      junk ! 24 = 0 \<and> junk ! 25 = 0 \<or> junk ! 24 = 255 \<and> junk ! 25 = 255"
    using le16_extremes [of "junk ! 24" "junk ! 25"] by (simp add: word_at_def)
  then show ?thesis using hw7_frame_sum [OF assms] by auto
qed

theorem hw7_checksum_witness:
  "\<exists>f g. hw7_frame (replicate 142 0) = Inr f \<and> header_ok f 14 \<and> hw7_frame (replicate 142 7) = Inr g \<and> \<not> header_ok g 14"
  using hw7_checksum [of "replicate 142 0"] hw7_checksum [of "replicate 142 7"] by auto

text \<open>
  The datagram in the frame of \<open>hw7\<close> declares 100 bytes of data: when it arrives at the sniffer of
  \<open>hw4\<close>, the sniffer reads past the end of its buffer.
\<close>

theorem hw7_sniffed:
  assumes "length junk = 142" and "hw7_frame junk = Inr f" and "length b = BUFFER_SIZE"
  shows "sniff (recv_bytes (drop 14 f) b) = Inl Read_Overflow"
proof -
  have f: "length f = 142" "f ! 14 AND 0x0F = 5" "f ! 38 = 0" "f ! 39 = 108"
    using hw7_frame_sum [OF assms(1)] assms(2) by auto
  let ?b = "recv_bytes (drop 14 f) b"
  have b: "length ?b = BUFFER_SIZE" "\<And>i. i < 100 \<Longrightarrow> ?b ! i = f ! (14 + i)"
    using f(1) assms(3) by (simp_all add: recv_bytes_def BUFFER_SIZE_def)
  have off: "udp_offset ?b = 20" using f(2) b(2) by (simp add: udp_offset_def)
  have "udp_len ?b = 108" unfolding udp_len_def off using f b(2) by (simp add: ntohs_def)
  then show ?thesis using sniff_eq [OF b(1)] by simp
qed

theorem hw7_sniffed_witness:
  "\<exists>f. hw7_frame (replicate 142 0) = Inr f \<and> sniff (recv_bytes (drop 14 f) (replicate 100 0)) = Inl Read_Overflow"
proof -
  obtain f where f: "hw7_frame (replicate 142 0) = Inr f" using hw7_frame_sum [of "replicate 142 0"] by auto
  moreover have "sniff (recv_bytes (drop 14 f) (replicate 100 0)) = Inl Read_Overflow"
    by (rule hw7_sniffed [OF _ f]) (simp_all add: BUFFER_SIZE_def)
  ultimately show ?thesis by blast
qed

end
