(* ===== verification/Bits.thy ===== *)
theory Bits
  imports Stdio
begin

unbundle bit_operations_syntax

text \<open>
  The programs on the bits of an \<open>unsigned int\<close>: \<open>byte_ops/task1and2.c\<close> prints a number in binary,
  \<open>byte_ops/task3.c\<close> also counts its ones, \<open>byte_ops/task4.c\<close> and \<open>pointers/task1.c\<close> replace its
  third byte, the one by masking and the other through a pointer to its bytes.
\<close>

section \<open>Printing and counting\<close>

text \<open>The loop of \<open>print_binary\<close>, for the bits below \<open>i\<close>: what it prints and the flag it ends with.\<close>

fun print_bits :: "32 word \<Rightarrow> nat \<Rightarrow> bool \<Rightarrow> string \<times> bool" where
  "print_bits n 0 leading_zero = ([], leading_zero)"
| "print_bits n (Suc i) leading_zero =
     (let lz = (if drop_bit i n AND 1 \<noteq> 0 then False else leading_zero);
          s = (if \<not> lz then (if drop_bit i n AND 1 = 0 then ''0'' else ''1'') else []);
          (t, lz') = print_bits n i lz
      in (s @ t, lz'))"

definition print_binary :: "32 word \<Rightarrow> string" where
  "print_binary n = (case print_bits n 32 True of
     (s, lz) \<Rightarrow> s @ (if lz then ''0'' else []) @ [newline])"

function count_loop :: "32 word \<Rightarrow> nat \<Rightarrow> nat" where
  "count_loop n acc = (if n = 0 then acc else count_loop (drop_bit 1 n) (acc + unat (n AND 1)))"
  by pat_completeness auto
termination
proof (relation "measure (\<lambda>(n, acc). unat n)")
  fix n :: "32 word" and acc :: nat
  assume "n \<noteq> 0"
  then have "unat n \<noteq> 0" by (simp add: unat_eq_zero)
  then have "unat (drop_bit 1 n) < unat n"
    by (simp only: unat_drop_bit_eq) (simp add: drop_bit_eq_div)
  then show "((drop_bit 1 n, acc + unat (n AND 1)), (n, acc)) \<in> measure (\<lambda>(n, acc). unat n)" by simp
qed simp

declare count_loop.simps [simp del]

definition count_ones :: "32 word \<Rightarrow> nat" where
  "count_ones n = count_loop n 0"

section \<open>The third byte\<close>

definition set_third_mask :: "32 word \<Rightarrow> 32 word \<Rightarrow> 32 word" where
  "set_third_mask num b = (num AND NOT (push_bit 16 0xFF)) OR push_bit 16 b"

text \<open>The bytes of an \<open>unsigned int\<close> in memory, least significant first, and the number they are.\<close>

definition to_bytes :: "32 word \<Rightarrow> 8 word list" where
  "to_bytes n = map (\<lambda>k. ucast (drop_bit (8 * k) n)) [0..<4]"

definition of_bytes :: "8 word list \<Rightarrow> 32 word" where
  "of_bytes bs = foldr (\<lambda>b n. push_bit 8 n OR ucast b) bs 0"

definition set_third_ptr :: "32 word \<Rightarrow> 32 word \<Rightarrow> 32 word" where
  "set_third_ptr num b = of_bytes ((to_bytes num)[2 := ucast b])"

section \<open>The programs\<close>

text \<open>What the programs print after their prompts, and what \<open>main\<close> returns.\<close>

datatype line = Binary string | Ones nat | Changed "32 word" | Bad_range

definition read_u :: "string \<Rightarrow> (32 word \<times> string) c" where
  "read_u i = cbind (scan_u i) (\<lambda>(v, r). case v of None \<Rightarrow> Inl Uninit_Read | Some n \<Rightarrow> Inr (n, r))"

definition binary_main :: "string \<Rightarrow> (line list \<times> int) c" where
  "binary_main i = cbind (read_u i) (\<lambda>(num, _). Inr ([Binary (print_binary num)], 0))"

definition ones_main :: "string \<Rightarrow> (line list \<times> int) c" where
  "ones_main i = cbind (read_u i) (\<lambda>(num, _).
     Inr ([Binary (print_binary num), Ones (count_ones num)], 0))"

text \<open>The rest of the two last programs, given how they set the byte.\<close>

definition mask_main :: "string \<Rightarrow> (line list \<times> int) c" where
  "mask_main i =
     cbind (read_u i) (\<lambda>(num, i1).
     cbind (read_u i1) (\<lambda>(b, i2).
       if 255 < b then Inr ([Binary (print_binary num), Bad_range], 1)
       else let num' = set_third_mask num b
            in Inr ([Binary (print_binary num), Changed num', Binary (print_binary num')], 0)))"

definition ptr_main :: "string \<Rightarrow> (line list \<times> int) c" where
  "ptr_main i =
     cbind (read_u i) (\<lambda>(num, i1).
     cbind (read_u i1) (\<lambda>(b, i2).
       if 255 < b then Inr ([Binary (print_binary num), Bad_range], 1)
       else let num' = set_third_ptr num b
            in Inr ([Binary (print_binary num), Changed num', Binary (print_binary num')], 0)))"

section \<open>What is printed\<close>

text \<open>The digits of the lowest \<open>i\<close> bits, all of them.\<close>

definition digit :: "32 word \<Rightarrow> nat \<Rightarrow> char" where
  "digit n i = (if bit n i then CHR ''1'' else CHR ''0'')"

definition digits :: "32 word \<Rightarrow> nat \<Rightarrow> string" where
  "digits n i = rev (map (digit n) [0..<i])"

definition bin_val :: "string \<Rightarrow> nat" where
  "bin_val s = foldl (\<lambda>v d. 2 * v + of_bool (d = CHR ''1'')) 0 s"

lemma drop_bit_and_1: "drop_bit i n AND 1 = (0::32 word) \<longleftrightarrow> \<not> bit n i"
  by (simp add: and_one_eq odd_iff_mod_2_eq_one bit_iff_odd_drop_bit even_iff_mod_2_eq_zero)

lemma digits_Suc: "digits n (Suc i) = digit n i # digits n i"
  by (simp add: digits_def)

lemma print_bits_started: "print_bits n i False = (digits n i, False)"
  by (induction i) (simp_all add: drop_bit_and_1 digits_Suc digit_def digits_def [of n 0])

lemma print_bits_eq:
  "print_bits n i True = (dropWhile (\<lambda>d. d = CHR ''0'') (digits n i), \<forall>k < i. \<not> bit n k)"
proof (induction i)
  case 0
  then show ?case by (simp add: digits_def)
next
  case (Suc i)
  then show ?case
    by (auto simp: drop_bit_and_1 digits_Suc digit_def print_bits_started less_Suc_eq)
qed

lemma bin_val_Cons: "bin_val (d # s) = of_bool (d = CHR ''1'') * 2 ^ length s + bin_val s"
proof -
  have "foldl (\<lambda>v d. 2 * v + of_bool (d = CHR ''1'')) v s =
      v * 2 ^ length s + foldl (\<lambda>v d. 2 * v + of_bool (d = CHR ''1'')) 0 s" for v :: nat
  proof (induction s arbitrary: v)
    case (Cons d s)
    from Cons [of "2 * v + of_bool (d = CHR ''1'')"] Cons [of "of_bool (d = CHR ''1'')"] show ?case
      by (simp add: algebra_simps)
  qed simp
  from this [of "of_bool (d = CHR ''1'')"] show ?thesis by (simp add: bin_val_def)
qed

lemma digits_length [simp]: "length (digits n i) = i"
  by (simp add: digits_def)

lemma bin_val_digits: "bin_val (digits n i) = take_bit i (unat n)"
proof (induction i)
  case 0
  then show ?case by (simp add: digits_def bin_val_def)
next
  case (Suc i)
  have "bit (unat n) i \<longleftrightarrow> bit n i" by (simp add: bit_unsigned_iff)
  with Suc show ?case
    by (simp add: digits_Suc bin_val_Cons digit_def take_bit_Suc_from_most)
qed

lemma bin_val_dropWhile: "bin_val (dropWhile (\<lambda>d. d = CHR ''0'') s) = bin_val s"
  by (induction s) (simp_all add: bin_val_Cons)

lemma unat_all_bits: "take_bit 32 (unat n) = unat n" for n :: "32 word"
  using unat_bound [of n] by (simp add: take_bit_nat_eq_self)

lemma print_binary_eq:
  "print_binary n = (if n = 0 then ''0'' else dropWhile (\<lambda>d. d = CHR ''0'') (digits n 32)) @ [newline]"
proof -
  have "(\<forall>k < 32. \<not> bit n k) \<longleftrightarrow> n = 0"
    by (auto simp: bit_eq_iff possible_bit_word)
  moreover have "dropWhile (\<lambda>d. d = CHR ''0'') (digits 0 32) = []"
    by (simp add: digits_def digit_def)
  ultimately show ?thesis by (auto simp: print_binary_def print_bits_eq)
qed

section \<open>Counting\<close>

lemma count_loop_eq: "count_loop n acc = acc + card {i. bit n i}"
proof (induction n acc rule: count_loop.induct)
  case (1 n acc)
  show ?case
  proof (cases "n = 0")
    case True
    then show ?thesis by (subst count_loop.simps) (simp add: bot_fun_def)
  next
    case False
    have fin: "finite {i. bit (drop_bit 1 n) i}"
      by (rule finite_subset [of _ "{..<32}"]) (auto simp: bit_simps possible_bit_word dest: bit_imp_le_length)
    let ?A = "{i::nat. i = 0 \<and> bit n 0}" and ?B = "Suc ` {i. bit (drop_bit 1 n) i}"
    have "{i. bit n i} = ?A \<union> ?B"
    proof (rule set_eqI)
      fix i
      show "i \<in> {i. bit n i} \<longleftrightarrow> i \<in> ?A \<union> ?B"
        by (cases i) (auto simp: bit_drop_bit_eq)
    qed
    then have "card {i. bit n i} = card (?A \<union> ?B)" by (rule arg_cong)
    also have "\<dots> = card ?A + card ?B" using fin by (intro card_Un_disjoint) auto
    also have "card ?A = of_bool (bit n 0)" by simp
    also have "card ?B = card {i. bit (drop_bit 1 n) i}" by (simp add: card_image)
    finally have "card {i. bit n i} = of_bool (bit n 0) + card {i. bit (drop_bit 1 n) i}" .
    moreover have "unat (n AND 1) = of_bool (bit n 0)" by (simp add: and_one_eq bit_0 mod_2_eq_odd)
    ultimately show ?thesis using 1 [OF False] False by (subst count_loop.simps) simp
  qed
qed

lemma count_digits: "length (filter (\<lambda>d. d = CHR ''1'') (digits n i)) = card {k. k < i \<and> bit n k}"
proof (induction i)
  case 0
  then show ?case by (simp add: digits_def)
next
  case (Suc i)
  have "{k. k < Suc i \<and> bit n k} = (if bit n i then insert i {k. k < i \<and> bit n k} else {k. k < i \<and> bit n k})"
    by (auto simp: less_Suc_eq)
  with Suc show ?case by (simp add: digits_Suc digit_def)
qed

section \<open>Mask and pointer\<close>

lemma third_byte_mask:
  assumes "b \<le> 255"
  shows "bit (set_third_mask num b) i = (if 16 \<le> i \<and> i < 24 then bit b (i - 16) else bit num i)"
proof -
  have m: "(255 :: 32 word) = mask 8" by (simp add: mask_eq_exp_minus_1)
  have "take_bit 8 b = b"
    using assms by (simp add: word_unat_eq_iff unsigned_take_bit_eq take_bit_nat_eq_self word_le_nat_alt)
  then have b: "bit b k \<Longrightarrow> k < 8" for k by (metis bit_take_bit_iff)
  have n: "bit num i \<Longrightarrow> i < 32" by (drule bit_imp_le_length) simp
  show ?thesis
    using b [of "i - 16"] n
    by (auto simp: set_third_mask_def m bit_simps possible_bit_word)
qed

lemma to_bytes_eq: "to_bytes n = [ucast n, ucast (drop_bit 8 n), ucast (drop_bit 16 n), ucast (drop_bit 24 n)]"
  by (simp add: to_bytes_def upt_rec)

lemma bit_of_bytes:
  "bit (of_bytes (b # bs)) i \<longleftrightarrow> (if i < 8 then bit b i else i < 32 \<and> bit (of_bytes bs) (i - 8))"
  "\<not> bit (of_bytes []) i"
proof -
  have b: "bit b i \<Longrightarrow> i < 8" by (drule bit_imp_le_length) simp
  show "bit (of_bytes (b # bs)) i \<longleftrightarrow> (if i < 8 then bit b i else i < 32 \<and> bit (of_bytes bs) (i - 8))"
    using b
    by (simp only: of_bytes_def foldr.simps comp_def bit_or_iff bit_push_bit_iff bit_ucast_iff possible_bit_word)
      auto
qed (simp add: of_bytes_def)

lemma third_byte_ptr:
  "bit (set_third_ptr num b) i = (if 16 \<le> i \<and> i < 24 then bit b (i - 16) else bit num i)"
proof -
  have n: "bit num i \<Longrightarrow> i < 32" by (drule bit_imp_le_length) simp
  show ?thesis
    using n
    by (auto simp: set_third_ptr_def to_bytes_eq bit_of_bytes bit_simps possible_bit_word add.commute)
qed

lemma third_byte_same: "b \<le> 255 \<Longrightarrow> set_third_mask num b = set_third_ptr num b"
  by (simp add: bit_eq_iff third_byte_mask third_byte_ptr)

section \<open>Properties\<close>

text \<open>
  \<open>print_binary\<close> prints a line of binary digits that reads back as the number, without a zero in
  front unless the number is zero.
\<close>

theorem print_binary_reads_back:
  "\<exists>s. print_binary n = s @ [newline] \<and> set s \<subseteq> {CHR ''0'', CHR ''1''} \<and> s \<noteq> [] \<and>
     bin_val s = unat n \<and> (hd s = CHR ''0'' \<longleftrightarrow> n = 0)"
proof (cases "n = 0")
  case True
  then show ?thesis by (intro exI [of _ "''0''"]) (simp add: print_binary_eq bin_val_def)
next
  case False
  let ?s = "dropWhile (\<lambda>d. d = CHR ''0'') (digits n 32)"
  have v: "bin_val ?s = unat n" by (simp add: bin_val_dropWhile bin_val_digits unat_all_bits)
  then have "?s \<noteq> []" using False by (metis bin_val_def foldl_Nil unat_eq_zero)
  moreover from this have "hd ?s \<noteq> CHR ''0''" by (rule hd_dropWhile)
  moreover have "set ?s \<subseteq> {CHR ''0'', CHR ''1''}"
    by (auto simp: digits_def digit_def dest!: set_dropWhileD)
  ultimately show ?thesis using False v by (simp add: print_binary_eq)
qed

text \<open>
  \<open>count_ones\<close> gives the number of bits that are set, and of ones in what \<open>print_binary\<close> prints;
  it is at most 32.
\<close>

theorem count_ones_correct:
  "count_ones n = card {i. bit n i} \<and>
   count_ones n = length (filter (\<lambda>d. d = CHR ''1'') (print_binary n)) \<and> count_ones n \<le> 32"
proof -
  have ones: "filter (\<lambda>d. d = CHR ''1'') (dropWhile (\<lambda>d. d = CHR ''0'') s) = filter (\<lambda>d. d = CHR ''1'') s" for s
    by (induction s) auto
  have all: "{k. k < 32 \<and> bit n k} = {k. bit n k}" by (auto dest: bit_imp_le_length)
  have "count_ones n = card {k. bit n k}" by (simp add: count_ones_def count_loop_eq)
  moreover have "card {k. bit n k} = length (filter (\<lambda>d. d = CHR ''1'') (digits n 32))"
    by (simp add: count_digits all)
  moreover have "length (filter (\<lambda>d. d = CHR ''1'') (digits n 32)) \<le> 32"
    using length_filter_le [of _ "digits n 32"] by simp
  moreover have "filter (\<lambda>d. d = CHR ''1'') (digits 0 32) = []" by (auto simp: digits_def digit_def)
  ultimately show ?thesis by (auto simp: print_binary_eq ones)
qed

text \<open>
  C23: the program that masks the third byte in and the one that writes it through a pointer do the same
  on every input, and change no other byte.
\<close>

theorem third_byte_agree:
  assumes "b \<le> 255"
  shows "mask_main i = ptr_main i \<and> set_third_mask num b = set_third_ptr num b \<and>
    bit (set_third_mask num b) k = (if 16 \<le> k \<and> k < 24 then bit b (k - 16) else bit num k)"
proof -
  have "mask_main i = ptr_main i"
    by (simp add: mask_main_def ptr_main_def Let_def third_byte_same not_less cong: if_cong)
  then show ?thesis using third_byte_same [OF assms] third_byte_mask [OF assms] by blast
qed

theorem third_byte_agree_witness:
  "set_third_mask 0x12345678 0xAB = set_third_ptr 0x12345678 0xAB \<and> \<not> bit (set_third_mask 0x12345678 0xAB) 18"
  using third_byte_agree [of "0xAB" "[]" "0x12345678" 18] by auto

end
