(* ===== verification/Arrays.thy ===== *)
theory Arrays
  imports Stdio
begin

text \<open>
  The programs on arrays: \<open>arrays/task1.c\<close> (the numbers from 1 in rows), \<open>arrays/task2.c\<close> (reversing),
  \<open>arrays/task3.c\<close> (a triangle of zeros), \<open>arrays/task4.c\<close> (a spiral), \<open>pointers/task3.c\<close> (an array
  printed through a pointer). The sizes, constants in the programs but for the first, are arguments.
  A cell that was not assigned yet is \<open>None\<close>.
\<close>

section \<open>Rows of numbers\<close>

text \<open>The loops of \<open>print_matrix\<close>; \<open>value\<close> is an \<open>int\<close> that each cell increments.\<close>

fun row_loop :: "nat \<Rightarrow> int \<Rightarrow> (int list \<times> int) c" where
  "row_loop 0 v = Inr ([], v)"
| "row_loop (Suc n) v =
     cbind (chk (v + 1)) (\<lambda>v'. cbind (row_loop n v') (\<lambda>(r, w). Inr (v # r, w)))"

fun rows_loop :: "nat \<Rightarrow> nat \<Rightarrow> int \<Rightarrow> int list list c" where
  "rows_loop n 0 v = Inr []"
| "rows_loop n (Suc k) v =
     cbind (row_loop n v) (\<lambda>(r, w). cbind (rows_loop n k w) (\<lambda>rs. Inr (r # rs)))"

definition print_matrix :: "int \<Rightarrow> int list list c" where
  "print_matrix N = rows_loop (nat N) (nat N) 1"

definition matrix_main :: "string \<Rightarrow> int list list c" where
  "matrix_main i = cbind (scan_d i) (\<lambda>(v, r). case v of None \<Rightarrow> Inl Uninit_Read | Some N \<Rightarrow> print_matrix N)"

section \<open>Reversing\<close>

definition count_up :: "nat \<Rightarrow> int list" where
  "count_up n = map (\<lambda>i. int i + 1) [0..<n]"

text \<open>The swaps \<open>i < N / 2\<close>, from \<open>i\<close> on.\<close>

function swap_loop :: "nat \<Rightarrow> nat \<Rightarrow> 'a list \<Rightarrow> 'a list" where
  "swap_loop n i xs =
     (if i < n div 2 then swap_loop n (Suc i) (let t = xs ! (n - 1 - i) in (xs[n - 1 - i := xs ! i])[i := t])
      else xs)"
  by pat_completeness auto
termination by (relation "measure (\<lambda>(n, i, xs). n - i)") auto

declare swap_loop.simps [simp del]

definition reverse_main :: "nat \<Rightarrow> int list" where
  "reverse_main n = swap_loop n 0 (count_up n)"

text \<open>\<open>pointers/task3.c\<close>: the elements through \<open>*(ptr + i)\<close>.\<close>

definition pointer_main :: "nat \<Rightarrow> int list" where
  "pointer_main n = map (\<lambda>i. count_up n ! i) [0..<n]"

section \<open>Matrices\<close>

type_synonym matrix = "int option list list"

definition set_cell :: "nat \<Rightarrow> nat \<Rightarrow> int \<Rightarrow> matrix \<Rightarrow> matrix c" where
  "set_cell i j v m =
     (if i < length m \<and> j < length (m ! i) then Inr (m[i := (m ! i)[j := Some v]]) else Inl Write_Overflow)"

definition no_cells :: "nat \<Rightarrow> matrix" where
  "no_cells n = replicate n (replicate n None)"

text \<open>Printing reads every cell.\<close>

definition show_matrix :: "matrix \<Rightarrow> int list list c" where
  "show_matrix m = (if \<forall>r \<in> set m. None \<notin> set r then Inr (map (map the) m) else Inl Uninit_Read)"

text \<open>\<open>arrays/task3.c\<close>: the inner loop over \<open>j\<close>, then the outer one over \<open>i\<close>, counting up to a bound.\<close>

fun triangle_row :: "nat \<Rightarrow> nat \<Rightarrow> nat \<Rightarrow> matrix \<Rightarrow> matrix c" where
  "triangle_row n i 0 m = Inr m"
| "triangle_row n i (Suc j) m =
     cbind (triangle_row n i j m) (\<lambda>m. cbind (set_cell i j 0 m) (set_cell (n - j - 1) (n - i - 1) 1))"

fun triangle_rows :: "nat \<Rightarrow> nat \<Rightarrow> matrix \<Rightarrow> matrix c" where
  "triangle_rows n 0 m = Inr m"
| "triangle_rows n (Suc i) m = cbind (triangle_rows n i m) (triangle_row n i (n - i))"

definition triangle_main :: "nat \<Rightarrow> int list list c" where
  "triangle_main n = cbind (triangle_rows n n (no_cells n)) show_matrix"

text \<open>
  \<open>arrays/task4.c\<close>: the four sides of a round, as the cells they go through, and the rounds; every
  round needs one of fuel.
\<close>

record spiral =
  cells :: matrix
  val :: int
  top :: int
  bottom :: int
  left :: int
  right :: int

fun fill :: "(int \<times> int) list \<Rightarrow> matrix \<times> int \<Rightarrow> (matrix \<times> int) c" where
  "fill [] (m, v) = Inr (m, v)"
| "fill ((i, j) # ps) (m, v) =
     (if 0 \<le> i \<and> 0 \<le> j then cbind (set_cell (nat i) (nat j) v m) (\<lambda>m'. fill ps (m', v + 1))
      else Inl Write_Overflow)"

definition spiral_round :: "spiral \<Rightarrow> spiral c" where
  "spiral_round s =
     cbind (fill (map (\<lambda>i. (top s, i)) [left s..right s]) (cells s, val s)) (\<lambda>(m1, v1).
     let t = top s + 1 in
     cbind (fill (map (\<lambda>i. (i, right s)) [t..bottom s]) (m1, v1)) (\<lambda>(m2, v2).
     let r = right s - 1 in
     cbind (fill (map (\<lambda>i. (bottom s, i)) (rev [left s..r])) (m2, v2)) (\<lambda>(m3, v3).
     let b = bottom s - 1 in
     cbind (fill (map (\<lambda>i. (i, left s)) (rev [t..b])) (m3, v3)) (\<lambda>(m4, v4).
       Inr \<lparr>cells = m4, val = v4, top = t, bottom = b, left = left s + 1, right = r\<rparr>))))"

fun spiral_loop :: "nat \<Rightarrow> int \<Rightarrow> spiral \<Rightarrow> spiral c option" where
  "spiral_loop 0 n s = None"
| "spiral_loop (Suc f) n s =
     (if val s \<le> n * n
      then (case spiral_round s of Inl e \<Rightarrow> Some (Inl e) | Inr t \<Rightarrow> spiral_loop f n t)
      else Some (Inr s))"

definition spiral_main :: "nat \<Rightarrow> nat \<Rightarrow> int list list c option" where
  "spiral_main f n = map_option (\<lambda>r. cbind r (\<lambda>s. show_matrix (cells s)))
     (spiral_loop f (int n) \<lparr>cells = no_cells n, val = 1, top = 0, bottom = int n - 1, left = 0, right = int n - 1\<rparr>)"

section \<open>What the loops compute\<close>

lemma row_loop_eq:
  "0 < v \<Longrightarrow> row_loop n v = (if n = 0 \<or> v + int n \<le> 2147483647
    then Inr (map (\<lambda>j. v + int j) [0..<n], v + int n) else Inl Signed_Overflow)"
proof (induction n arbitrary: v)
  case 0
  then show ?case by simp
next
  case (Suc n)
  have "map (\<lambda>j. v + int j) [0..<Suc n] = v # map (\<lambda>j. v + 1 + int j) [0..<n]"
    by (simp add: map_upt_Suc add_ac del: upt_Suc)
  with Suc show ?case by (auto simp: chk_def in_int_def add_ac)
qed

definition counted :: "nat \<Rightarrow> nat \<Rightarrow> int \<Rightarrow> int list list" where
  "counted n k v = map (\<lambda>i. map (\<lambda>j. v + int i * int n + int j) [0..<n]) [0..<k]"

lemma rows_loop_eq:
  "0 < v \<Longrightarrow> rows_loop n k v = (if n = 0 \<or> k = 0 \<or> v + int k * int n \<le> 2147483647
    then Inr (counted n k v) else Inl Signed_Overflow)"
proof (induction k arbitrary: v)
  case 0
  then show ?case by (simp add: counted_def)
next
  case (Suc k)
  have rec: "counted n (Suc k) v = map (\<lambda>j. v + int j) [0..<n] # counted n k (v + int n)"
    by (simp add: counted_def map_upt_Suc algebra_simps del: upt_Suc)
  obtain p where p: "int k * int n = p" "0 \<le> p" "k = 0 \<Longrightarrow> p = 0" by simp
  show ?case
    using Suc.prems Suc.IH [of "v + int n"] p(2,3) unfolding rec
    by (auto simp: row_loop_eq distrib_right p(1) add_ac)
qed

text \<open>Reversing, by what is left to do when the loop is at \<open>i\<close>.\<close>

lemma swap_loop_length: "length (swap_loop n i xs) = length xs"
proof (induction n i xs rule: swap_loop.induct)
  case (1 n i xs)
  then show ?case by (subst swap_loop.simps) (simp add: Let_def)
qed

lemma swap_loop_nth:
  assumes "length xs = n" and "k < n" and "i \<le> n div 2"
  shows "swap_loop n i xs ! k = (if i \<le> k \<and> k < n - i then xs ! (n - 1 - k) else xs ! k)"
  using assms
proof (induction "n div 2 - i" arbitrary: i xs)
  case 0
  then have "i = n div 2" by simp
  then have "i \<le> k \<and> k < n - i \<Longrightarrow> n - 1 - k = k" by presburger
  then show ?case using 0 by (subst swap_loop.simps) auto
next
  case (Suc m)
  then have i: "i < n div 2" by simp
  let ?ys = "(xs[n - 1 - i := xs ! i])[i := xs ! (n - 1 - i)]"
  have IH: "swap_loop n (Suc i) ?ys ! k =
      (if Suc i \<le> k \<and> k < n - Suc i then ?ys ! (n - 1 - k) else ?ys ! k)"
    using Suc i by (intro Suc.hyps(1)) simp_all
  have step: "swap_loop n i xs = swap_loop n (Suc i) ?ys"
    using i by (subst swap_loop.simps) (simp add: Let_def)
  have y: "?ys ! m = (if m = i then xs ! (n - 1 - i) else if m = n - 1 - i then xs ! i else xs ! m)"
    if "m < n" for m
    using that Suc.prems(1) i by (simp add: nth_list_update)
  have ii: "i < n - 1 - i" "n - 1 - (n - 1 - i) = i" "i < n - i" "n - 1 - i < n - i" using i by linarith+
  consider "k = i" | "k = n - 1 - i" | "Suc i \<le> k" "k < n - Suc i" | "k < i" | "n - i \<le> k"
    using Suc.prems(2) by linarith
  then show ?case
  proof cases
    case 1
    then have "swap_loop n i xs ! k = ?ys ! k" using IH step by simp
    with 1 ii y [of k] Suc.prems(2) show ?thesis by simp
  next
    case 2
    then have "\<not> (Suc i \<le> k \<and> k < n - Suc i)" by linarith
    then have "swap_loop n i xs ! k = ?ys ! k" using IH step by metis
    with 2 ii y [of k] Suc.prems(2) show ?thesis by simp
  next
    case 3
    then have "k < n - i" "n - 1 - k < n" "n - 1 - k \<noteq> i" "n - 1 - k \<noteq> n - 1 - i"
      using Suc.prems(2) by linarith+
    with 3 y [of "n - 1 - k"] IH step show ?thesis by simp
  next
    case 4
    then have "k \<noteq> n - 1 - i" using ii by linarith
    with 4 y [of k] IH step Suc.prems(2) show ?thesis by simp
  next
    case 5
    then have "k \<noteq> n - 1 - i" "k \<noteq> i" "\<not> k < n - Suc i" "\<not> k < n - i" using ii by linarith+
    with y [of k] IH step Suc.prems(2) show ?thesis by simp
  qed
qed

lemma reverse_main_rev: "reverse_main n = rev (count_up n)"
  by (rule nth_equalityI) (auto simp: reverse_main_def swap_loop_length swap_loop_nth rev_nth count_up_def)

lemma pointer_main_eq: "pointer_main n = count_up n"
  by (rule nth_equalityI) (simp_all add: pointer_main_def count_up_def)

text \<open>A matrix given by a function of its indices, and the triangle up to a step of the loops.\<close>

definition tabulate :: "nat \<Rightarrow> (nat \<Rightarrow> nat \<Rightarrow> int option) \<Rightarrow> matrix" where
  "tabulate n g = map (\<lambda>a. map (g a) [0..<n]) [0..<n]"

lemma set_cell_tabulate:
  assumes "i < n" and "j < n"
  shows "set_cell i j v (tabulate n g) = Inr (tabulate n (\<lambda>a b. if a = i \<and> b = j then Some v else g a b))"
  using assms by (auto simp: set_cell_def tabulate_def intro!: nth_equalityI) (auto simp: nth_list_update intro!: nth_equalityI)

definition tri :: "nat \<Rightarrow> nat \<Rightarrow> nat \<Rightarrow> nat \<Rightarrow> nat \<Rightarrow> int option" where
  "tri n i j a b = (let reached = (\<lambda>x y. x < i \<or> x = i \<and> y < j) in
     if a + b < n - 1 then (if reached a b then Some 0 else None)
     else (if reached (n - 1 - b) (n - 1 - a) then Some 1 else None))"

lemma tri_low: "a + b < n - 1 \<Longrightarrow> tri n i j a b = (if a < i \<or> a = i \<and> b < j then Some 0 else None)"
  and tri_high: "\<not> a + b < n - 1 \<Longrightarrow> n - 1 - b = x \<Longrightarrow> n - 1 - a = y \<Longrightarrow>
    tri n i j a b = (if x < i \<or> x = i \<and> y < j then Some 1 else None)"
  by (simp_all add: tri_def)

lemma triangle_row_eq:
  "i < n \<Longrightarrow> j \<le> n - i \<Longrightarrow> triangle_row n i j (tabulate n (tri n i 0)) = Inr (tabulate n (tri n i j))"
proof (induction j)
  case 0
  then show ?case by simp
next
  case (Suc j)
  have "(if a = n - j - 1 \<and> b = n - i - 1 then Some 1 else if a = i \<and> b = j then Some 0 else tri n i j a b) =
      tri n i (Suc j) a b" if ab: "a < n" "b < n" for a b
  proof (cases "a + b < n - 1")
    case True
    then have no: "\<not> (a = n - j - 1 \<and> b = n - i - 1)" using Suc.prems by linarith
    show ?thesis unfolding tri_low [OF True] less_Suc_eq if_not_P [OF no] by auto
  next
    case False
    obtain x y where xy: "n - 1 - b = x" "n - 1 - a = y" by simp
    have "a = n - j - 1 \<longleftrightarrow> y = j" "b = n - i - 1 \<longleftrightarrow> x = i"
      using ab Suc.prems xy by linarith+
    moreover have "a = i \<and> b = j \<Longrightarrow> y = j \<and> x = i"
      using False Suc.prems xy by linarith
    ultimately show ?thesis unfolding tri_high [OF False xy] less_Suc_eq by auto
  qed
  then have "tabulate n (\<lambda>a b. if a = n - j - 1 \<and> b = n - i - 1 then Some 1
      else if a = i \<and> b = j then Some 0 else tri n i j a b) = tabulate n (tri n i (Suc j))"
    by (simp add: tabulate_def cong: map_cong)
  with Suc show ?case by (simp add: set_cell_tabulate)
qed

lemma triangle_rows_eq: "i \<le> n \<Longrightarrow> triangle_rows n i (no_cells n) = Inr (tabulate n (tri n i 0))"
proof (induction i)
  case 0
  then show ?case by (auto simp: no_cells_def tabulate_def tri_def intro!: nth_equalityI)
next
  case (Suc i)
  have "tri n i (n - i) a b = tri n (Suc i) 0 a b" if "a < n" "b < n" for a b
  proof (cases "a + b < n - 1")
    case True
    then have "b < n - i \<or> a \<noteq> i" by linarith
    then show ?thesis unfolding tri_low [OF True] less_Suc_eq by auto
  next
    case False
    then have "n - 1 - b = i \<Longrightarrow> n - 1 - a < n - i" using that Suc.prems by linarith
    then show ?thesis unfolding tri_high [OF False refl refl] less_Suc_eq by simp
  qed
  then have "tabulate n (tri n i (n - i)) = tabulate n (tri n (Suc i) 0)"
    by (simp add: tabulate_def cong: map_cong)
  with Suc show ?case by (simp add: triangle_row_eq)
qed

lemma triangle_main_eq:
  "triangle_main n = Inr (map (\<lambda>a. map (\<lambda>b. if a + b < n - 1 then 0 else 1) [0..<n]) [0..<n])"
proof -
  have f: "tri n n 0 a b = Some (if a + b < n - 1 then 0 else 1)" if "a < n" "b < n" for a b
    using that by (auto simp: tri_def)
  then have "tabulate n (tri n n 0) = map (\<lambda>a. map (\<lambda>b. Some (if a + b < n - 1 then 0 else 1)) [0..<n]) [0..<n]"
    by (simp add: tabulate_def cong: map_cong)
  then show ?thesis by (auto simp: triangle_main_def triangle_rows_eq show_matrix_def)
qed

lemma spiral_main_5:
  "spiral_main 4 5 = Some (Inr [[1, 2, 3, 4, 5], [16, 17, 18, 19, 6], [15, 24, 25, 20, 7],
     [14, 23, 22, 21, 8], [13, 12, 11, 10, 9]])"
  by code_simp

section \<open>Property\<close>

text \<open>
  C24: \<open>print_matrix\<close> prints the numbers from 1 on in \<open>N\<close> rows of \<open>N\<close>, and nothing when \<open>N\<close> is not
  positive, as long as the last increment of \<open>value\<close> fits an \<open>int\<close>; from \<open>N = 46341\<close> on it overflows.
\<close>

theorem print_matrix_correct:
  "print_matrix N = (if N \<le> 46340
     then Inr (map (\<lambda>i. map (\<lambda>j. 1 + int i * N + int j) [0..<nat N]) [0..<nat N])
     else Inl Signed_Overflow)"
proof (cases "N \<le> 0")
  case True
  then show ?thesis by (simp add: print_matrix_def)
next
  case False
  then obtain n where n: "N = int n" "0 < n" by (metis not_le of_nat_0_less_iff zero_less_imp_eq_int)
  have "1 + int n * int n \<le> 2147483647 \<longleftrightarrow> n \<le> 46340"
  proof
    assume "n \<le> 46340"
    then have "int n * int n \<le> 46340 * 46340" by (intro mult_mono) simp_all
    then show "1 + int n * int n \<le> 2147483647" by simp
  next
    assume *: "1 + int n * int n \<le> 2147483647"
    show "n \<le> 46340"
    proof (rule ccontr)
      assume "\<not> n \<le> 46340"
      then have "46341 * 46341 \<le> int n * int n" by (intro mult_mono) simp_all
      with * show False by simp
    qed
  qed
  then show ?thesis using n by (simp add: print_matrix_def rows_loop_eq counted_def)
qed

end
