(* ===== verification/Calculator.thy ===== *)
theory Calculator
  imports Stdio
begin

text \<open>
  The calculators of \<open>libs/static\<close> and \<open>libs/dynamic\<close>: a library of four functions, of which each
  has a copy, and a menu loop that calls them, linked with the library in the one and with the functions
  that \<open>dlsym\<close> finds in the other. The locale says what the loop needs of a library.
\<close>

section \<open>The library\<close>

definition add :: "int \<Rightarrow> int \<Rightarrow> int c" where
  "add a b = chk (a + b)"

definition sub :: "int \<Rightarrow> int \<Rightarrow> int c" where
  "sub a b = chk (a - b)"

definition mul :: "int \<Rightarrow> int \<Rightarrow> int c" where
  "mul a b = chk (a * b)"

definition divide :: "int \<Rightarrow> int \<Rightarrow> int c" where
  "divide a b = (if b = 0 then Inr 0 else chk (quot a b))"

text \<open>The shared library has its own copies of them.\<close>

definition so_add :: "int \<Rightarrow> int \<Rightarrow> int c" where
  "so_add a b = chk (a + b)"

definition so_sub :: "int \<Rightarrow> int \<Rightarrow> int c" where
  "so_sub a b = chk (a - b)"

definition so_mul :: "int \<Rightarrow> int \<Rightarrow> int c" where
  "so_mul a b = chk (a * b)"

definition so_divide :: "int \<Rightarrow> int \<Rightarrow> int c" where
  "so_divide a b = (if b = 0 then Inr 0 else chk (quot a b))"

text \<open>What it exports.\<close>

definition libcalc_so :: "string \<Rightarrow> (int \<Rightarrow> int \<Rightarrow> int c) option" where
  "libcalc_so = [''add'' \<mapsto> so_add, ''sub'' \<mapsto> so_sub, ''mul'' \<mapsto> so_mul, ''divide'' \<mapsto> so_divide]"

section \<open>The menu loop\<close>

text \<open>The four functions a program calls, by their place in the menu.\<close>

record lib =
  lib_add :: "int \<Rightarrow> int \<Rightarrow> int c"
  lib_sub :: "int \<Rightarrow> int \<Rightarrow> int c"
  lib_mul :: "int \<Rightarrow> int \<Rightarrow> int c"
  lib_div :: "int \<Rightarrow> int \<Rightarrow> int c"

definition calc_lib :: lib where
  "calc_lib = \<lparr>lib_add = add, lib_sub = sub, lib_mul = mul, lib_div = divide\<rparr>"

datatype out = Calc_menu | Ask_numbers | Wrong_number | Result int

record calc =
  inp :: string
  choice :: "int option"
  num_a :: "int option"
  num_b :: "int option"
  outs :: "out list"

definition emit :: "out \<Rightarrow> calc \<Rightarrow> calc" where
  "emit m s = s\<lparr>outs := outs s @ [m]\<rparr>"

text \<open>\<open>scanf("%d %d", &a, &b)\<close>: the second conversion is tried only after the first has succeeded.\<close>

definition scan_two :: "calc \<Rightarrow> calc c" where
  "scan_two s = cbind (scan_d (inp s)) (\<lambda>(v, i1). case v of
     None \<Rightarrow> Inr (s\<lparr>inp := i1\<rparr>)
   | Some x \<Rightarrow> cbind (scan_d i1) (\<lambda>(w, i2). Inr (case w of
       None \<Rightarrow> s\<lparr>inp := i2, num_a := Some x\<rparr>
     | Some y \<Rightarrow> s\<lparr>inp := i2, num_a := Some x, num_b := Some y\<rparr>)))"

definition apply_op :: "(int \<Rightarrow> int \<Rightarrow> int c) \<Rightarrow> calc \<Rightarrow> calc c" where
  "apply_op f s = (case (num_a s, num_b s) of
     (Some x, Some y) \<Rightarrow> cbind (f x y) (\<lambda>r. Inr (emit (Result r) s))
   | _ \<Rightarrow> Inl Uninit_Read)"

text \<open>The \<open>switch\<close>.\<close>

definition dispatch :: "lib \<Rightarrow> int \<Rightarrow> calc \<Rightarrow> calc c" where
  "dispatch L k s =
     (if k = 1 then apply_op (lib_add L) s
      else if k = 2 then apply_op (lib_sub L) s
      else if k = 3 then apply_op (lib_mul L) s
      else if k = 4 then apply_op (lib_div L) s
      else Inr (emit Wrong_number s))"

text \<open>One round of \<open>while (1)\<close>; the flag says that the loop is left.\<close>

definition calc_round :: "lib \<Rightarrow> calc \<Rightarrow> (calc \<times> bool) c" where
  "calc_round L s =
     cbind (scan_d (inp s)) (\<lambda>(v, i).
       let s1 = emit Calc_menu (s\<lparr>inp := i, choice := (case v of None \<Rightarrow> choice s | Some k \<Rightarrow> Some k)\<rparr>)
       in case choice s1 of
            None \<Rightarrow> Inl Uninit_Read
          | Some k \<Rightarrow> if k = 5 then Inr (s1, True) else
              cbind (scan_two (emit Ask_numbers s1)) (\<lambda>s2.
              cbind (dispatch L k s2) (\<lambda>s3. Inr (s3, False))))"

fun calc_loop :: "lib \<Rightarrow> nat \<Rightarrow> calc \<Rightarrow> calc c option" where
  "calc_loop L 0 s = None"
| "calc_loop L (Suc n) s = (case calc_round L s of
     Inl e \<Rightarrow> Some (Inl e)
   | Inr (t, stop) \<Rightarrow> if stop then Some (Inr t) else calc_loop L n t)"

definition calc_start :: "string \<Rightarrow> calc" where
  "calc_start i = \<lparr>inp = i, choice = None, num_a = None, num_b = None, outs = []\<rparr>"

definition static_main :: "nat \<Rightarrow> string \<Rightarrow> calc c option" where
  "static_main fuel i = calc_loop calc_lib fuel (calc_start i)"

text \<open>
  The other program: \<open>dlopen\<close> gives a handle or not, \<open>dlsym\<close> each of the names or not; when one is
  missing \<open>main\<close> returns 1.
\<close>

definition dynamic_main :: "(string \<Rightarrow> (int \<Rightarrow> int \<Rightarrow> int c) option) option \<Rightarrow> nat \<Rightarrow> string \<Rightarrow> calc c option" where
  "dynamic_main handle fuel i = (case handle of
     None \<Rightarrow> Some (Inl (Exit 1))
   | Some dlsym \<Rightarrow> (case (dlsym ''add'', dlsym ''sub'', dlsym ''mul'', dlsym ''divide'') of
       (Some a, Some s, Some m, Some d) \<Rightarrow>
         calc_loop \<lparr>lib_add = a, lib_sub = s, lib_mul = m, lib_div = d\<rparr> fuel (calc_start i)
     | _ \<Rightarrow> Some (Inl (Exit 1))))"

section \<open>Decimal numbers\<close>

text \<open>What a user types for a number, and that \<open>scanf\<close> reads it back.\<close>

fun decimal_nat :: "nat \<Rightarrow> string" where
  "decimal_nat n = (if n < 10 then [] else decimal_nat (n div 10)) @ [char_of (48 + n mod 10)]"

declare decimal_nat.simps [simp del]

definition decimal :: "int \<Rightarrow> string" where
  "decimal k = (if k < 0 then CHR ''-'' # decimal_nat (nat (- k)) else decimal_nat (nat k))"

lemma of_char_digit: "of_char (char_of (48 + n mod 10 :: nat) :: char) = (48 + n mod 10 :: nat)"
  by (simp add: of_char_of)

lemma decimal_nat_digits: "\<forall>d \<in> set (decimal_nat n). is_digit d"
proof (induction n rule: decimal_nat.induct)
  case (1 n)
  have "n mod 10 < 10" by simp
  then have "is_digit (char_of (48 + n mod 10 :: nat))" unfolding is_digit_def of_char_digit by linarith
  with 1 show ?case by (subst decimal_nat.simps) auto
qed

lemma digits_val_snoc: "digits_val (ds @ [d]) = 10 * digits_val ds + (of_char d - 48)"
  by (simp add: digits_val_def)

lemma decimal_nat_val: "digits_val (decimal_nat n) = int n"
proof (induction n rule: decimal_nat.induct)
  case (1 n)
  have c: "(of_char (char_of (48 + n mod 10 :: nat) :: char) :: int) = 48 + int (n mod 10)"
    by (simp only: of_nat_of_char [symmetric, where 'a = int] of_char_digit of_nat_add of_nat_numeral)
  show ?case
  proof (cases "n < 10")
    case True
    then have "n mod 10 = n" by simp
    with True c show ?thesis by (subst decimal_nat.simps) (simp add: digits_val_def)
  next
    case False
    have "int n = 10 * int (n div 10) + int (n mod 10)"
      by (metis mult_div_mod_eq of_nat_add of_nat_mult of_nat_numeral)
    with 1 False show ?thesis by (subst decimal_nat.simps) (simp add: digits_val_snoc c)
  qed
qed

lemma decimal_nat_hd: "\<exists>d ds. decimal_nat n = d # ds \<and> is_digit d"
proof -
  have "decimal_nat n \<noteq> []" by (subst decimal_nat.simps) simp
  then show ?thesis using decimal_nat_digits [of n] by (cases "decimal_nat n") auto
qed

lemma digit_not: "is_digit d \<Longrightarrow> \<not> is_space d \<and> d \<noteq> CHR ''-'' \<and> d \<noteq> CHR ''+''"
  by (auto simp: is_digit_def is_space_def)

lemma take_digits:
  assumes "\<forall>d \<in> set ds. is_digit d" and "\<not> is_digit c"
  shows "takeWhile is_digit (ds @ c # r) = ds" and "dropWhile is_digit (ds @ c # r) = c # r"
  using assms by (induction ds) auto

lemma scan_d_decimal:
  assumes "in_int k" and "is_space w" and "is_space c"
  shows "scan_d (w # decimal k @ c # r) = Inr (Some k, c # r)"
proof -
  have c: "\<not> is_digit c" using assms(3) digit_not by blast
  note t = take_digits [OF decimal_nat_digits c, of _ r]
  show ?thesis
  proof (cases "k < 0")
    case True
    have "\<not> is_space (CHR ''-'')" by (simp add: is_space_def)
    moreover have "decimal_nat (nat (- k)) \<noteq> []" using decimal_nat_hd by (metis list.distinct(1))
    ultimately show ?thesis
      using True assms by (simp add: scan_d_def scan_num_def decimal_def t decimal_nat_val)
  next
    case False
    obtain d ds where d: "decimal_nat (nat k) = d # ds" "is_digit d" using decimal_nat_hd by blast
    with False assms t [of "nat k"] decimal_nat_val [of "nat k"] digit_not [OF d(2)] show ?thesis
      by (simp add: scan_d_def scan_num_def decimal_def)
  qed
qed

section \<open>What a session computes\<close>

text \<open>A request: the number of a menu entry and two operands.\<close>

type_synonym request = "int \<times> int \<times> int"

definition typed :: "request \<Rightarrow> string" where
  "typed q = (case q of (k, a, b) \<Rightarrow> newline # decimal k @ newline # decimal a @ CHR '' '' # decimal b)"

definition script :: "request list \<Rightarrow> string" where
  "script qs = concat (map typed qs) @ newline # decimal 5 @ [newline]"

definition request_ok :: "request \<Rightarrow> bool" where
  "request_ok q = (case q of (k, a, b) \<Rightarrow> in_int k \<and> k \<noteq> 5 \<and> in_int a \<and> in_int b)"

text \<open>The exact value of a request, and what the program should print for it.\<close>

definition exact :: "request \<Rightarrow> int" where
  "exact q = (case q of (k, a, b) \<Rightarrow>
     if k = 1 then a + b else if k = 2 then a - b else if k = 3 then a * b
     else if b = 0 then 0 else quot a b)"

definition answer :: "request \<Rightarrow> out" where
  "answer q = (if fst q \<in> {1, 2, 3, 4} then Result (exact q) else Wrong_number)"

definition transcript :: "request list \<Rightarrow> out list" where
  "transcript qs = concat (map (\<lambda>q. [Calc_menu, Ask_numbers, answer q]) qs) @ [Calc_menu]"

text \<open>What the loop needs of a library: the exact value whenever it is an \<open>int\<close>.\<close>

locale calc_library =
  fixes L :: lib
  assumes add_law: "in_int (a + b) \<Longrightarrow> lib_add L a b = Inr (a + b)"
    and sub_law: "in_int (a - b) \<Longrightarrow> lib_sub L a b = Inr (a - b)"
    and mul_law: "in_int (a * b) \<Longrightarrow> lib_mul L a b = Inr (a * b)"
    and div_law: "b \<noteq> 0 \<Longrightarrow> in_int (quot a b) \<Longrightarrow> lib_div L a b = Inr (quot a b)"
    and div_zero: "lib_div L a 0 = Inr 0"
begin

lemma request_law:
  assumes "request_ok (k, a, b)" and "in_int (exact (k, a, b))" and "inp s = typed (k, a, b) @ newline # r"
  shows "calc_round L s = Inr (s\<lparr>inp := newline # r, choice := Some k, num_a := Some a, num_b := Some b,
    outs := outs s @ [Calc_menu, Ask_numbers, answer (k, a, b)]\<rparr>, False)"
proof -
  let ?n = "newline # decimal a @ CHR '' '' # decimal b @ newline # r"
  let ?s = "s\<lparr>inp := ?n, choice := Some k, outs := outs s @ [Calc_menu, Ask_numbers]\<rparr>"
  let ?t = "?s\<lparr>inp := newline # r, num_a := Some a, num_b := Some b\<rparr>"
  have sp: "is_space (CHR '' '')" by (simp add: is_space_def)
  have k: "scan_d (inp s) = Inr (Some k, ?n)"
    using assms(1,3) scan_d_decimal [of k newline newline "tl ?n"] by (simp add: typed_def request_ok_def)
  have two: "scan_two ?s = Inr ?t"
    using assms(1) scan_d_decimal [of a newline "CHR '' ''" "decimal b @ newline # r"]
      scan_d_decimal [of b "CHR '' ''" newline r] sp
    by (simp add: scan_two_def request_ok_def)
  have "k = 1 \<or> k = 2 \<or> k = 3 \<or> k = 4 \<or> k \<notin> {1, 2, 3, 4}" by blast
  then have "dispatch L k ?t = Inr (emit (answer (k, a, b)) ?t)"
    using assms(2) add_law sub_law mul_law div_law div_zero
    by (auto simp: dispatch_def apply_op_def answer_def exact_def)
  moreover have "emit Ask_numbers (emit Calc_menu (s\<lparr>inp := ?n, choice := Some k\<rparr>)) = ?s"
    by (simp add: emit_def)
  moreover have "k \<noteq> 5" using assms(1) by (simp add: request_ok_def)
  ultimately have "calc_round L s = Inr (emit (answer (k, a, b)) ?t, False)"
    using k two by (simp add: calc_round_def Let_def emit_def)
  then show ?thesis by (simp add: emit_def)
qed

lemma session_law:
  assumes "\<forall>q \<in> set qs. request_ok q \<and> in_int (exact q)" and "inp s = script qs" and "length qs < fuel"
  shows "\<exists>t. calc_loop L fuel s = Some (Inr t) \<and> outs t = outs s @ transcript qs"
  using assms
proof (induction qs arbitrary: s fuel)
  case Nil
  then obtain n where "fuel = Suc n" by (cases fuel) auto
  moreover have "in_int 5" by (simp add: in_int_def)
  then have "scan_d (inp s) = Inr (Some 5, [newline])"
    using Nil scan_d_decimal [of 5 newline newline "[]"] by (simp add: script_def)
  ultimately show ?case by (simp add: calc_round_def transcript_def emit_def)
next
  case (Cons q qs)
  obtain k a b where q: "q = (k, a, b)" by (cases q)
  obtain n where n: "fuel = Suc n" "length qs < n" using Cons.prems(3) by (cases fuel) auto
  obtain r where r: "script qs = newline # r"
    by (cases qs) (auto simp: script_def typed_def split: prod.splits)
  have "inp s = typed (k, a, b) @ newline # r" using Cons.prems(2) r q by (simp add: script_def)
  note step = request_law [OF _ _ this]
  let ?s = "s\<lparr>inp := newline # r, choice := Some k, num_a := Some a, num_b := Some b,
    outs := outs s @ [Calc_menu, Ask_numbers, answer (k, a, b)]\<rparr>"
  have "\<exists>t. calc_loop L n ?s = Some (Inr t) \<and> outs t = outs ?s @ transcript qs"
    using Cons.prems(1) n(2) r by (intro Cons.IH) simp_all
  then show ?case using step Cons.prems(1) q n(1) by (simp add: transcript_def)
qed

end

interpretation calc: calc_library calc_lib
  by unfold_locales (simp_all add: calc_lib_def add_def sub_def mul_def divide_def chk_def)

definition so_lib :: lib where
  "so_lib = \<lparr>lib_add = so_add, lib_sub = so_sub, lib_mul = so_mul, lib_div = so_divide\<rparr>"

interpretation so_calc: calc_library so_lib
  by unfold_locales (simp_all add: so_lib_def so_add_def so_sub_def so_mul_def so_divide_def chk_def)

text \<open>\<open>dlsym\<close> finds what the library exports, and may find other names elsewhere.\<close>

lemma dynamic_main_so:
  "libcalc_so \<subseteq>\<^sub>m dlsym \<Longrightarrow> dynamic_main (Some dlsym) fuel i = calc_loop so_lib fuel (calc_start i)"
  unfolding map_le_def by (auto simp: libcalc_so_def dynamic_main_def so_lib_def eq_commute [of "Some f" "dlsym n" for f n])

section \<open>Properties\<close>

text \<open>
  C21: for every list of requests whose exact results are \<open>int\<close>s, both calculators print the exact result
  of each, with a message for every number that is not on the menu, and end; the second one whatever
  else its library exports.
\<close>

theorem calc_session:
  assumes "\<forall>q \<in> set qs. request_ok q \<and> in_int (exact q)" and "length qs < fuel" and "libcalc_so \<subseteq>\<^sub>m dlsym"
  shows "\<exists>t u. static_main fuel (script qs) = Some (Inr t) \<and> dynamic_main (Some dlsym) fuel (script qs) = Some (Inr u) \<and>
    outs t = transcript qs \<and> outs u = transcript qs"
  using calc.session_law [OF assms(1) _ assms(2), of "calc_start (script qs)"]
    so_calc.session_law [OF assms(1) _ assms(2), of "calc_start (script qs)"]
  by (auto simp: static_main_def dynamic_main_so [OF assms(3)] calc_start_def)

theorem calc_session_witness:
  "\<exists>t u. static_main 4 (script [(1, 2, 3), (4, -7, 2), (9, 0, 0)]) = Some (Inr t) \<and>
     dynamic_main (Some libcalc_so) 4 (script [(1, 2, 3), (4, -7, 2), (9, 0, 0)]) = Some (Inr u) \<and> outs u = outs t \<and>
     outs t = [Calc_menu, Ask_numbers, Result 5, Calc_menu, Ask_numbers, Result (-3),
       Calc_menu, Ask_numbers, Wrong_number, Calc_menu]"
  using calc_session [of "[(1, 2, 3), (4, -7, 2), (9, 0, 0)]" 4 libcalc_so]
  by (auto simp: request_ok_def exact_def in_int_def quot_def transcript_def answer_def)

text \<open>
  \<open>divide\<close> gives 0 for a divisor of 0, overflows for the least \<open>int\<close> divided by -1 and for nothing
  else, and otherwise truncates towards zero: the remainder is smaller than the divisor and has the
  sign of the dividend.
\<close>

theorem divide_correct:
  assumes "in_int a" and "in_int b"
  shows "(b = 0 \<and> divide a b = Inr 0) \<or>
    (a = - 2147483648 \<and> b = - 1 \<and> divide a b = Inl Signed_Overflow) \<or>
    (\<exists>q r. divide a b = Inr q \<and> in_int q \<and> a = q * b + r \<and> \<bar>r\<bar> < \<bar>b\<bar> \<and> (r = 0 \<or> sgn r = sgn a))"
proof (cases "b = 0")
  case True
  then show ?thesis by (simp add: divide_def)
next
  case False
  define m where "m = \<bar>a\<bar> mod \<bar>b\<bar>"
  let ?q = "quot a b" and ?r = "sgn a * m"
  have m: "0 \<le> m" "m < \<bar>b\<bar>" using False by (simp_all add: m_def)
  have "a = ?q * b + ?r" using quot_rem [of a b] by (simp add: m_def)
  moreover have "\<bar>?r\<bar> < \<bar>b\<bar>" "?r = 0 \<or> sgn ?r = sgn a"
    using m by (auto simp: abs_mult sgn_mult sgn_if m_def)
  ultimately have r: "a = ?q * b + ?r \<and> \<bar>?r\<bar> < \<bar>b\<bar> \<and> (?r = 0 \<or> sgn ?r = sgn a)" by blast
  show ?thesis
  proof (cases "in_int ?q")
    case True
    then have "divide a b = Inr ?q" using False by (simp add: divide_def)
    then show ?thesis using True r by blast
  next
    case nofit: False
    have "\<bar>b\<bar> = 1"
    proof (rule ccontr)
      assume "\<bar>b\<bar> \<noteq> 1"
      then have "\<bar>a\<bar> div \<bar>b\<bar> \<le> \<bar>a\<bar> div 2" using False by (intro zdiv_mono2) auto
      also have "\<dots> \<le> 2147483648 div 2" using assms(1) by (intro zdiv_mono1) (auto simp: in_int_def)
      finally have "\<bar>?q\<bar> \<le> 1073741824" using quot_abs [OF False, of a] by simp
      with nofit show False by (auto simp: in_int_def)
    qed
    then have "b = 1 \<or> b = - 1" by auto
    then have "b = - 1 \<and> ?q = - a"
      using nofit assms(1) by (auto simp: quot_def sgn_mult_abs)
    then have "b = - 1" "a = - 2147483648" using nofit assms(1) by (auto simp: in_int_def)
    then show ?thesis by (simp add: divide_def quot_def chk_def in_int_def)
  qed
qed

theorem divide_correct_witness:
  "divide (- 2147483648) (- 1) = Inl Signed_Overflow \<and> divide (- 7) 2 = Inr (- 3)"
  using divide_correct [of "- 7" 2] by (simp add: in_int_def divide_def quot_def chk_def)

end
