(* ===== verification/Text_Tasks.thy ===== *)
theory Text_Tasks
  imports Stdio
begin

text \<open>
  Two programs on strings they read: \<open>pointers/task4.c\<close> looks for a substring, \<open>functions/task.c\<close>
  asks for a password.
\<close>

section \<open>Looking for a substring\<close>

text \<open>The inner loop: how much of the pattern is left when it stops. A list is the rest of a string.\<close>

fun match_loop :: "string \<Rightarrow> string \<Rightarrow> string" where
  "match_loop (c # cs) (d # ds) = (if c = d then match_loop cs ds else d # ds)"
| "match_loop [] ds = ds"
| "match_loop cs [] = []"

fun find_substring :: "string \<Rightarrow> string \<Rightarrow> string option" where
  "find_substring [] p = None"
| "find_substring (c # cs) p = (if match_loop (c # cs) p = [] then Some (c # cs) else find_substring cs p)"

text \<open>\<open>fgets\<close> into a local array of 100 characters and \<open>s[strcspn(s, "\n")] = 0\<close>.\<close>

definition read_line :: "string \<Rightarrow> (string \<times> string) c" where
  "read_line i = cbind (fgets 100 (replicate 100 NUL) i) (\<lambda>(b, r). case b of
     None \<Rightarrow> Inl Uninit_Read
   | Some b \<Rightarrow> Inr (takeWhile (\<lambda>c. c \<noteq> newline) (cstr b), r))"

text \<open>\<open>main\<close>: the string from the place found on, or that there is none.\<close>

definition substring_main :: "string \<Rightarrow> string option c" where
  "substring_main i = cbind (read_line i) (\<lambda>(s, i1). cbind (read_line i1) (\<lambda>(p, i2). Inr (find_substring s p)))"

lemma match_loop_iff: "match_loop s p = [] \<longleftrightarrow> take (length p) s = p"
  by (induction s p rule: match_loop.induct) auto

text \<open>The first place where the pattern is, among those that are not at the end of the string.\<close>

definition occurs_at :: "string \<Rightarrow> string \<Rightarrow> nat \<Rightarrow> bool" where
  "occurs_at p s k \<longleftrightarrow> k < length s \<and> take (length p) (drop k s) = p"

lemma occurs_at_Cons: "occurs_at p (c # s) (Suc k) = occurs_at p s k"
  by (simp add: occurs_at_def)

lemma find_substring_eq:
  "find_substring s p = (if \<exists>k. occurs_at p s k then Some (drop (LEAST k. occurs_at p s k) s) else None)"
proof (induction s)
  case Nil
  then show ?case by (simp add: occurs_at_def)
next
  case (Cons c s)
  show ?case
  proof (cases "occurs_at p (c # s) 0")
    case True
    then have "(LEAST k. occurs_at p (c # s) k) = 0" by (simp add: Least_eq_0)
    moreover have "match_loop (c # s) p = []"
      using True by (simp add: match_loop_iff occurs_at_def del: match_loop.simps)
    ultimately show ?thesis using True by auto
  next
    case False
    then have m: "match_loop (c # s) p \<noteq> []"
      by (simp add: match_loop_iff occurs_at_def del: match_loop.simps)
    have ex: "(\<exists>k. occurs_at p (c # s) k) \<longleftrightarrow> (\<exists>k. occurs_at p s k)"
      using False occurs_at_Cons by (metis not0_implies_Suc)
    have "\<exists>k. occurs_at p (c # s) k \<Longrightarrow>
        (LEAST k. occurs_at p (c # s) k) = Suc (LEAST k. occurs_at p s k)"
      using False Least_Suc [of "occurs_at p (c # s)"] by (auto simp: occurs_at_Cons)
    then show ?thesis using Cons m ex by simp
  qed
qed

lemma read_line_eq:
  assumes "newline \<notin> set s" and "NUL \<notin> set s" and "length s < 99"
  shows "read_line (s @ newline # r) = Inr (s, r)"
proof -
  have t: "takeWhile (\<lambda>c. c \<noteq> newline) (s @ newline # r) = s" for r
    using assms(1) by (induction s) auto
  have "fgets_line 100 (s @ newline # r) = s @ [newline]"
    unfolding fgets_line_def t using assms(3) by simp
  moreover have "NUL \<notin> set (s @ [newline])" using assms(2) by simp
  moreover have "s @ newline # r \<noteq> []" by simp
  ultimately have "fgets 100 (replicate 100 NUL) (s @ newline # r) =
      Inr (Some ((s @ [newline]) @ NUL # drop (Suc (length (s @ [newline]))) (replicate 100 NUL)), r)"
    using assms(3) by (simp add: fgets_def put_str_def del: append_assoc)
  then show ?thesis
    using assms(2) cstr_append_NUL [of "s @ [newline]"] t [of "[]"] by (simp add: read_line_def)
qed

section \<open>The password\<close>

text \<open>
  \<open>gets(Pass)\<close> into \<open>char Pass[12]\<close>: the next line, whatever its length; \<open>strcmp\<close> stops at the first
  NUL. At the end of the input the array keeps its indeterminate content.
\<close>

definition gets :: "nat \<Rightarrow> string \<Rightarrow> char list c" where
  "gets n i = (if i = [] then Inl Uninit_Read
     else put_str (replicate n NUL) (takeWhile (\<lambda>c. c \<noteq> newline) i))"

definition is_pass_ok :: "string \<Rightarrow> bool c" where
  "is_pass_ok i = cbind (gets 12 i) (\<lambda>b. cbind (get_str b) (\<lambda>s. Inr (s = ''test'')))"

definition password_main :: "string \<Rightarrow> string c" where
  "password_main i = cbind (is_pass_ok i) (\<lambda>ok. if ok then Inr ''Access granted!'' else Inl (Exit 1))"

lemma cstr_append_any: "cstr (w @ NUL # r) = cstr w"
  by (induction w) (simp_all add: cstr_def)

section \<open>Properties\<close>

text \<open>
  C22: for two lines that fit their arrays the program shows the first string from the first place on
  where the second one occurs in it, and says so when there is none; in an empty string not even the
  empty string is found.
\<close>

theorem substring_correct:
  assumes "newline \<notin> set s" and "NUL \<notin> set s" and "length s < 99"
    and "newline \<notin> set p" and "NUL \<notin> set p" and "length p < 99"
  shows "substring_main (s @ newline # p @ newline # r) =
    Inr (if \<exists>k. occurs_at p s k then Some (drop (LEAST k. occurs_at p s k) s) else None)"
  using read_line_eq [OF assms(1-3), of "p @ newline # r"] read_line_eq [OF assms(4-6), of r]
  by (simp add: substring_main_def find_substring_eq)

theorem substring_correct_witness:
  "substring_main (''abab'' @ newline # ''ba'' @ newline # []) = Inr (Some ''bab'')"
proof -
  have o: "occurs_at ''ba'' ''abab'' 1" by (simp add: occurs_at_def)
  moreover have "\<not> occurs_at ''ba'' ''abab'' 0" by (simp add: occurs_at_def)
  then have "(LEAST k. occurs_at ''ba'' ''abab'' k) = 1"
    using o by (intro Least_equality) (auto intro: Suc_leI gr0I)
  ultimately show ?thesis using substring_correct [of "''abab''" "''ba''" "[]"] by auto
qed

text \<open>
  Access is granted exactly for a line that is \<open>test\<close> up to its first NUL; a line of 12 characters or
  more overflows the array before it is compared.
\<close>

theorem password_correct:
  "password_main i = (let w = takeWhile (\<lambda>c. c \<noteq> newline) i in
     if i = [] then Inl Uninit_Read
     else if 12 \<le> length w then Inl Write_Overflow
     else if cstr w = ''test'' then Inr ''Access granted!'' else Inl (Exit 1))"
  by (simp add: password_main_def is_pass_ok_def gets_def put_str_def Let_def cstr_append_any get_str_def)

end
