(* ===== verification/Shell.thy ===== *)
theory Shell
  imports Stdio
begin

text \<open>
  The two shells: \<open>pipes/task3.c\<close> runs a command or a pipe of two, \<open>processes/task3.c\<close> a command.
  A command line becomes an action: which program is executed with which argument vector. What the
  executed programs do is outside the model; the shell waits for them. Here every program is found and
  the calls of \<open>fork\<close> and \<open>pipe\<close> succeed; the theory \<open>Shell_Processes\<close> has what happens otherwise.
\<close>

section \<open>Tokens\<close>

definition MAX_ARGS :: nat where "MAX_ARGS = 10"

definition MAX_LINE :: nat where "MAX_LINE = 1024"

text \<open>
  One call of \<open>strtok\<close> on the string from its saved position on: the token, and the string from the new
  position on; \<open>None\<close> when only separators are left.
\<close>

definition strtok :: "char \<Rightarrow> string \<Rightarrow> (string \<times> string) option" where
  "strtok d s = (let t = dropWhile (\<lambda>c. c = d) s in
     if t = [] then None
     else Some (takeWhile (\<lambda>c. c \<noteq> d) t, tl (dropWhile (\<lambda>c. c \<noteq> d) t)))"

text \<open>What the buffer is as a string after that first call, with a NUL put behind the token.\<close>

definition after_strtok :: "char \<Rightarrow> string \<Rightarrow> string" where
  "after_strtok d s = takeWhile (\<lambda>c. c = d) s @ takeWhile (\<lambda>c. c \<noteq> d) (dropWhile (\<lambda>c. c = d) s)"

lemma strtok_shorter: "strtok d s = Some (t, r) \<Longrightarrow> length r < length s"
proof -
  assume "strtok d s = Some (t, r)"
  then have n: "dropWhile (\<lambda>c. c = d) s \<noteq> []" and r: "r = tl (dropWhile (\<lambda>c. c \<noteq> d) (dropWhile (\<lambda>c. c = d) s))"
    by (auto simp: strtok_def Let_def split: if_splits)
  have "length (dropWhile (\<lambda>c. c \<noteq> d) (dropWhile (\<lambda>c. c = d) s)) \<le> length s"
    by (meson le_trans length_dropWhile_le)
  moreover have "0 < length s" using n by (cases s) auto
  ultimately show ?thesis unfolding r by (simp only: length_tl)
qed

text \<open>
  The loops that fill an argument vector, from index \<open>i\<close> on: the ones of the pipe stop at
  \<open>MAX_ARGS - 1\<close>, the others write wherever \<open>i\<close> has got to.
\<close>

function bounded_args :: "nat \<Rightarrow> string \<Rightarrow> string list" where
  "bounded_args i s = (case strtok (CHR '' '') s of
     None \<Rightarrow> []
   | Some (t, r) \<Rightarrow> if i < MAX_ARGS - 1 then t # bounded_args (Suc i) r else [])"
  by pat_completeness auto
termination by (relation "measure (\<lambda>(i, s). length s)") (auto simp: strtok_shorter)

function all_args :: "nat \<Rightarrow> string \<Rightarrow> string list c" where
  "all_args i s =
     (if i < MAX_ARGS then
        (case strtok (CHR '' '') s of
           None \<Rightarrow> Inr []
         | Some (t, r) \<Rightarrow> cbind (all_args (Suc i) r) (\<lambda>ts. Inr (t # ts)))
      else Inl Write_Overflow)"
  by pat_completeness auto
termination by (relation "measure (\<lambda>(i, s). length s)") (auto simp: strtok_shorter)

declare bounded_args.simps [simp del] all_args.simps [simp del]

section \<open>Lines\<close>

text \<open>\<open>line[strlen(line) - 1] = 0\<close>, on the string in \<open>line\<close>.\<close>

definition cut_last :: "string \<Rightarrow> string c" where
  "cut_last s = (if s = [] then Inl Write_Overflow else Inr (butlast s))"

text \<open>\<open>fgets(line, MAX_LINE, stdin)\<close>: the string then in \<open>line\<close>, and the rest of the input.\<close>

definition next_line :: "string \<Rightarrow> (string \<times> string) option" where
  "next_line i = (if i = [] then None
     else Some (cstr (fgets_line MAX_LINE i), drop (length (fgets_line MAX_LINE i)) i))"

lemma next_line_shorter: "next_line i = Some (s, r) \<Longrightarrow> length r < length i"
proof -
  assume n: "next_line i = Some (s, r)"
  then have i: "i \<noteq> []" and r: "r = drop (length (fgets_line MAX_LINE i)) i"
    by (auto simp: next_line_def split: if_splits)
  then have "fgets_line MAX_LINE i \<noteq> []" by (cases i) (auto simp: fgets_line_def MAX_LINE_def)
  then show ?thesis using i r by simp
qed

text \<open>
  What the shell does for a line: execute a program with an argument vector, or two with the output of
  the first going to the second. An empty vector is a \<open>NULL\<close> program.
\<close>

datatype action = Run string "string list" | Pipe "string list" "string list"

section \<open>The shell with pipes\<close>

definition single_command :: "string \<Rightarrow> action c" where
  "single_command line =
     cbind (all_args 0 line) (\<lambda>args. case args of
       [] \<Rightarrow> Inl Null_Deref
     | cmd # _ \<Rightarrow> if cmd = ''exit'' then Inl (Exit 0) else Inr (Run cmd args))"

definition pipe_line :: "string \<Rightarrow> action c" where
  "pipe_line l =
     cbind (cut_last l) (\<lambda>line.
     case strtok (CHR ''|'') line of
       None \<Rightarrow> single_command (after_strtok (CHR ''|'') line)
     | Some (cmd1, rest) \<Rightarrow> (case strtok (CHR ''|'') rest of
         None \<Rightarrow> single_command (after_strtok (CHR ''|'') line)
       | Some (cmd2, _) \<Rightarrow> Inr (Pipe (bounded_args 0 cmd1) (bounded_args 0 cmd2))))"

text \<open>The loop of \<open>main\<close>: the actions, and how it ends.\<close>

function pipe_shell :: "string \<Rightarrow> action list \<times> stop" where
  "pipe_shell i = (case next_line i of
     None \<Rightarrow> ([], Exit 0)
   | Some (l, r) \<Rightarrow> (case pipe_line l of
       Inl e \<Rightarrow> ([], e)
     | Inr a \<Rightarrow> (case pipe_shell r of (as, e) \<Rightarrow> (a # as, e))))"
  by pat_completeness auto
termination by (relation "measure length") (auto simp: next_line_shorter)

declare pipe_shell.simps [simp del]

section \<open>The shell without pipes\<close>

definition plain_line :: "string \<Rightarrow> (action \<times> string) c" where
  "plain_line l =
     cbind (cut_last l) (\<lambda>line.
     case strtok (CHR '' '') line of
       None \<Rightarrow> Inl Null_Deref
     | Some (cmd, rest) \<Rightarrow> cbind (all_args 0 rest) (\<lambda>args.
         if cmd = ''exit'' then Inl (Exit 0) else Inr (Run cmd args, after_strtok (CHR '' '') line)))"

lemma plain_line_shorter: "plain_line l = Inr (a, l') \<Longrightarrow> length l' < length l"
proof -
  assume "plain_line l = Inr (a, l')"
  then have l: "l \<noteq> []" "l' = after_strtok (CHR '' '') (butlast l)"
    by (auto simp: plain_line_def cut_last_def split: option.splits if_splits)
  have "length (after_strtok d s) \<le> length s" for d s
  proof -
    have "length (takeWhile (\<lambda>c. c \<noteq> d) (dropWhile (\<lambda>c. c = d) s)) \<le> length (dropWhile (\<lambda>c. c = d) s)"
      by (rule length_takeWhile_le)
    moreover have "length (takeWhile (\<lambda>c. c = d) s) + length (dropWhile (\<lambda>c. c = d) s) = length s"
      by (metis length_append takeWhile_dropWhile_id)
    ultimately show ?thesis by (simp add: after_strtok_def)
  qed
  from this [of "CHR '' ''" "butlast l"] l show ?thesis by (cases l) auto
qed

text \<open>
  The loop of \<open>main\<close>; \<open>line\<close> is what the buffer holds from the round before, \<open>None\<close> before the first
  one. At the end of the input \<open>fgets\<close> leaves it as it is and nobody looks at its result.
\<close>

function plain_shell :: "string option \<Rightarrow> string \<Rightarrow> action list \<times> stop" where
  "plain_shell line i = (case (case next_line i of None \<Rightarrow> (line, []) | Some (l, r) \<Rightarrow> (Some l, r)) of
     (None, r) \<Rightarrow> ([], Uninit_Read)
   | (Some l, r) \<Rightarrow> (case plain_line l of
       Inl e \<Rightarrow> ([], e)
     | Inr (a, l') \<Rightarrow> (case plain_shell (Some l') r of (as, e) \<Rightarrow> (a # as, e))))"
  by pat_completeness auto
termination
  by (relation "measures [\<lambda>(line, i). length i, \<lambda>(line, i). case line of None \<Rightarrow> 0 | Some l \<Rightarrow> length l]")
    (auto split: option.splits dest: next_line_shorter plain_line_shorter)

declare plain_shell.simps [simp del]

section \<open>Words\<close>

text \<open>A word has no separator in it; a command line is words with a blank between them.\<close>

definition word :: "string \<Rightarrow> bool" where
  "word w \<longleftrightarrow> w \<noteq> [] \<and> CHR '' '' \<notin> set w \<and> CHR ''|'' \<notin> set w \<and> NUL \<notin> set w"

fun unwords :: "string list \<Rightarrow> string" where
  "unwords [] = []"
| "unwords [w] = w"
| "unwords (w # v # ws) = w @ CHR '' '' # unwords (v # ws)"

definition blanks :: "string \<Rightarrow> bool" where
  "blanks b \<longleftrightarrow> (\<forall>c \<in> set b. c = CHR '' '')"

lemma strtok_word:
  assumes "w \<noteq> []" and "d \<notin> set w"
  shows "strtok d w = Some (w, [])" and "strtok d (w @ d # r) = Some (w, r)"
proof -
  obtain c cs where w: "w = c # cs" using assms(1) by (cases w) auto
  have a: "dropWhile (\<lambda>c. c = d) (w @ x) = w @ x" for x using assms by (auto simp: w)
  have t: "takeWhile (\<lambda>c. c \<noteq> d) w = w" "dropWhile (\<lambda>c. c \<noteq> d) w = []" using assms(2) by auto
  have b: "takeWhile (\<lambda>c. c \<noteq> d) (w @ d # r) = w" "dropWhile (\<lambda>c. c \<noteq> d) (w @ d # r) = d # r"
    using assms(2) by (induction w) auto
  show "strtok d w = Some (w, [])" using a [of "[]"] t assms(1) by (simp add: strtok_def del: dropWhile_eq_Nil_conv takeWhile_eq_all_conv)
  show "strtok d (w @ d # r) = Some (w, r)" using a [of "d # r"] b by (simp add: strtok_def)
qed

lemma strtok_skip: "strtok d (d # s) = strtok d s"
  by (simp add: strtok_def)

lemma strtok_blanks: "blanks b \<Longrightarrow> strtok (CHR '' '') b = None"
  by (simp add: strtok_def blanks_def)

lemma bounded_args_skip: "bounded_args i (CHR '' '' # s) = bounded_args i s"
  by (subst (1 2) bounded_args.simps) (simp add: strtok_skip)

lemma unwords_step:
  assumes "\<forall>w \<in> set (w # ws). word w" and "blanks b"
  shows "\<exists>r. strtok (CHR '' '') (unwords (w # ws) @ b) = Some (w, r) \<and> (\<exists>b'. r = unwords ws @ b' \<and> blanks b')"
proof (cases ws)
  case Nil
  have w: "w \<noteq> []" "CHR '' '' \<notin> set w" using assms(1) by (auto simp: word_def)
  show ?thesis
  proof (cases b)
    case Nil
    then show ?thesis using strtok_word(1) [OF w] \<open>ws = []\<close> by (auto simp: blanks_def)
  next
    case (Cons c r)
    then have "c = CHR '' ''" "blanks r" using assms(2) by (auto simp: blanks_def)
    then show ?thesis using strtok_word(2) [OF w] \<open>ws = []\<close> Cons by auto
  qed
next
  case (Cons v vs)
  have w: "w \<noteq> []" "CHR '' '' \<notin> set w" using assms(1) by (auto simp: word_def)
  then show ?thesis using strtok_word(2) [OF w, of "unwords ws @ b"] assms(2) Cons by auto
qed

lemma bounded_args_unwords:
  "\<forall>w \<in> set ws. word w \<Longrightarrow> blanks b \<Longrightarrow> i < MAX_ARGS \<Longrightarrow>
   bounded_args i (unwords ws @ b) = take (MAX_ARGS - 1 - i) ws"
proof (induction ws arbitrary: i b)
  case Nil
  then show ?case by (subst bounded_args.simps) (simp add: strtok_blanks)
next
  case (Cons w ws)
  obtain r b' where r: "strtok (CHR '' '') (unwords (w # ws) @ b) = Some (w, r)" "r = unwords ws @ b'" "blanks b'"
    using unwords_step [OF Cons.prems(1,2)] by blast
  show ?case
  proof (cases "i < MAX_ARGS - 1")
    case True
    then have "bounded_args (Suc i) r = take (MAX_ARGS - 1 - Suc i) ws"
      using Cons r by simp
    moreover have "MAX_ARGS - 1 - i = Suc (MAX_ARGS - 1 - Suc i)" using True by simp
    ultimately show ?thesis using r(1) True by (subst bounded_args.simps) simp
  next
    case False
    then show ?thesis using r(1) by (subst bounded_args.simps) simp
  qed
qed

lemma all_args_unwords:
  "\<forall>w \<in> set ws. word w \<Longrightarrow> blanks b \<Longrightarrow>
   all_args i (unwords ws @ b) = (if i + length ws < MAX_ARGS then Inr ws else Inl Write_Overflow)"
proof (induction ws arbitrary: i b)
  case Nil
  then show ?case by (subst all_args.simps) (simp add: strtok_blanks)
next
  case (Cons w ws)
  obtain r b' where r: "strtok (CHR '' '') (unwords (w # ws) @ b) = Some (w, r)" "r = unwords ws @ b'" "blanks b'"
    using unwords_step [OF Cons.prems(1,2)] by blast
  have "all_args (Suc i) r = (if Suc i + length ws < MAX_ARGS then Inr ws else Inl Write_Overflow)"
    using Cons r by simp
  then show ?case using r(1) by (subst all_args.simps) auto
qed

lemma unwords_set: "\<forall>w \<in> set ws. word w \<Longrightarrow> CHR ''|'' \<notin> set (unwords ws)"
  by (induction ws rule: unwords.induct) (auto simp: word_def)

lemma unwords_ne: "\<forall>w \<in> set ws. word w \<Longrightarrow> ws \<noteq> [] \<Longrightarrow> unwords ws \<noteq> []"
  by (induction ws rule: unwords.induct) (auto simp: word_def)

lemma pipe_line_snoc: "pipe_line (s @ [c]) = (case strtok (CHR ''|'') s of
       None \<Rightarrow> single_command (after_strtok (CHR ''|'') s)
     | Some (cmd1, rest) \<Rightarrow> (case strtok (CHR ''|'') rest of
         None \<Rightarrow> single_command (after_strtok (CHR ''|'') s)
       | Some (cmd2, _) \<Rightarrow> Inr (Pipe (bounded_args 0 cmd1) (bounded_args 0 cmd2))))"
  by (simp add: pipe_line_def cut_last_def)

lemma cut_command:
  assumes "CHR '' '' \<notin> set w" "take 4 w \<noteq> ''exit''" "Suc n \<le> length w" "0 < n"
  shows "plain_line (take (Suc n) w) = Inr (Run (take n w) [], take n w)"
proof -
  let ?t = "take n w"
  have cut: "cut_last (take (Suc n) w) = Inr ?t"
    using assms(3) by (auto simp: cut_last_def butlast_take)
  have t: "?t \<noteq> []" "CHR '' '' \<notin> set ?t" using assms by (auto dest: in_set_takeD)
  have "?t \<noteq> ''exit''"
  proof
    assume e: "?t = ''exit''"
    have "4 \<le> n" using arg_cong [OF e, of length] by simp
    then have "take 4 w = take 4 ?t" by (simp add: min_def)
    then show False using e assms(2) by simp
  qed
  moreover have "after_strtok (CHR '' '') ?t = ?t"
    using t by (cases ?t) (auto simp: after_strtok_def)
  moreover have "all_args 0 [] = Inr []"
    by (subst all_args.simps) (simp add: strtok_def MAX_ARGS_def)
  ultimately show ?thesis
    using cut by (simp add: plain_line_def strtok_word(1) [OF t])
qed

lemma cut_commands:
  assumes "CHR '' '' \<notin> set w" "take 4 w \<noteq> ''exit''" "0 < n" "n \<le> length w"
  shows "plain_shell (Some (take n w)) [] = (map (\<lambda>k. Run (take k w) []) (rev [1..<n]), Null_Deref)"
  using assms(3,4)
proof (induction n)
  case 0
  then show ?case by simp
next
  case (Suc n)
  have nl: "next_line [] = None" by (simp add: next_line_def)
  show ?case
  proof (cases "n = 0")
    case True
    then have "plain_line (take (Suc n) w) = Inl Null_Deref"
      using Suc.prems by (auto simp: plain_line_def cut_last_def butlast_take strtok_def)
    with True nl show ?thesis by (subst plain_shell.simps) simp
  next
    case False
    then show ?thesis
      using Suc nl cut_command [OF assms(1,2) Suc.prems(2)] by (subst plain_shell.simps) simp
  qed
qed

section \<open>Properties\<close>

text \<open>
  C17: a line of words without a pipe runs the program of the first word with all words as its
  arguments, when there are at most nine; ten or more overflow the vector, an empty line passes
  \<open>NULL\<close> to \<open>strcmp\<close>, and \<open>exit\<close> leaves the shell.
\<close>

theorem shell_single_command:
  assumes "\<forall>w \<in> set ws. word w"
  shows "pipe_line (unwords ws @ [newline]) =
    (if MAX_ARGS \<le> length ws then Inl Write_Overflow
     else if ws = [] then Inl Null_Deref
     else if hd ws = ''exit'' then Inl (Exit 0)
     else Inr (Run (hd ws) ws))"
proof -
  let ?s = "unwords ws"
  have bar: "CHR ''|'' \<notin> set ?s" using assms by (rule unwords_set)
  then have a: "after_strtok (CHR ''|'') ?s = ?s"
    by (cases ?s) (auto simp: after_strtok_def)
  have "strtok (CHR ''|'') [] = None" by (simp add: strtok_def)
  then have "pipe_line (?s @ [newline]) = single_command ?s"
    using a strtok_word(1) [of ?s "CHR ''|''"] bar by (cases "?s = []") (simp_all add: pipe_line_def cut_last_def)
  also have "\<dots> = (if MAX_ARGS \<le> length ws then Inl Write_Overflow
     else if ws = [] then Inl Null_Deref
     else if hd ws = ''exit'' then Inl (Exit 0)
     else Inr (Run (hd ws) ws))"
    using all_args_unwords [OF assms, of "[]" 0] by (cases ws) (auto simp: single_command_def blanks_def)
  finally show ?thesis .
qed

theorem shell_single_command_witness:
  "pipe_line (unwords [''ls'', ''-l''] @ [newline]) = Inr (Run ''ls'' [''ls'', ''-l'']) \<and>
   pipe_line (unwords (replicate 10 ''a'') @ [newline]) = Inl Write_Overflow"
  using shell_single_command [of "[''ls'', ''-l'']"] shell_single_command [of "replicate 10 ''a''"]
  by (simp add: word_def MAX_ARGS_def)

text \<open>
  A line with a pipe runs the two programs with the words before and behind the bar as their
  arguments, the first nine of them; whatever comes behind a second bar is ignored.
\<close>

theorem shell_pipe_command:
  assumes "\<forall>w \<in> set vs. word w" and "\<forall>w \<in> set ws. word w" and "vs \<noteq> []" and "ws \<noteq> []"
    and "rest = [] \<or> hd rest = CHR ''|''"
  shows "pipe_line (unwords vs @ '' | '' @ unwords ws @ rest @ [newline]) = Inr (Pipe (take 9 vs) (take 9 ws))"
proof -
  let ?v = "unwords vs @ '' ''" and ?w = "CHR '' '' # unwords ws"
  have v: "?v \<noteq> []" "CHR ''|'' \<notin> set ?v" and w: "?w \<noteq> []" "CHR ''|'' \<notin> set ?w"
    using unwords_set assms by auto
  have "strtok (CHR ''|'') (?v @ CHR ''|'' # ?w @ rest) = Some (?v, ?w @ rest)"
    using strtok_word(2) [OF v] by simp
  moreover have "\<exists>r. strtok (CHR ''|'') (?w @ rest) = Some (?w, r)"
    using assms(5) strtok_word [OF w] by (cases rest) auto
  moreover have "bounded_args 0 ?v = take 9 vs"
    using bounded_args_unwords [OF assms(1), of "'' ''" 0] by (simp add: blanks_def MAX_ARGS_def)
  moreover have "bounded_args 0 ?w = take 9 ws"
    using bounded_args_unwords [OF assms(2), of "[]" 0] by (simp add: bounded_args_skip blanks_def MAX_ARGS_def)
  ultimately have "pipe_line ((?v @ CHR ''|'' # ?w @ rest) @ [newline]) = Inr (Pipe (take 9 vs) (take 9 ws))"
    unfolding pipe_line_snoc by auto
  then show ?thesis by simp
qed

theorem shell_pipe_command_witness:
  "pipe_line (unwords [''ls'', ''-l''] @ '' | '' @ unwords [''wc''] @ ''| sort'' @ [newline]) =
     Inr (Pipe [''ls'', ''-l''] [''wc''])"
  using shell_pipe_command [of "[''ls'', ''-l'']" "[''wc'']" "''| sort''"] by (simp add: word_def)

text \<open>
  C19: the shell without pipes does not see the end of its input: it takes the last character off what is
  left of its last command, runs that, and again, until nothing is left and \<open>strcmp\<close> gets \<open>NULL\<close>.
\<close>

theorem plain_shell_at_end:
  assumes "w \<noteq> []" and "CHR '' '' \<notin> set w" and "take 4 w \<noteq> ''exit''"
  shows "plain_shell (Some w) [] = (map (\<lambda>k. Run (take k w) []) (rev [1..<length w]), Null_Deref)"
  using cut_commands [OF assms(2,3), of "length w"] assms(1) by simp

theorem plain_shell_at_end_witness:
  "plain_shell (Some ''date'') [] = ([Run ''dat'' [], Run ''da'' [], Run ''d'' []], Null_Deref)"
  using plain_shell_at_end [of "''date''"] by (simp add: upt_rec)

end
