(* ===== verification/Syscalls.thy ===== *)
theory Syscalls
  imports Prelude
begin

text \<open>
  Programs that talk to the operating system. Such a program is a tree: it ends, or evaluates
  something undefined, or prints, or makes a system call and goes on according to the reply. What
  a kernel replies is never fixed by a program; a program is either played against a list of
  replies, or run beside others on a model of the object they share.
\<close>

section \<open>Programs\<close>

text \<open>
  A reply is what a call returns: an \<open>int\<close> (a pointer is \<open>0\<close> for NULL), the characters it put into
  the buffer it was given, the address it filled in and, for \<open>select\<close>, the descriptors it left in
  the set.
\<close>

datatype addr = Inet string nat | Path string

record reply =
  ret :: int
  data :: string
  peer :: addr
  ready :: "int list"

text \<open>\<open>Running\<close> is a loop that has been followed for as many rounds as the model was asked for.\<close>

datatype 'c prog = Halt int | Undef stop | Running | Out string "'c prog" | Err string "'c prog"
  | Call 'c "reply \<Rightarrow> 'c prog"

text \<open>\<open>if (call < 0) { perror(m); exit(n); }\<close>, here for the calls that follow it.\<close>

definition or_exit :: "'c \<Rightarrow> string \<Rightarrow> (reply \<Rightarrow> 'c prog) \<Rightarrow> 'c prog" where
  "or_exit c m k = Call c (\<lambda>r. if ret r < 0 then Err m (Halt 1) else k r)"

text \<open>\<open>if (call == -1) { perror(m); exit(1); }\<close>.\<close>

definition or_quit :: "'c \<Rightarrow> string \<Rightarrow> (reply \<Rightarrow> 'c prog) \<Rightarrow> 'c prog" where
  "or_quit c m k = Call c (\<lambda>r. if ret r = -1 then Err m (Halt 1) else k r)"

text \<open>The call at the head of \<open>or_quit\<close>, without unfolding it elsewhere.\<close>

lemma case_or_quit: "case_prog h u x o' e f (or_quit c m k) = f c (\<lambda>r. if ret r = -1 then Err m (Halt 1) else k r)"
  by (simp add: or_quit_def)

text \<open>\<open>%s\<close> of a buffer.\<close>

definition with_str :: "char list \<Rightarrow> (string \<Rightarrow> 'c prog) \<Rightarrow> 'c prog" where
  "with_str b k = (case get_str b of Inl e \<Rightarrow> Undef e | Inr s \<Rightarrow> k s)"

text \<open>What a call that reads at most \<open>n\<close> characters leaves in the buffer.\<close>

definition fill :: "nat \<Rightarrow> char list \<Rightarrow> reply \<Rightarrow> char list" where
  "fill n b r = (if ret r < 0 then b else take n (data r) @ drop (length (take n (data r))) b)"

text \<open>What POSIX says of such a reply: an error, or the number of characters put into the buffer.\<close>

definition read_ok :: "nat \<Rightarrow> reply \<Rightarrow> bool" where
  "read_ok n r \<longleftrightarrow> ret r = -1 \<and> data r = [] \<or> ret r = int (length (data r)) \<and> length (data r) \<le> n"

text \<open>Replies that only return a number, and that bring characters.\<close>

definition int_reply :: "int \<Rightarrow> reply" where
  "int_reply n = \<lparr>ret = n, data = [], peer = Path [], ready = []\<rparr>"

definition msg_reply :: "string \<Rightarrow> reply" where
  "msg_reply d = \<lparr>ret = int (length d), data = d, peer = Path [], ready = []\<rparr>"

lemma int_reply_ret [simp]: "ret (int_reply n) = n" "ret (msg_reply d) = int (length d)" "data (msg_reply d) = d"
  by (simp_all add: int_reply_def msg_reply_def)

text \<open>The bytes of a literal that is not ASCII.\<close>

definition bytes :: "nat list \<Rightarrow> string" where
  "bytes = map char_of"

abbreviation nl :: string where
  "nl \<equiv> [CHR 0x0A]"

text \<open>\<open>%d\<close> of a number that is not negative.\<close>

fun dec :: "nat \<Rightarrow> string" where
  "dec n = (if n < 10 then [char_of (48 + n)] else dec (n div 10) @ [char_of (48 + n mod 10)])"

declare dec.simps [simp del]

fun ip_of :: "addr \<Rightarrow> string" where
  "ip_of (Inet i p) = i" | "ip_of (Path s) = []"

fun port_of :: "addr \<Rightarrow> nat" where
  "port_of (Inet i p) = p" | "port_of (Path s) = 0"

fun path_of :: "addr \<Rightarrow> string" where
  "path_of (Inet i p) = []" | "path_of (Path s) = s"

section \<open>Playing a program against replies\<close>

datatype 'c action = Sys 'c reply | Printed string | Complained string

datatype outcome = Exited int | Crashed stop | Waiting

primrec play :: "'c prog \<Rightarrow> reply list \<Rightarrow> 'c action list \<times> outcome" where
  "play (Halt n) rs = ([], Exited n)"
| "play (Undef e) rs = ([], Crashed e)"
| "play Running rs = ([], Waiting)"
| "play (Out s p) rs = (Printed s # fst (play p rs), snd (play p rs))"
| "play (Err s p) rs = (Complained s # fst (play p rs), snd (play p rs))"
| "play (Call c k) rs = (case rs of
     [] \<Rightarrow> ([], Waiting)
   | r # rs' \<Rightarrow> (Sys c r # fst (play (k r) rs'), snd (play (k r) rs')))"

section \<open>Programs side by side\<close>

text \<open>
  Processes with a shared object: the process that moves prints, or makes its next call if the
  object lets it through; \<open>None\<close> from the object says the call blocks. What process \<open>i\<close> prints is
  appended to the output, marked with \<open>i\<close>.
\<close>

record ('c, 'k) world =
  procs :: "'c prog list"
  shared :: 'k
  screen :: "(nat \<times> string) list"

definition proc_step :: "(nat \<Rightarrow> 'c \<Rightarrow> 'k \<Rightarrow> (reply \<times> 'k) option) \<Rightarrow> nat \<Rightarrow> ('c, 'k) world \<Rightarrow> ('c, 'k) world option" where
  "proc_step obj i w = (if i < length (procs w) then case procs w ! i of
       Out s p \<Rightarrow> Some (w\<lparr>procs := (procs w)[i := p], screen := screen w @ [(i, s)]\<rparr>)
     | Err s p \<Rightarrow> Some (w\<lparr>procs := (procs w)[i := p], screen := screen w @ [(i, s)]\<rparr>)
     | Call c k \<Rightarrow> (case obj i c (shared w) of
         None \<Rightarrow> None
       | Some (r, x) \<Rightarrow> Some (w\<lparr>procs := (procs w)[i := k r], shared := x\<rparr>))
     | _ \<Rightarrow> None else None)"

text \<open>What process \<open>i\<close> has printed.\<close>

definition lines_of :: "nat \<Rightarrow> ('c, 'k) world \<Rightarrow> string list" where
  "lines_of i w = map snd (filter (\<lambda>l. fst l = i) (screen w))"

section \<open>All ways for two processes to go on\<close>

definition stuck :: "(nat \<Rightarrow> 's \<Rightarrow> 's option) \<Rightarrow> 's \<Rightarrow> bool" where
  "stuck step w \<longleftrightarrow> step 0 w = None \<and> step 1 w = None"

text \<open>
  The runs of two processes, followed to the states in which neither can move; there \<open>Q\<close> holds, and
  the fuel is enough for every path.
\<close>

fun all_ends :: "(nat \<Rightarrow> 's \<Rightarrow> 's option) \<Rightarrow> ('s \<Rightarrow> bool) \<Rightarrow> nat \<Rightarrow> 's \<Rightarrow> bool" where
  "all_ends step Q n w = (case step 0 w of
     None \<Rightarrow> (case step 1 w of
       None \<Rightarrow> Q w
     | Some v \<Rightarrow> (case n of 0 \<Rightarrow> False | Suc m \<Rightarrow> all_ends step Q m v))
   | Some u \<Rightarrow> (case n of 0 \<Rightarrow> False | Suc m \<Rightarrow> all_ends step Q m u \<and> (case step 1 w of
       None \<Rightarrow> True
     | Some v \<Rightarrow> all_ends step Q m v)))"

declare all_ends.simps [simp del]

lemma all_ends_0: "all_ends step Q 0 w \<longleftrightarrow> step 0 w = None \<and> step 1 w = None \<and> Q w"
  by (subst all_ends.simps) (simp split: option.split)

lemma all_ends_Suc:
  "all_ends step Q (Suc n) w = (case step 0 w of
     None \<Rightarrow> (case step 1 w of None \<Rightarrow> Q w | Some v \<Rightarrow> all_ends step Q n v)
   | Some u \<Rightarrow> all_ends step Q n u \<and> (case step 1 w of None \<Rightarrow> True | Some v \<Rightarrow> all_ends step Q n v))"
  by (subst all_ends.simps) (simp split: option.split)

lemma all_ends_numeral:
  "all_ends step Q (numeral k) w = (case step 0 w of
     None \<Rightarrow> (case step 1 w of None \<Rightarrow> Q w | Some v \<Rightarrow> all_ends step Q (pred_numeral k) v)
   | Some u \<Rightarrow> all_ends step Q (pred_numeral k) u \<and> (case step 1 w of None \<Rightarrow> True | Some v \<Rightarrow> all_ends step Q (pred_numeral k) v))"
  unfolding numeral_eq_Suc by (rule all_ends_Suc)

locale two_processes = event_system step inv for step :: "nat \<Rightarrow> 's \<Rightarrow> 's option" and inv +
  assumes only_two: "inv w \<Longrightarrow> step i w = Some t \<Longrightarrow> i = 0 \<or> i = 1"
begin

lemma all_ends_step:
  assumes "all_ends step Q n w" and "step i w = Some t" and "inv w"
  shows "\<exists>m. n = Suc m \<and> all_ends step Q m t"
proof -
  have i: "i = 0 \<or> i = 1" using only_two [OF assms(3,2)] .
  show ?thesis
    using assms(1,2) i all_ends.simps [of step Q n w] by (auto split: option.splits nat.splits)
qed

lemma all_ends_run:
  assumes "all_ends step Q n w" and "run step es w = Some t" and "inv w"
  shows "length es \<le> n \<and> (stuck step t \<longrightarrow> Q t)"
  using assms
proof (induction es arbitrary: n w)
  case Nil
  then show ?case using all_ends.simps [of step Q n w] by (auto simp: stuck_def)
next
  case (Cons i es)
  then obtain u where u: "step i w = Some u" "run step es u = Some t"
    by (auto split: option.splits)
  obtain m where "n = Suc m" "all_ends step Q m u" using all_ends_step [OF Cons.prems(1) u(1) Cons.prems(3)] by blast
  then show ?case using Cons.IH [OF _ u(2)] step_inv [OF Cons.prems(3) u(1)] by simp
qed

end

lemma proc_step_two: "proc_step obj i w = Some t \<Longrightarrow> length (procs w) = 2 \<Longrightarrow> (i = 0 \<or> i = 1) \<and> length (procs t) = 2"
  by (auto simp: proc_step_def less_2_cases_iff split: prog.splits option.splits prod.splits if_splits)

interpretation side_by_side: two_processes "proc_step obj" "\<lambda>w. length (procs w) = 2" for obj
  by unfold_locales (blast dest: proc_step_two)+

text \<open>
  Congruence rules that keep the simplifier away from what a program does later, for the
  exploration of all paths.
\<close>

lemma lazy_cong:
  "Call c k = Call c k" "Out s p = Out s p" "Err s p = Err s p"
  "b = b' \<Longrightarrow> with_str b f = with_str b' f"
  "n = n' \<Longrightarrow> w = w' \<Longrightarrow> all_ends step Q n w = all_ends step Q n' w'"
  by simp_all

end
