(* ===== verification/Shell_Processes.thy ===== *)
theory Shell_Processes
  imports Shell Syscalls
begin

text \<open>
  The processes of the two shells: the descriptors with which \<open>pipes/task3.c\<close> starts the programs of a
  line, and the shells that \<open>processes/task3.c\<close> becomes when a program cannot be executed, with the
  buffered standard input they share or copy.
\<close>

section \<open>The shell with pipes: descriptors\<close>

datatype sh_call = Mkpipe | Sh_fork | Close int | Dup2 int int | Execvp "string list" | Sh_wait

text \<open>\<open>execvp(args[0], args); perror("execvp"); exit(EXIT_FAILURE);\<close>\<close>

definition exec_or_exit :: "string list \<Rightarrow> sh_call prog" where
  "exec_or_exit args = (if args = [] then Undef Null_Deref
     else Call (Execvp args) (\<lambda>_. Err ''execvp'' (Halt 1)))"

text \<open>What the shell does for an action, and \<open>rest\<close> after it.\<close>

definition run_command :: "string list \<Rightarrow> sh_call prog \<Rightarrow> sh_call prog" where
  "run_command args rest = Call Sh_fork (\<lambda>p. if ret p = 0 then exec_or_exit args else Call Sh_wait (\<lambda>_. rest))"

definition run_pipe :: "string list \<Rightarrow> string list \<Rightarrow> sh_call prog \<Rightarrow> sh_call prog" where
  "run_pipe args1 args2 rest = or_quit Mkpipe ''pipe'' (\<lambda>r. let rd = ready r ! 0; wr = ready r ! 1 in
     Call Sh_fork (\<lambda>p. if ret p = 0 then
       Call (Close rd) (\<lambda>_. Call (Dup2 wr 1) (\<lambda>_. Call (Close wr) (\<lambda>_. exec_or_exit args1)))
     else Call Sh_fork (\<lambda>q. if ret q = 0 then
       Call (Close wr) (\<lambda>_. Call (Dup2 rd 0) (\<lambda>_. Call (Close rd) (\<lambda>_. exec_or_exit args2)))
     else
       Call (Close rd) (\<lambda>_. Call (Close wr) (\<lambda>_. Call Sh_wait (\<lambda>_. Call Sh_wait (\<lambda>_. rest)))))))"

fun run_action :: "Shell.action \<Rightarrow> sh_call prog \<Rightarrow> sh_call prog" where
  "run_action (Run cmd args) rest = run_command args rest"
| "run_action (Pipe args1 args2) rest = run_pipe args1 args2 rest"

text \<open>
  The kernel: what each open descriptor of a process refers to, which calls of \<open>pipe\<close> and \<open>fork\<close>
  succeed, the latter by their number, and which programs can be executed. \<open>fork\<close> copies the
  descriptors, so what one process does with its own never concerns another, and the processes can
  be followed one after the other.
\<close>

datatype end_of = Stdin | Stdout | Stderr | Read_end | Write_end

type_synonym descriptors = "int \<Rightarrow> end_of option"

record sh_host =
  pipe_ok :: bool
  sh_fork_ok :: "nat \<Rightarrow> bool"
  exec_ok :: "string list \<Rightarrow> bool"

text \<open>How a process goes on: as another program, or it has ended, with what it has complained about.\<close>

datatype image = Executes "string list" descriptors | Leaves outcome "string list" descriptors

fun first_free :: "descriptors \<Rightarrow> nat \<Rightarrow> int \<Rightarrow> int" where
  "first_free t 0 n = -1"
| "first_free t (Suc k) n = (if t n = None then n else first_free t k (n + 1))"

text \<open>The lowest descriptor of 1024 that is free.\<close>

definition lowest :: "descriptors \<Rightarrow> int" where
  "lowest t = first_free t 1024 0"

primrec images :: "sh_host \<Rightarrow> sh_call prog \<Rightarrow> nat \<Rightarrow> string list \<Rightarrow> descriptors \<Rightarrow> image list" where
  "images h (Halt n) f e t = [Leaves (Exited n) e t]"
| "images h (Undef x) f e t = [Leaves (Crashed x) e t]"
| "images h Running f e t = [Leaves Waiting e t]"
| "images h (Out s p) f e t = images h p f e t"
| "images h (Err s p) f e t = images h p f (e @ [s]) t"
| "images h (Call c k) f e t = (case c of
     Mkpipe \<Rightarrow> if pipe_ok h then
         let rd = lowest t; t1 = t(rd \<mapsto> Read_end); wr = lowest t1
         in images h (k ((int_reply 0)\<lparr>ready := [rd, wr]\<rparr>)) f e (t1(wr \<mapsto> Write_end))
       else images h (k (int_reply (-1))) f e t
   | Sh_fork \<Rightarrow> if sh_fork_ok h f then images h (k (int_reply 0)) (Suc f) e t @ images h (k (int_reply 1)) (Suc f) e t
       else images h (k (int_reply (-1))) (Suc f) e t
   | Close d \<Rightarrow> images h (k (int_reply 0)) f e (t(d := None))
   | Dup2 a b \<Rightarrow> images h (k (int_reply b)) f e (t(b := t a))
   | Execvp args \<Rightarrow> if exec_ok h args then [Executes args t] else images h (k (int_reply (-1))) f e t
   | Sh_wait \<Rightarrow> images h (k (int_reply 1)) f e t)"

definition std :: descriptors where
  "std = [0 \<mapsto> Stdin, 1 \<mapsto> Stdout, 2 \<mapsto> Stderr]"

text \<open>A child that should become the program \<open>args\<close> with the descriptors \<open>t\<close>.\<close>

definition child :: "sh_host \<Rightarrow> string list \<Rightarrow> descriptors \<Rightarrow> image list" where
  "child h args t = [if exec_ok h args then Executes args t else Leaves (Exited 1) [''execvp''] t]"

lemma lowest_std: "lowest std = 3" "lowest (std(3 \<mapsto> x)) = 4"
proof -
  have "(1024 :: nat) = Suc (Suc (Suc (Suc (Suc 1019))))" by simp
  then show "lowest std = 3" "lowest (std(3 \<mapsto> x)) = 4" unfolding lowest_def
    by (simp_all only: first_free.simps) (simp_all add: std_def)
qed

lemma images_exec: "args \<noteq> [] \<Longrightarrow> images h (exec_or_exit args) f [] t = child h args t"
  by (simp add: exec_or_exit_def child_def)

lemma images_command:
  "args \<noteq> [] \<Longrightarrow> images h (run_command args Running) 0 [] t =
    (if sh_fork_ok h 0 then child h args t else []) @ [Leaves Waiting [] t]"
  by (simp add: run_command_def images_exec)

lemma images_pipe:
  assumes "args1 \<noteq> []" "args2 \<noteq> []"
  shows "images h (run_pipe args1 args2 Running) 0 [] std = (if pipe_ok h then
      (if sh_fork_ok h 0 then child h args1 (std(1 \<mapsto> Write_end)) else []) @
      (if sh_fork_ok h 1 then child h args2 (std(0 \<mapsto> Read_end)) else []) @ [Leaves Waiting [] std]
    else [Leaves (Exited 1) [''pipe''] std])"
proof -
  have "std(3 := None, 1 \<mapsto> Write_end, 4 := None) = std(1 \<mapsto> Write_end)"
    "std(4 := None, 0 \<mapsto> Read_end, 3 := None) = std(0 \<mapsto> Read_end)" "std(3 := None, 4 := None) = std"
    by (auto simp: std_def)
  then show ?thesis
    using assms by (simp add: run_pipe_def or_quit_def Let_def lowest_std images_exec)
qed

section \<open>Property of the pipe\<close>

text \<open>
  C18: for a line with a pipe the shell starts the two programs with the words before and behind the bar,
  the first nine of them, and whatever comes behind a second bar is ignored. The first has the pipe as
  its standard output and the second as its standard input; no other descriptor of either, and none of
  the shell, is an end of the pipe, so that the second sees its end when the first is done. If \<open>pipe\<close>
  fails the shell says so and exits with 1; when \<open>fork\<close> fails the program is left out without a word;
  a child whose program cannot be executed complains and exits with 1.
\<close>

theorem pipe_wired:
  assumes "\<forall>w \<in> set vs. word w" "\<forall>w \<in> set ws. word w" "vs \<noteq> []" "ws \<noteq> []" "rest = [] \<or> hd rest = CHR ''|''"
    and "pipe_line (unwords vs @ '' | '' @ unwords ws @ rest @ [newline]) = r"
  shows "\<exists>a. r = Inr a \<and> images h (run_action a Running) 0 [] std = (if pipe_ok h then
      (if sh_fork_ok h 0 then child h (take 9 vs) (std(1 \<mapsto> Write_end)) else []) @
      (if sh_fork_ok h 1 then child h (take 9 ws) (std(0 \<mapsto> Read_end)) else []) @ [Leaves Waiting [] std]
    else [Leaves (Exited 1) [''pipe''] std])"
  using assms(3,4,6) shell_pipe_command [OF assms(1-5)] images_pipe [of "take 9 vs" "take 9 ws" h] by simp

theorem pipe_wired_witness:
  "\<exists>a. pipe_line (unwords [''ls'', ''-l''] @ '' | '' @ unwords [''wc''] @ ''| sort'' @ [newline]) = Inr a \<and>
    images \<lparr>pipe_ok = True, sh_fork_ok = (\<lambda>_. True), exec_ok = (\<lambda>args. hd args \<noteq> ''wc'')\<rparr> (run_action a Running) 0 [] std =
      [Executes [''ls'', ''-l''] (std(1 \<mapsto> Write_end)), Leaves (Exited 1) [''execvp''] (std(0 \<mapsto> Read_end)), Leaves Waiting [] std]"
  using pipe_wired [of "[''ls'', ''-l'']" "[''wc'']" "''| sort''" _
    "\<lparr>pipe_ok = True, sh_fork_ok = (\<lambda>_. True), exec_ok = (\<lambda>args. hd args \<noteq> ''wc'')\<rparr>"]
  by (fastforce simp: word_def child_def)

section \<open>The shell without pipes: shells within shells\<close>

text \<open>
  A child whose \<open>execvp\<close> fails does not end but goes on as a shell, with a copy of what its parent had
  read ahead of the input, while the parent waits for it. \<open>chunk\<close> is what one \<open>read\<close> takes of the input that
  is left: a terminal gives a line, a pipe all that a buffer can take.
\<close>

definition tty_chunk :: "string \<Rightarrow> string" where
  "tty_chunk i = fgets_line 1025 i"

definition pipe_chunk :: "string \<Rightarrow> string" where
  "pipe_chunk i = take 4096 i"

text \<open>\<open>fgets\<close> for at most \<open>n\<close> characters, with those in the buffer and those not yet read.\<close>

fun buf_fgets :: "(string \<Rightarrow> string) \<Rightarrow> nat \<Rightarrow> string \<Rightarrow> string \<Rightarrow> string \<times> string \<times> string" where
  "buf_fgets chunk 0 b i = ([], b, i)"
| "buf_fgets chunk (Suc n) b i = (case (if b = [] then chunk i else b) of
     [] \<Rightarrow> ([], [], i)
   | c # cs \<Rightarrow> let i' = (if b = [] then drop (length (chunk i)) i else i) in
       if c = newline then ([c], cs, i') else let (g, rest) = buf_fgets chunk n cs i' in (c # g, rest))"

text \<open>What became of an action: executed, a second shell started in its place, or not forked.\<close>

datatype fate = Executed | Not_executed | Not_forked

datatype event = Ran Shell.action | Failed Shell.action | Skipped Shell.action | Ended stop

text \<open>
  The shells, the innermost first, each with the string in \<open>line\<close>, if any, and its buffer; the input
  that none has read; and what has happened.
\<close>

record shells =
  stack :: "(string option \<times> string) list"
  input :: string
  events :: "event list"

text \<open>
  A round of the innermost shell, the only one that does not wait. The fate of an action may depend on
  the time.
\<close>

fun shell_round :: "(string \<Rightarrow> string) \<Rightarrow> (nat \<Rightarrow> Shell.action \<Rightarrow> fate) \<Rightarrow> shells \<Rightarrow> shells option" where
  "shell_round chunk env s = (case stack s of [] \<Rightarrow> None | (line, b) # outer \<Rightarrow>
     let (g, b', i') = buf_fgets chunk (MAX_LINE - 1) b (input s) in
     case (if g = [] then line else Some (cstr g)) of
       None \<Rightarrow> Some \<lparr>stack = outer, input = i', events = events s @ [Ended Uninit_Read]\<rparr>
     | Some l \<Rightarrow> (case plain_line l of
         Inl e \<Rightarrow> Some \<lparr>stack = outer, input = i', events = events s @ [Ended e]\<rparr>
       | Inr (a, l') \<Rightarrow> let me = (Some l', b') in (case env (length (events s)) a of
           Executed \<Rightarrow> Some \<lparr>stack = me # outer, input = i', events = events s @ [Ran a]\<rparr>
         | Not_executed \<Rightarrow> Some \<lparr>stack = me # me # outer, input = i', events = events s @ [Failed a]\<rparr>
         | Not_forked \<Rightarrow> Some \<lparr>stack = me # outer, input = i', events = events s @ [Skipped a]\<rparr>)))"

declare shell_round.simps [simp del]

abbreviation rounds :: "(string \<Rightarrow> string) \<Rightarrow> (nat \<Rightarrow> Shell.action \<Rightarrow> fate) \<Rightarrow> nat \<Rightarrow> shells \<Rightarrow> shells option" where
  "rounds chunk env n \<equiv> run (\<lambda>_. shell_round chunk env) (replicate n ())"

section \<open>Reading a line\<close>

text \<open>A command: words that fit into the line and the argument vector.\<close>

definition command :: "string list \<Rightarrow> bool" where
  "command ws \<longleftrightarrow> ws \<noteq> [] \<and> (\<forall>w \<in> set ws. word w \<and> newline \<notin> set w) \<and> length ws \<le> MAX_ARGS \<and> length (unwords ws) < MAX_LINE - 1"

definition typed :: "string list \<Rightarrow> string" where
  "typed ws = unwords ws @ [newline]"

lemma buf_fgets_line:
  "newline \<notin> set w \<Longrightarrow> length w < n \<Longrightarrow> buf_fgets chunk n (w @ newline # b) i = (w @ [newline], b, i)"
proof (induction w arbitrary: n)
  case Nil
  then show ?case by (cases n) auto
next
  case (Cons c w)
  then show ?case by (cases n) auto
qed

lemma buf_fgets_read:
  "b = [] \<Longrightarrow> chunk i \<noteq> [] \<Longrightarrow> buf_fgets chunk n b i = (if n = 0 then ([], [], i) else buf_fgets chunk n (chunk i) (drop (length (chunk i)) i))"
  by (cases n; cases "chunk i") auto

lemma buf_fgets_end: "chunk [] = [] \<Longrightarrow> buf_fgets chunk n [] [] = ([], [], [])"
  by (cases n) auto

lemma unwords_chars: "\<forall>w \<in> set ws. d \<notin> set w \<Longrightarrow> d \<noteq> CHR '' '' \<Longrightarrow> d \<notin> set (unwords ws)"
  by (induction ws rule: unwords.induct) auto

lemma command_chars: "command ws \<Longrightarrow> newline \<notin> set (unwords ws) \<and> NUL \<notin> set (unwords ws)"
  using unwords_chars [of ws newline] unwords_chars [of ws NUL] by (simp add: command_def word_def)

lemma typed_line:
  assumes "command ws"
  shows "buf_fgets chunk (MAX_LINE - 1) (typed ws @ b) i = (typed ws, b, i)"
    and "buf_fgets tty_chunk (MAX_LINE - 1) [] (typed ws @ i) = (typed ws, [], i)"
    and "cstr (typed ws) = typed ws" "typed ws \<noteq> []"
proof -
  have c: "newline \<notin> set (unwords ws)" "NUL \<notin> set (unwords ws)" using command_chars [OF assms] by simp_all
  have l: "length (unwords ws) < MAX_LINE - 1" using assms by (simp add: command_def)
  show line: "buf_fgets chunk (MAX_LINE - 1) (typed ws @ b) i = (typed ws, b, i)" for chunk b i
    using buf_fgets_line [OF c(1) l, of chunk b i] by (simp add: typed_def)
  have "Suc 0 \<le> 1024 - length (unwords ws)" using l by (simp add: MAX_LINE_def)
  moreover have "\<forall>c \<in> set (unwords ws). c \<noteq> newline" using c(1) by auto
  ultimately have "tty_chunk (typed ws @ i) = typed ws"
    using l by (simp add: tty_chunk_def fgets_line_def typed_def takeWhile_append MAX_LINE_def)
  then show "buf_fgets tty_chunk (MAX_LINE - 1) [] (typed ws @ i) = (typed ws, [], i)"
    using line [of tty_chunk "[]" i] by (subst buf_fgets_read) (auto simp: typed_def MAX_LINE_def)
  show "cstr (typed ws) = typed ws" "typed ws \<noteq> []"
    using c(2) by (simp_all add: typed_def cstr_def takeWhile_append)
qed

lemma plain_line_words:
  assumes "command ws"
  shows "\<exists>l. plain_line (typed ws) = (if hd ws = ''exit'' then Inl (Exit 0) else Inr (Run (hd ws) (tl ws), l))"
proof -
  obtain w us where ws: "ws = w # us" using assms by (cases ws) (auto simp: command_def)
  have words: "\<forall>w \<in> set ws. word w" and len: "length us < MAX_ARGS" using assms by (auto simp: command_def ws)
  obtain r b where "strtok (CHR '' '') (unwords ws) = Some (w, r)" "r = unwords us @ b" "blanks b"
    using unwords_step [of w us "[]"] words by (auto simp: ws blanks_def)
  moreover have "all_args 0 (unwords us @ b) = Inr us"
    using all_args_unwords [of us b 0] words len \<open>blanks b\<close> by (simp add: ws)
  ultimately show ?thesis by (simp add: plain_line_def cut_last_def typed_def ws)
qed

section \<open>Rounds\<close>

definition act :: "string list \<Rightarrow> Shell.action" where
  "act ws = Run (hd ws) (tl ws)"

lemma round_command:
  assumes "command ws" "hd ws \<noteq> ''exit''" "buf_fgets chunk (MAX_LINE - 1) b i = (typed ws, b', i')"
  obtains l where "shell_round chunk env \<lparr>stack = (line, b) # outer, input = i, events = es\<rparr> =
    Some (case env (length es) (act ws) of
      Executed \<Rightarrow> \<lparr>stack = (Some l, b') # outer, input = i', events = es @ [Ran (act ws)]\<rparr>
    | Not_executed \<Rightarrow> \<lparr>stack = (Some l, b') # (Some l, b') # outer, input = i', events = es @ [Failed (act ws)]\<rparr>
    | Not_forked \<Rightarrow> \<lparr>stack = (Some l, b') # outer, input = i', events = es @ [Skipped (act ws)]\<rparr>)"
proof -
  obtain l where l: "plain_line (typed ws) = Inr (act ws, l)"
    using plain_line_words [OF assms(1)] assms(2) by (auto simp: act_def)
  show ?thesis
    using typed_line(3,4) [OF assms(1)] l assms(3)
    by (intro that [of l]) (simp add: shell_round.simps Let_def split: fate.split)
qed

lemma exit_command: "command [''exit'']"
  by (simp add: command_def word_def MAX_ARGS_def MAX_LINE_def)

lemma round_exit:
  assumes "buf_fgets chunk (MAX_LINE - 1) b i = (typed [''exit''], b', i')"
  shows "shell_round chunk env \<lparr>stack = (line, b) # outer, input = i, events = es\<rparr> =
    Some \<lparr>stack = outer, input = i', events = es @ [Ended (Exit 0)]\<rparr>"
  using assms typed_line(3,4) [OF exit_command] plain_line_words [OF exit_command]
  by (simp add: shell_round.simps)

text \<open>Input from a terminal: each command is met once, by the shell that is innermost then.\<close>

fun told :: "(nat \<Rightarrow> Shell.action \<Rightarrow> fate) \<Rightarrow> nat \<Rightarrow> string list list \<Rightarrow> event list" where
  "told env n [] = []"
| "told env n (c # cs) = (case env n (act c) of
     Executed \<Rightarrow> Ran (act c) | Not_executed \<Rightarrow> Failed (act c) | Not_forked \<Rightarrow> Skipped (act c)) # told env (Suc n) cs"

definition failures :: "event list \<Rightarrow> nat" where
  "failures es = count_where (\<lambda>e. case e of Failed a \<Rightarrow> True | _ \<Rightarrow> False) es"

abbreviation exits :: "nat \<Rightarrow> string" where
  "exits n \<equiv> concat (replicate n (typed [''exit'']))"

text \<open>Input from a pipe, all of it read ahead: what is left is run by the second shell and then by the first.\<close>

fun again :: "(nat \<Rightarrow> Shell.action \<Rightarrow> fate) \<Rightarrow> nat \<Rightarrow> string list list \<Rightarrow> event list" where
  "again env n [] = [Ended (Exit 0)]"
| "again env n (c # cs) = (case env n (act c) of
     Executed \<Rightarrow> Ran (act c) # again env (Suc n) cs
   | Not_forked \<Rightarrow> Skipped (act c) # again env (Suc n) cs
   | Not_executed \<Rightarrow> let inner = again env (Suc n) cs in Failed (act c) # inner @ again env (Suc n + length inner) cs)"

definition commands :: "string list list \<Rightarrow> bool" where
  "commands cs \<longleftrightarrow> (\<forall>c \<in> set cs. command c \<and> hd c \<noteq> ''exit'')"

lemma commands_Cons: "commands (c # cs) \<longleftrightarrow> command c \<and> hd c \<noteq> ''exit'' \<and> commands cs"
  by (simp add: commands_def)

definition idle_shells :: "nat \<Rightarrow> (string option \<times> string) list \<Rightarrow> bool" where
  "idle_shells n sh \<longleftrightarrow> length sh = n \<and> list_all (\<lambda>x. snd x = []) sh"

lemma tty_commands:
  assumes "commands cs" "idle_shells (Suc n) sh"
  shows "\<exists>sh'. rounds tty_chunk env (length cs) \<lparr>stack = sh, input = concat (map typed cs) @ i, events = es\<rparr> =
      Some \<lparr>stack = sh', input = i, events = es @ told env (length es) cs\<rparr> \<and>
    idle_shells (Suc n + failures (told env (length es) cs)) sh'"
  using assms
proof (induction cs arbitrary: n sh es)
  case Nil
  then show ?case by (simp add: failures_def)
next
  case (Cons c cs)
  obtain line outer where sh: "sh = (line, []) # outer" "idle_shells n outer"
    using Cons.prems(2) by (cases sh) (auto simp: idle_shells_def)
  have c: "command c" "hd c \<noteq> ''exit''" and cs: "commands cs" using Cons.prems(1) by (simp_all add: commands_Cons)
  note read = typed_line(2) [OF c(1), of "concat (map typed cs) @ i"]
  obtain l where step: "shell_round tty_chunk env \<lparr>stack = (line, []) # outer, input = typed c @ concat (map typed cs) @ i, events = es\<rparr> =
    Some (case env (length es) (act c) of
      Executed \<Rightarrow> \<lparr>stack = (Some l, []) # outer, input = concat (map typed cs) @ i, events = es @ [Ran (act c)]\<rparr>
    | Not_executed \<Rightarrow> \<lparr>stack = (Some l, []) # (Some l, []) # outer, input = concat (map typed cs) @ i, events = es @ [Failed (act c)]\<rparr>
    | Not_forked \<Rightarrow> \<lparr>stack = (Some l, []) # outer, input = concat (map typed cs) @ i, events = es @ [Skipped (act c)]\<rparr>)"
    using round_command [OF c read, of env line outer es] by blast
  have idle: "idle_shells (Suc n) ((Some l, []) # outer)" "idle_shells (Suc (Suc n)) ((Some l, []) # (Some l, []) # outer)"
    using sh(2) by (simp_all add: idle_shells_def)
  show ?case
    using step Cons.IH [OF cs idle(1), of "es @ [Ran (act c)]"] Cons.IH [OF cs idle(1), of "es @ [Skipped (act c)]"]
      Cons.IH [OF cs idle(2), of "es @ [Failed (act c)]"]
    by (cases "env (length es) (act c)") (auto simp: sh(1) failures_def)
qed

lemma tty_exits:
  "idle_shells n sh \<Longrightarrow> rounds tty_chunk env n \<lparr>stack = sh, input = exits n @ i, events = es\<rparr> =
     Some \<lparr>stack = [], input = i, events = es @ replicate n (Ended (Exit 0))\<rparr>"
proof (induction n arbitrary: sh es)
  case 0
  then show ?case by (simp add: idle_shells_def)
next
  case (Suc n)
  obtain line outer where sh: "sh = (line, []) # outer" "idle_shells n outer"
    using Suc.prems by (cases sh) (auto simp: idle_shells_def)
  show ?case
    using Suc.IH [OF sh(2), of "es @ [Ended (Exit 0)]"] round_exit [OF typed_line(2) [OF exit_command, of "exits n @ i"], of env line outer es]
    by (simp add: sh(1))
qed

lemma again_rounds:
  assumes "commands cs"
  shows "rounds chunk env (length (again env (length es) cs)) \<lparr>stack = (line, concat (map typed cs) @ typed [''exit''] @ b) # outer, input = i, events = es\<rparr> =
    Some \<lparr>stack = outer, input = i, events = es @ again env (length es) cs\<rparr>"
  using assms
proof (induction cs arbitrary: es line outer)
  case Nil
  then show ?case using round_exit [OF typed_line(1) [OF exit_command, of chunk b i], of env line outer es] by simp
next
  case (Cons c cs)
  have c: "command c" "hd c \<noteq> ''exit''" and cs: "commands cs" using Cons.prems(1) by (simp_all add: commands_Cons)
  let ?b = "concat (map typed cs) @ typed [''exit''] @ b"
  obtain l where step: "shell_round chunk env \<lparr>stack = (line, typed c @ ?b) # outer, input = i, events = es\<rparr> =
    Some (case env (length es) (act c) of
      Executed \<Rightarrow> \<lparr>stack = (Some l, ?b) # outer, input = i, events = es @ [Ran (act c)]\<rparr>
    | Not_executed \<Rightarrow> \<lparr>stack = (Some l, ?b) # (Some l, ?b) # outer, input = i, events = es @ [Failed (act c)]\<rparr>
    | Not_forked \<Rightarrow> \<lparr>stack = (Some l, ?b) # outer, input = i, events = es @ [Skipped (act c)]\<rparr>)"
    using round_command [OF c typed_line(1) [OF c(1), of chunk ?b i], of env line outer es] by blast
  note IH = Cons.IH [OF cs]
  show ?case
  proof (cases "env (length es) (act c)")
    case Executed
    then show ?thesis using step IH [of "es @ [Ran (act c)]"] by simp
  next
    case Not_forked
    then show ?thesis using step IH [of "es @ [Skipped (act c)]"] by simp
  next
    case Not_executed
    let ?es = "es @ [Failed (act c)]"
    let ?in = "again env (length ?es) cs"
    show ?thesis
      using step Not_executed IH [of ?es "Some l" "(Some l, ?b) # outer"] IH [of "?es @ ?in" "Some l" outer]
      by (simp add: replicate_add run_append Let_def)
  qed
qed

lemma pipe_rounds:
  assumes "commands cs" "i = concat (map typed cs) @ typed [''exit'']" "length i \<le> 4096"
  shows "rounds pipe_chunk env (length (again env 0 cs)) \<lparr>stack = [(None, [])], input = i, events = []\<rparr> =
    Some \<lparr>stack = [], input = [], events = again env 0 cs\<rparr>"
proof -
  have i: "i \<noteq> []" "pipe_chunk i = i" using assms(2,3) by (simp_all add: typed_def pipe_chunk_def)
  then have "buf_fgets pipe_chunk (MAX_LINE - 1) [] i = buf_fgets pipe_chunk (MAX_LINE - 1) i []"
    by (subst buf_fgets_read) (auto simp: MAX_LINE_def)
  then have first: "shell_round pipe_chunk env \<lparr>stack = [(None, [])], input = i, events = []\<rparr> =
      shell_round pipe_chunk env \<lparr>stack = [(None, i)], input = [], events = []\<rparr>"
    unfolding shell_round.simps shells.simps by simp
  have "again env 0 cs \<noteq> []"
    by (cases cs) (simp_all add: Let_def split: fate.split)
  then obtain n where "length (again env 0 cs) = Suc n"
    by (cases "again env 0 cs") auto
  then show ?thesis
    using again_rounds [OF assms(1), of pipe_chunk env "[]" None "[]" "[]" "[]"] first assms(2) by simp
qed

section \<open>Property of the shell without pipes\<close>

text \<open>
  C20: a command that cannot be executed leaves one more shell behind, though every command is still met
  once when the lines come from a terminal: after them it takes one \<open>exit\<close> for the first shell and one
  for each failure, exactly, to leave. When they come from a pipe and have been read ahead, the new
  shell has a copy of the lines that are left, and runs them, before its parent runs them again.
\<close>

theorem shells_in_shells:
  assumes "commands cs" and k: "k = Suc (failures (told env 0 cs))"
  shows "rounds tty_chunk env (length cs + k) \<lparr>stack = [(None, [])], input = concat (map typed cs) @ exits k @ i, events = []\<rparr> =
      Some \<lparr>stack = [], input = i, events = told env 0 cs @ replicate k (Ended (Exit 0))\<rparr> \<and>
    (length (concat (map typed cs) @ typed [''exit'']) \<le> 4096 \<longrightarrow>
      rounds pipe_chunk env (length (again env 0 cs)) \<lparr>stack = [(None, [])], input = concat (map typed cs) @ typed [''exit''], events = []\<rparr> =
      Some \<lparr>stack = [], input = [], events = again env 0 cs\<rparr>)"
proof -
  have one: "idle_shells (Suc 0) [(None, [])]" by (simp add: idle_shells_def)
  obtain sh where "rounds tty_chunk env (length cs) \<lparr>stack = [(None, [])], input = concat (map typed cs) @ exits k @ i, events = []\<rparr> =
      Some \<lparr>stack = sh, input = exits k @ i, events = told env 0 cs\<rparr>" "idle_shells k sh"
    using tty_commands [OF assms(1) one, of env "exits k @ i" "[]"] by (auto simp: k)
  then show ?thesis
    using tty_exits [of k sh env i "told env 0 cs"] pipe_rounds [OF assms(1) refl] unfolding replicate_add run_append by simp
qed

text \<open>A misspelt command before one that works, from a terminal and from a pipe.\<close>

definition ex_env :: "nat \<Rightarrow> Shell.action \<Rightarrow> fate" where
  "ex_env n a = (if a = Run ''dat'' [] then Not_executed else Executed)"

theorem shells_in_shells_witness:
  "rounds tty_chunk ex_env 4 \<lparr>stack = [(None, [])], input = typed [''dat''] @ typed [''date''] @ exits 2, events = []\<rparr> =
     Some \<lparr>stack = [], input = [], events = [Failed (Run ''dat'' []), Ran (Run ''date'' []), Ended (Exit 0), Ended (Exit 0)]\<rparr> \<and>
   rounds pipe_chunk ex_env 5 \<lparr>stack = [(None, [])], input = typed [''dat''] @ typed [''date''] @ typed [''exit''], events = []\<rparr> =
     Some \<lparr>stack = [], input = [], events = [Failed (Run ''dat'' []), Ran (Run ''date'' []), Ended (Exit 0), Ran (Run ''date'' []), Ended (Exit 0)]\<rparr>"
proof -
  have cs: "commands [[''dat''], [''date'']]"
    by (simp add: commands_def command_def word_def MAX_ARGS_def MAX_LINE_def)
  have "told ex_env 0 [[''dat''], [''date'']] = [Failed (Run ''dat'' []), Ran (Run ''date'' [])]"
    "again ex_env 0 [[''dat''], [''date'']] = [Failed (Run ''dat'' []), Ran (Run ''date'' []), Ended (Exit 0), Ran (Run ''date'' []), Ended (Exit 0)]"
    by (simp_all add: ex_env_def act_def)
  then show ?thesis
    using shells_in_shells [OF cs, of 2 ex_env "[]"]
    by (simp add: failures_def typed_def numeral_eq_Suc)
qed

end
