(* ===== verification/Threads_Counter.thy ===== *)
theory Threads_Counter
  imports Prelude
begin

text \<open>
  \<open>pthread/task2.c\<close>: threads that increment one counter under a mutex, and \<open>pthread/task1.c\<close>: threads
  that print the index they are given. Each program is a machine of a main thread, which creates
  the threads and joins them, and the threads. \<open>counter++\<close> is a load and a store. The numbers of
  threads and of increments, constants in the code, are arguments.
\<close>

section \<open>The counter\<close>

definition NUM_THREADS :: nat where "NUM_THREADS = 5"

definition NUM_INCREMENTS :: nat where "NUM_INCREMENTS = 1000000"

text \<open>Where a thread is, with its loop variable and, between load and store, the value loaded.\<close>

datatype wpc = W_unborn | W_lock nat | W_load nat | W_store nat int | W_unlock nat | W_done

datatype mpc = M_create nat | M_join nat | M_print | M_end

record tally =
  counter :: int
  mutex :: "nat option"
  workers :: "wpc list"
  main_pc :: mpc
  printed :: "int option"

definition tally_init :: "nat \<Rightarrow> tally" where
  "tally_init n = \<lparr>counter = 0, mutex = None, workers = replicate n W_unborn, main_pc = M_create 0, printed = None\<rparr>"

text \<open>The test of the \<open>for\<close> loop in \<open>increment\<close>.\<close>

definition loop_at :: "nat \<Rightarrow> nat \<Rightarrow> wpc" where
  "loop_at k i = (if i < k then W_lock i else W_done)"

definition set_w :: "nat \<Rightarrow> wpc \<Rightarrow> tally \<Rightarrow> tally" where
  "set_w j p s = s\<lparr>workers := (workers s)[j := p]\<rparr>"

definition increment_step :: "nat \<Rightarrow> nat \<Rightarrow> tally \<Rightarrow> tally option" where
  "increment_step k j s = (case workers s ! j of
     W_lock i \<Rightarrow> if mutex s = None then Some (set_w j (W_load i) (s\<lparr>mutex := Some j\<rparr>)) else None
   | W_load i \<Rightarrow> Some (set_w j (W_store i (counter s)) s)
   | W_store i v \<Rightarrow> Some (set_w j (W_unlock i) (s\<lparr>counter := v + 1\<rparr>))
   | W_unlock i \<Rightarrow> Some (set_w j (loop_at k (Suc i)) (s\<lparr>mutex := None\<rparr>))
   | _ \<Rightarrow> None)"

definition count_main_step :: "nat \<Rightarrow> nat \<Rightarrow> tally \<Rightarrow> tally option" where
  "count_main_step n k s = (case main_pc s of
     M_create i \<Rightarrow> if i < n then Some (set_w i (loop_at k 0) (s\<lparr>main_pc := M_create (Suc i)\<rparr>))
                   else Some (s\<lparr>main_pc := M_join 0\<rparr>)
   | M_join i \<Rightarrow> if i < n then (if workers s ! i = W_done then Some (s\<lparr>main_pc := M_join (Suc i)\<rparr>) else None)
                 else Some (s\<lparr>main_pc := M_print\<rparr>)
   | M_print \<Rightarrow> Some (s\<lparr>printed := Some (counter s), main_pc := M_end\<rparr>)
   | M_end \<Rightarrow> None)"

datatype mover = Main | Worker nat

fun tally_step :: "nat \<Rightarrow> nat \<Rightarrow> mover \<Rightarrow> tally \<Rightarrow> tally option" where
  "tally_step n k Main s = count_main_step n k s"
| "tally_step n k (Worker j) s = (if j < length (workers s) then increment_step k j s else None)"

section \<open>Its invariant\<close>

fun in_crit :: "wpc \<Rightarrow> bool" where
  "in_crit (W_load i) = True" | "in_crit (W_store i v) = True" | "in_crit (W_unlock i) = True"
| "in_crit _ = False"

text \<open>How many increments a thread has stored, and that its loop variable is in range.\<close>

fun stored :: "nat \<Rightarrow> wpc \<Rightarrow> nat" where
  "stored k W_unborn = 0" | "stored k (W_lock i) = i" | "stored k (W_load i) = i"
| "stored k (W_store i v) = i" | "stored k (W_unlock i) = Suc i" | "stored k W_done = k"

fun in_range :: "nat \<Rightarrow> int \<Rightarrow> wpc \<Rightarrow> bool" where
  "in_range k c (W_lock i) \<longleftrightarrow> i < k" | "in_range k c (W_load i) \<longleftrightarrow> i < k"
| "in_range k c (W_store i v) \<longleftrightarrow> i < k \<and> v = c" | "in_range k c (W_unlock i) \<longleftrightarrow> i < k"
| "in_range k c _ \<longleftrightarrow> True"

text \<open>What the main thread knows: who was created and who is done.\<close>

definition main_inv :: "nat \<Rightarrow> nat \<Rightarrow> tally \<Rightarrow> bool" where
  "main_inv n k s \<longleftrightarrow> (case main_pc s of
     M_create i \<Rightarrow> i \<le> n \<and> (\<forall>j < n. workers s ! j = W_unborn \<longleftrightarrow> i \<le> j)
   | M_join i \<Rightarrow> i \<le> n \<and> (\<forall>j < n. workers s ! j \<noteq> W_unborn) \<and> (\<forall>j < i. workers s ! j = W_done)
   | M_print \<Rightarrow> \<forall>j < n. workers s ! j = W_done
   | M_end \<Rightarrow> (\<forall>j < n. workers s ! j = W_done) \<and> printed s = Some (int n * int k))"

definition tally_inv :: "nat \<Rightarrow> nat \<Rightarrow> tally \<Rightarrow> bool" where
  "tally_inv n k s \<longleftrightarrow> length (workers s) = n \<and> main_inv n k s \<and>
     (\<forall>j < n. in_crit (workers s ! j) \<longleftrightarrow> mutex s = Some j) \<and> (\<forall>j. mutex s = Some j \<longrightarrow> j < n) \<and>
     (\<forall>j < n. in_range k (counter s) (workers s ! j)) \<and>
     counter s = int (sum_list (map (stored k) (workers s)))"

text \<open>The steps a thread and the main thread still have to take, at most.\<close>

fun weight :: "nat \<Rightarrow> wpc \<Rightarrow> nat" where
  "weight k W_unborn = 4 * k" | "weight k (W_lock i) = 4 * (k - i)" | "weight k (W_load i) = 4 * (k - i) - 1"
| "weight k (W_store i v) = 4 * (k - i) - 2" | "weight k (W_unlock i) = 4 * (k - i) - 3" | "weight k W_done = 0"

fun main_weight :: "nat \<Rightarrow> mpc \<Rightarrow> nat" where
  "main_weight n (M_create i) = (n - i) + n + 3" | "main_weight n (M_join i) = (n - i) + 2"
| "main_weight n M_print = 1" | "main_weight n M_end = 0"

definition to_go :: "nat \<Rightarrow> nat \<Rightarrow> tally \<Rightarrow> nat" where
  "to_go n k s = sum_list (map (weight k) (workers s)) + main_weight n (main_pc s)"

lemma set_w_simps [simp]:
  "workers (set_w j p s) = (workers s)[j := p]" "main_pc (set_w j p s) = main_pc s"
  "counter (set_w j p s) = counter s" "mutex (set_w j p s) = mutex s" "printed (set_w j p s) = printed s"
  by (simp_all add: set_w_def)

lemma sum_map_update:
  fixes f :: "'a \<Rightarrow> nat"
  shows "i < length xs \<Longrightarrow> sum_list (map f (xs[i := v])) + f (xs ! i) = sum_list (map f xs) + f v"
proof (induction xs arbitrary: i)
  case Nil
  then show ?case by simp
next
  case (Cons x xs)
  then show ?case by (cases i) auto
qed

lemma loop_at_facts [simp]:
  "stored k (loop_at k i) = (if i \<le> k then i else k)" "in_range k c (loop_at k i)" "\<not> in_crit (loop_at k i)"
  "loop_at k i \<noteq> W_unborn" "weight k (loop_at k i) = 4 * (k - i)"
  by (auto simp: loop_at_def)

text \<open>One worker moves: what has to be checked of the new state.\<close>

lemma inv_update:
  assumes inv: "tally_inv n k s" and j: "j < n"
    and live: "workers s ! j \<noteq> W_unborn" "workers s ! j \<noteq> W_done" "p \<noteq> W_unborn"
    and rest: "main_pc t = main_pc s" "printed t = printed s" "workers t = (workers s)[j := p]"
    and lock: "in_crit p \<longleftrightarrow> mutex t = Some j" "\<And>i. i \<noteq> j \<Longrightarrow> mutex t = Some i \<longleftrightarrow> mutex s = Some i"
    and range: "in_range k (counter t) p" "counter t = counter s \<or> mutex s = Some j"
    and count: "counter t + int (stored k (workers s ! j)) = counter s + int (stored k p)"
  shows "tally_inv n k t"
proof -
  have len: "length (workers s) = n" using inv by (simp add: tally_inv_def)
  have "main_inv n k t"
    using inv j live rest by (auto simp: tally_inv_def main_inv_def nth_list_update split: mpc.splits)
  moreover have "in_crit (workers t ! i) \<longleftrightarrow> mutex t = Some i" if "i < n" for i
    using that inv j len rest(3) lock by (cases "i = j") (simp_all add: tally_inv_def)
  moreover have "in_range k (counter t) (workers t ! i)" if "i < n" for i
  proof (cases "i = j")
    case True
    then show ?thesis using j len rest(3) range(1) by simp
  next
    case False
    have r: "in_range k (counter s) (workers s ! i)" using inv that unfolding tally_inv_def by blast
    have "in_crit (workers s ! i) \<longleftrightarrow> mutex s = Some i" using inv that unfolding tally_inv_def by blast
    then have "counter t = counter s \<or> \<not> in_crit (workers s ! i)" using range(2) False by auto
    then have "in_range k (counter t) (workers s ! i)" using r by (cases "workers s ! i") auto
    then show ?thesis using False rest(3) by simp
  qed
  moreover have "counter t = int (sum_list (map (stored k) (workers t)))"
    using sum_map_update [of j "workers s" "stored k" p] inv j len count rest(3)
    by (simp add: tally_inv_def)
  moreover have "mutex t = Some i \<Longrightarrow> i < n" for i
    using lock(2) [of i] inv j by (cases "i = j") (auto simp: tally_inv_def)
  ultimately show ?thesis using len rest(3) by (simp add: tally_inv_def)
qed

lemma inv_worker:
  assumes inv: "tally_inv n k s" and j: "j < n" and step: "increment_step k j s = Some t"
  shows "tally_inv n k t" and "Suc (to_go n k t) = to_go n k s"
proof -
  have len: "length (workers s) = n" and r: "in_range k (counter s) (workers s ! j)"
    and crit: "in_crit (workers s ! j) \<longleftrightarrow> mutex s = Some j"
    using inv j unfolding tally_inv_def by blast+
  note upd = inv_update [OF inv j] and def = increment_step_def
  show "tally_inv n k t"
  proof (cases "workers s ! j")
    case (W_lock i)
    show ?thesis by (rule upd [of "W_load i"]) (use W_lock step r in \<open>auto simp: def split: if_splits\<close>)
  next
    case (W_load i)
    show ?thesis by (rule upd [of "W_store i (counter s)"]) (use W_load step r crit in \<open>auto simp: def\<close>)
  next
    case (W_store i v)
    show ?thesis by (rule upd [of "W_unlock i"]) (use W_store step r crit in \<open>auto simp: def\<close>)
  next
    case (W_unlock i)
    show ?thesis by (rule upd [of "loop_at k (Suc i)"]) (use W_unlock step r crit in \<open>auto simp: def\<close>)
  qed (use step in \<open>simp_all add: def\<close>)
  show "Suc (to_go n k t) = to_go n k s"
  proof -
    obtain p where t: "workers t = (workers s)[j := p]" "main_pc t = main_pc s"
      "Suc (weight k p) = weight k (workers s ! j)"
      using step r by (auto simp: def split: wpc.splits if_splits)
    then show ?thesis
      using sum_map_update [of j "workers s" "weight k" p] j len by (simp add: to_go_def)
  qed
qed

lemma inv_main:
  assumes inv: "tally_inv n k s" and step: "count_main_step n k s = Some t"
  shows "tally_inv n k t" and "Suc (to_go n k t) = to_go n k s"
proof -
  have len: "length (workers s) = n" and m: "main_inv n k s" using inv unfolding tally_inv_def by blast+
  note def = count_main_step_def
  show "tally_inv n k t"
  proof (cases "main_pc s")
    case (M_create i)
    show ?thesis
    proof (cases "i < n")
      case True
      then have w: "workers s ! i = W_unborn" and t: "t = set_w i (loop_at k 0) (s\<lparr>main_pc := M_create (Suc i)\<rparr>)"
        using m M_create step by (auto simp: main_inv_def def)
      have "main_inv n k t"
        using m M_create True len unfolding t main_inv_def by (auto simp: nth_list_update)
      moreover have "int (sum_list (map (stored k) (workers t))) = counter s"
        using sum_map_update [of i "workers s" "stored k" "loop_at k 0"] True len w inv
        by (simp add: t tally_inv_def)
      ultimately show ?thesis
        using inv w True len unfolding tally_inv_def t by (auto simp: nth_list_update)
    next
      case False
      then show ?thesis using M_create inv step by (auto simp: def tally_inv_def main_inv_def)
    qed
  next
    case (M_join i)
    then show ?thesis using inv step by (auto simp: def tally_inv_def main_inv_def less_Suc_eq split: if_splits)
  next
    case M_print
    then have "workers s = replicate n W_done"
      using m len by (simp add: main_inv_def list_eq_iff_nth_eq)
    then have "counter s = int n * int k" using inv by (simp add: tally_inv_def sum_list_replicate)
    then show ?thesis using M_print inv step by (auto simp: def tally_inv_def main_inv_def)
  next
    case M_end
    then show ?thesis using step by (simp add: def)
  qed
  show "Suc (to_go n k t) = to_go n k s"
  proof (cases "main_pc s")
    case (M_create i)
    show ?thesis
    proof (cases "i < n")
      case True
      then have w: "workers s ! i = W_unborn" and t: "t = set_w i (loop_at k 0) (s\<lparr>main_pc := M_create (Suc i)\<rparr>)"
        using m M_create step by (auto simp: main_inv_def def)
      then show ?thesis
        using sum_map_update [of i "workers s" "weight k" "loop_at k 0"] True len M_create
        by (simp add: to_go_def)
    next
      case False
      then show ?thesis using M_create m step by (auto simp: def to_go_def main_inv_def)
    qed
  qed (use m step in \<open>auto simp: def to_go_def main_inv_def split: if_splits\<close>)
qed

lemma tally_step_facts:
  assumes inv: "tally_inv n k s" and step: "tally_step n k e s = Some t"
  shows "tally_inv n k t \<and> Suc (to_go n k t) = to_go n k s"
proof (cases e)
  case Main
  then show ?thesis using inv_main [OF inv, of t] step by simp
next
  case (Worker j)
  have len: "length (workers s) = n" using inv unfolding tally_inv_def by blast
  have "j < n" "increment_step k j s = Some t"
    using step unfolding Worker by (simp_all add: len split: if_splits)
  then show ?thesis using inv_worker [OF inv, of j t] by blast
qed

interpretation tally: event_system "tally_step n k" "tally_inv n k" for n k
  by unfold_locales (blast dest: tally_step_facts)

lemma tally_inv_init: "tally_inv n k (tally_init n)"
  by (simp add: tally_inv_def main_inv_def tally_init_def sum_list_replicate)

lemma tally_run:
  "tally_inv n k s \<Longrightarrow> run (tally_step n k) es s = Some t \<Longrightarrow> length es + to_go n k t = to_go n k s"
proof (induction es arbitrary: s)
  case Nil
  then show ?case by simp
next
  case (Cons e es)
  then obtain u where "tally_step n k e s = Some u" "run (tally_step n k) es u = Some t"
    by (auto split: option.splits)
  then show ?case
    using Cons.IH [of u] tally_step_facts [OF Cons.prems(1), of e u] by simp
qed

lemma stored_le: "in_range k c p \<Longrightarrow> stored k p \<le> k"
  by (cases p) auto

lemma tally_inv_bound: "tally_inv n k s \<Longrightarrow> 0 \<le> counter s \<and> counter s \<le> int n * int k"
proof -
  assume inv: "tally_inv n k s"
  then have "\<forall>p \<in> set (workers s). stored k p \<le> k"
    unfolding tally_inv_def by (metis in_set_conv_nth stored_le)
  then have "sum_list (map (stored k) (workers s)) \<le> length (workers s) * k"
    using sum_list_mono [of "workers s" "stored k" "\<lambda>_. k"] by (simp add: sum_list_triv)
  moreover have "length (workers s) = n" "counter s = int (sum_list (map (stored k) (workers s)))"
    using inv unfolding tally_inv_def by blast+
  ultimately show ?thesis by (metis of_nat_0_le_iff of_nat_le_iff of_nat_mult)
qed

text \<open>Somebody can always move, until the result is printed.\<close>

lemma tally_progress:
  assumes inv: "tally_inv n k s" and stuck: "\<And>e. tally_step n k e s = None"
  shows "main_pc s = M_end"
proof (cases "mutex s")
  case (Some j)
  then have "j < n" "in_crit (workers s ! j)" "length (workers s) = n"
    using inv unfolding tally_inv_def by blast+
  then show ?thesis using stuck [of "Worker j"] by (cases "workers s ! j") (auto simp: increment_step_def)
next
  case None
  have "workers s ! j = W_done \<or> workers s ! j = W_unborn" if "j < n" for j
    using stuck [of "Worker j"] that None inv
    by (auto simp: increment_step_def tally_inv_def split: wpc.splits)
  then show ?thesis
    using stuck [of Main] inv
    by (auto simp: count_main_step_def tally_inv_def main_inv_def split: mpc.splits if_splits)
qed

text \<open>
  C25: no increment is lost, under any interleaving of loads and stores: every run of main and the
  threads ends after at most \<open>4 * n * k + 2 * n + 3\<close> steps, and one that cannot go on has printed
  exactly \<open>n * k\<close>: five million for the constants of the code, which is an \<open>int\<close>.
\<close>

theorem counter_exact:
  assumes "run (tally_step n k) es (tally_init n) = Some s"
  shows "length es \<le> 4 * n * k + 2 * n + 3 \<and> 0 \<le> counter s \<and> counter s \<le> int n * int k \<and>
    ((\<forall>e. tally_step n k e s = None) \<longrightarrow> main_pc s = M_end \<and> printed s = Some (int n * int k))"
proof -
  have inv: "tally_inv n k s" using tally.run_inv [OF tally_inv_init assms] .
  have "to_go n k (tally_init n) = 4 * n * k + 2 * n + 3"
    by (simp add: to_go_def tally_init_def sum_list_replicate)
  then have "length es \<le> 4 * n * k + 2 * n + 3" using tally_run [OF tally_inv_init assms] by simp
  moreover have "printed s = Some (int n * int k)" if "main_pc s = M_end"
    using inv that by (simp add: tally_inv_def main_inv_def)
  ultimately show ?thesis
    using tally_progress [OF inv] tally_inv_bound [OF inv] by blast
qed

text \<open>Two threads that increment once each: the second finds the mutex taken at first.\<close>

definition ex_tally :: "mover list" where
  "ex_tally = [Main, Main, Main, Worker 0, Worker 0, Worker 0, Worker 0, Worker 1, Worker 1, Worker 1,
     Worker 1, Main, Main, Main, Main]"

lemma ex_tally_run: "ends_in (\<lambda>s. printed s = Some 2 \<and> workers s = [W_done, W_done] \<and> main_pc s = M_end)
    (run (tally_step 2 1) ex_tally (tally_init 2))"
  by code_simp

theorem counter_exact_witness:
  "\<exists>s. run (tally_step 2 1) ex_tally (tally_init 2) = Some s \<and> length ex_tally \<le> 15 \<and> counter s \<le> 2 \<and>
     printed s = Some 2"
proof -
  obtain s where r: "run (tally_step 2 1) ex_tally (tally_init 2) = Some s" and d: "workers s = [W_done, W_done]" "main_pc s = M_end"
    using ex_tally_run by (auto elim: ends_inE)
  have "tally_step 2 1 e s = None" for e
    using d by (cases e) (auto simp: count_main_step_def increment_step_def less_Suc_eq numeral_2_eq_2)
  then show ?thesis using counter_exact [OF r] r by simp
qed

section \<open>The printed indices\<close>

text \<open>
  \<open>pthread/task1.c\<close>: thread \<open>i\<close> gets the address of \<open>t_id[i]\<close>, reads it and prints it. \<open>t_id\<close> is
  uninitialised at the start.
\<close>

datatype ipc = I_unborn | I_read | I_print int | I_done

record indices =
  t_id :: "int list"
  threads :: "ipc list"
  idx_main :: mpc
  shown :: "int list"

definition indices_init :: "int list \<Rightarrow> indices" where
  "indices_init junk = \<lparr>t_id = junk, threads = replicate (length junk) I_unborn, idx_main = M_create 0, shown = []\<rparr>"

definition print_index_step :: "nat \<Rightarrow> indices \<Rightarrow> indices option" where
  "print_index_step j s = (case threads s ! j of
     I_read \<Rightarrow> Some (s\<lparr>threads := (threads s)[j := I_print (t_id s ! j)]\<rparr>)
   | I_print v \<Rightarrow> Some (s\<lparr>threads := (threads s)[j := I_done], shown := shown s @ [v]\<rparr>)
   | _ \<Rightarrow> None)"

definition idx_main_step :: "nat \<Rightarrow> indices \<Rightarrow> indices option" where
  "idx_main_step n s = (case idx_main s of
     M_create i \<Rightarrow> if i < n
       then Some (s\<lparr>t_id := (t_id s)[i := int i], threads := (threads s)[i := I_read], idx_main := M_create (Suc i)\<rparr>)
       else Some (s\<lparr>idx_main := M_join 0\<rparr>)
   | M_join i \<Rightarrow> if i < n then (if threads s ! i = I_done then Some (s\<lparr>idx_main := M_join (Suc i)\<rparr>) else None)
                 else Some (s\<lparr>idx_main := M_end\<rparr>)
   | _ \<Rightarrow> None)"

fun indices_step :: "nat \<Rightarrow> mover \<Rightarrow> indices \<Rightarrow> indices option" where
  "indices_step n Main s = idx_main_step n s"
| "indices_step n (Worker j) s = (if j < n then print_index_step j s else None)"

text \<open>A thread that runs finds its own index, and the indices shown are those of the finished threads.\<close>

definition idx_main_inv :: "nat \<Rightarrow> indices \<Rightarrow> bool" where
  "idx_main_inv n s \<longleftrightarrow> (case idx_main s of
     M_create i \<Rightarrow> i \<le> n \<and> (\<forall>j < n. threads s ! j = I_unborn \<longleftrightarrow> i \<le> j)
   | M_join i \<Rightarrow> i \<le> n \<and> (\<forall>j < n. threads s ! j \<noteq> I_unborn) \<and> (\<forall>j < i. threads s ! j = I_done)
   | _ \<Rightarrow> \<forall>j < n. threads s ! j = I_done)"

definition shown_inv :: "nat \<Rightarrow> indices \<Rightarrow> bool" where
  "shown_inv n s \<longleftrightarrow> length (t_id s) = n \<and> length (threads s) = n \<and>
     (\<forall>j < n. threads s ! j \<noteq> I_unborn \<longrightarrow> t_id s ! j = int j) \<and>
     (\<forall>j < n. \<forall>v. threads s ! j = I_print v \<longrightarrow> v = int j) \<and>
     distinct (shown s) \<and> set (shown s) = int ` {j. j < n \<and> threads s ! j = I_done}"

lemma shown_main:
  assumes "idx_main_inv n s" "shown_inv n s" "idx_main_step n s = Some t"
  shows "idx_main_inv n t \<and> shown_inv n t"
proof (cases "idx_main s")
  case (M_create i)
  show ?thesis
  proof (cases "i < n")
    case True
    then have t: "t = s\<lparr>t_id := (t_id s)[i := int i], threads := (threads s)[i := I_read], idx_main := M_create (Suc i)\<rparr>"
      and u: "threads s ! i = I_unborn"
      using assms M_create by (auto simp: idx_main_step_def idx_main_inv_def)
    have "{j. j < n \<and> threads t ! j = I_done} = {j. j < n \<and> threads s ! j = I_done}"
      using u assms(2) True by (auto simp: t shown_inv_def nth_list_update split: if_splits)
    then show ?thesis
      using assms M_create True by (auto simp: t shown_inv_def idx_main_inv_def nth_list_update)
  next
    case False
    then show ?thesis using assms M_create by (auto simp: idx_main_step_def idx_main_inv_def shown_inv_def)
  qed
qed (use assms in \<open>auto simp: idx_main_step_def idx_main_inv_def shown_inv_def less_Suc_eq split: if_splits\<close>)

lemma shown_thread:
  assumes m: "idx_main_inv n s" and ok: "shown_inv n s" and j: "j < n" and step: "print_index_step j s = Some t"
  shows "idx_main_inv n t \<and> shown_inv n t"
proof -
  have l: "length (threads s) = n" using ok by (simp add: shown_inv_def)
  have "idx_main_inv n t"
  proof -
    obtain p where "threads t = (threads s)[j := p]" "threads s ! j \<noteq> I_unborn" "threads s ! j \<noteq> I_done" "p \<noteq> I_unborn"
      "idx_main t = idx_main s"
      using step by (auto simp: print_index_step_def split: ipc.splits)
    then show ?thesis
      using m j l by (auto simp: idx_main_inv_def nth_list_update split: mpc.splits if_splits)
  qed
  moreover have "shown_inv n t"
  proof (cases "threads s ! j")
    case I_read
    then have t: "t = s\<lparr>threads := (threads s)[j := I_print (t_id s ! j)]\<rparr>" using step by (simp add: print_index_step_def)
    have "{k. k < n \<and> threads t ! k = I_done} = {k. k < n \<and> threads s ! k = I_done}"
      using I_read l j by (auto simp: t nth_list_update split: if_splits)
    then show ?thesis using ok I_read j by (auto simp: t shown_inv_def nth_list_update)
  next
    case (I_print v)
    then have t: "t = s\<lparr>threads := (threads s)[j := I_done], shown := shown s @ [v]\<rparr>" and v: "v = int j"
      using step ok j by (auto simp: print_index_step_def shown_inv_def)
    have "{k. k < n \<and> threads t ! k = I_done} = insert j {k. k < n \<and> threads s ! k = I_done}"
      using l j by (auto simp: t nth_list_update)
    then have "set (shown t) = int ` {k. k < n \<and> threads t ! k = I_done}"
      using ok by (simp add: t v shown_inv_def)
    moreover have "distinct (shown t)" using ok I_print by (auto simp: t v shown_inv_def)
    moreover have "length (t_id t) = n" "length (threads t) = n" using ok by (simp_all add: t shown_inv_def)
    moreover have "t_id t ! k = int k" if "k < n" "threads t ! k \<noteq> I_unborn" for k
      using that ok I_print j by (cases "k = j") (simp_all add: t shown_inv_def)
    moreover have "w = int k" if "k < n" "threads t ! k = I_print w" for k w
      using that ok l by (cases "k = j") (simp_all add: t shown_inv_def)
    ultimately show ?thesis unfolding shown_inv_def by blast
  qed (use step in \<open>simp_all add: print_index_step_def\<close>)
  ultimately show ?thesis ..
qed

interpretation indices: event_system "indices_step n" "\<lambda>s. idx_main_inv n s \<and> shown_inv n s" for n
proof unfold_locales
  fix s e t
  assume inv: "idx_main_inv n s \<and> shown_inv n s" and step: "indices_step n e s = Some t"
  show "idx_main_inv n t \<and> shown_inv n t"
    using inv step shown_main [of n s t] shown_thread [of n s _ t] by (cases e) (auto split: if_splits)
qed

lemma indices_inv_init: "length junk = n \<Longrightarrow> idx_main_inv n (indices_init junk) \<and> shown_inv n (indices_init junk)"
  by (auto simp: idx_main_inv_def shown_inv_def indices_init_def)

text \<open>
  Every thread prints its own index, although all get pointers into one array that main is
  still filling: under any interleaving no index is printed twice, only finished threads have
  printed, and when main returns the output is a permutation of \<open>0\<close> to \<open>n - 1\<close>.
\<close>

theorem indices_once:
  assumes "length junk = n" and "run (indices_step n) es (indices_init junk) = Some s"
  shows "distinct (shown s) \<and> set (shown s) = int ` {j. j < n \<and> threads s ! j = I_done} \<and>
    (idx_main s = M_end \<longrightarrow> mset (shown s) = mset (map int [0..<n]))"
proof -
  have inv: "idx_main_inv n s" "shown_inv n s" using indices.run_inv [OF indices_inv_init assms(2)] assms(1) by auto
  have "mset (shown s) = mset (map int [0..<n])" if "idx_main s = M_end"
  proof -
    have "{j. j < n \<and> threads s ! j = I_done} = {0..<n}" using inv that by (auto simp: idx_main_inv_def)
    then have "set (shown s) = set (map int [0..<n])" using inv by (simp add: shown_inv_def)
    then show ?thesis using inv by (subst set_eq_iff_mset_eq_distinct [symmetric]) (auto simp: shown_inv_def distinct_map)
  qed
  then show ?thesis using inv by (simp add: shown_inv_def)
qed

text \<open>Two threads; the second one prints first.\<close>

definition ex_indices :: "mover list" where
  "ex_indices = [Main, Main, Worker 1, Worker 0, Worker 1, Worker 0, Main, Main, Main, Main]"

theorem indices_once_witness:
  "\<exists>s. run (indices_step 2) ex_indices (indices_init [77, 88]) = Some s \<and> shown s = [1, 0] \<and>
     mset (shown s) = mset (map int [0..<2])"
proof -
  have "ends_in (\<lambda>s. shown s = [1, 0] \<and> idx_main s = M_end) (run (indices_step 2) ex_indices (indices_init [77, 88]))"
    by code_simp
  then obtain s where s: "run (indices_step 2) ex_indices (indices_init [77, 88]) = Some s" "shown s = [1, 0]" "idx_main s = M_end"
    by (auto elim: ends_inE)
  then show ?thesis using indices_once [of "[77, 88]" 2 ex_indices s] by simp
qed

end
