(* ===== verification/Threads_Stores.thy ===== *)
theory Threads_Stores
  imports Prelude
begin

text \<open>
  \<open>pthread/task3.c\<close>: stores, each with a mutex, customers who empty the first store they can lock
  until their need is met, and a loader who fills the first store it can lock until every customer
  has been counted. Every access to shared memory is a step of its own; the order of the threads
  and the initial random numbers are arbitrary.
\<close>

section \<open>State\<close>

definition NUM_STORES :: nat where "NUM_STORES = 5"

definition NUM_CUSTOMERS :: nat where "NUM_CUSTOMERS = 3"

definition STORE_CAPACITY :: int where "STORE_CAPACITY = 10000"

definition LOADER_INCREMENT :: int where "LOADER_INCREMENT = 5000"

datatype who = Customer nat | Loader

text \<open>Where a customer is: testing the need, trying store \<open>i\<close>, in it, or reporting at the end.\<close>

datatype cpc = C_unborn | C_test | C_try nat | C_enter nat | C_take nat | C_zero nat | C_msg nat
  | C_unlock nat | C_sleep | C_exit | C_lock | C_load | C_count int | C_free | C_done

datatype lpc = L_unborn | L_try nat | L_load nat | L_add nat int | L_msg nat | L_unlock nat | L_sleep
  | L_lock | L_test | L_stop | L_go | L_done

datatype mpc = M_create nat | M_loader | M_join nat | M_join_loader | M_end

datatype line = Entered nat nat int int | Sleeping nat | Satisfied nat | Loaded nat int

record shop =
  stores :: "int list"
  store_lock :: "who option list"
  need :: "int list"
  satisfied :: int
  satisfied_lock :: "who option"
  customers :: "cpc list"
  loader :: lpc
  shop_main :: mpc
  said :: "line list"
  loads :: nat
  overflow :: bool

text \<open>
  What main does before the first \<open>pthread_create\<close>, from the values of \<open>rand\<close>, and the needs that
  it sets on the way. Two fields are not in the code: \<open>loads\<close> counts what the loader has brought,
  and \<open>overflow\<close> says that an \<open>int\<close> has left its range. From then on C promises nothing; the model
  goes on with the wrapped value, which keeps what does not depend on the numbers.
\<close>

definition shop_init :: "int list \<Rightarrow> int list \<Rightarrow> shop" where
  "shop_init r q = \<lparr>stores = map (\<lambda>x. x mod STORE_CAPACITY) r, store_lock = replicate NUM_STORES None,
     need = map (\<lambda>x. x mod 100000) q, satisfied = 0, satisfied_lock = None,
     customers = replicate NUM_CUSTOMERS C_unborn, loader = L_unborn, shop_main = M_create 0, said = [], loads = 0,
     overflow = False\<rparr>"

section \<open>Steps\<close>

definition c_at :: "nat \<Rightarrow> cpc \<Rightarrow> shop \<Rightarrow> shop" where
  "c_at j p s = s\<lparr>customers := (customers s)[j := p]\<rparr>"

definition say :: "line \<Rightarrow> shop \<Rightarrow> shop" where
  "say l s = s\<lparr>said := said s @ [l]\<rparr>"

definition own_store :: "nat \<Rightarrow> who option \<Rightarrow> shop \<Rightarrow> shop" where
  "own_store i w s = s\<lparr>store_lock := (store_lock s)[i := w]\<rparr>"

definition wrap32 :: "int \<Rightarrow> int" where
  "wrap32 x = (x + 2147483648) mod 4294967296 - 2147483648"

definition put_need :: "nat \<Rightarrow> int \<Rightarrow> shop \<Rightarrow> shop" where
  "put_need j x s = s\<lparr>need := (need s)[j := wrap32 x], overflow := (overflow s \<or> \<not> in_int x)\<rparr>"

definition put_store :: "nat \<Rightarrow> int \<Rightarrow> shop \<Rightarrow> shop" where
  "put_store i x s = s\<lparr>stores := (stores s)[i := wrap32 x], overflow := (overflow s \<or> \<not> in_int x)\<rparr>"

definition customer_step :: "nat \<Rightarrow> shop \<Rightarrow> shop option" where
  "customer_step j s = (case customers s ! j of
     C_test \<Rightarrow> Some (c_at j (if 0 < need s ! j then C_try 0 else C_exit) s)
   | C_try i \<Rightarrow> Some (if i < NUM_STORES
       then if store_lock s ! i = None then c_at j (C_enter i) (own_store i (Some (Customer j)) s)
            else c_at j (C_try (Suc i)) s
       else c_at j C_test s)
   | C_enter i \<Rightarrow> Some (c_at j (C_take i) (say (Entered j i (stores s ! i) (need s ! j)) s))
   | C_take i \<Rightarrow> Some (c_at j (C_zero i) (put_need j (need s ! j - stores s ! i) s))
   | C_zero i \<Rightarrow> Some (c_at j (C_msg i) (s\<lparr>stores := (stores s)[i := 0]\<rparr>))
   | C_msg i \<Rightarrow> Some (c_at j (C_unlock i) (say (Sleeping j) s))
   | C_unlock i \<Rightarrow> Some (c_at j C_sleep (own_store i None s))
   | C_sleep \<Rightarrow> Some (c_at j C_test s)
   | C_exit \<Rightarrow> Some (c_at j C_lock (say (Satisfied j) s))
   | C_lock \<Rightarrow> if satisfied_lock s = None
       then Some (c_at j C_load (s\<lparr>satisfied_lock := Some (Customer j)\<rparr>)) else None
   | C_load \<Rightarrow> Some (c_at j (C_count (satisfied s)) s)
   | C_count v \<Rightarrow> Some (c_at j C_free (s\<lparr>satisfied := v + 1\<rparr>))
   | C_free \<Rightarrow> Some (c_at j C_done (s\<lparr>satisfied_lock := None\<rparr>))
   | _ \<Rightarrow> None)"

definition l_at :: "lpc \<Rightarrow> shop \<Rightarrow> shop" where
  "l_at p s = s\<lparr>loader := p\<rparr>"

definition loader_step :: "shop \<Rightarrow> shop option" where
  "loader_step s = (case loader s of
     L_try i \<Rightarrow> Some (if i < NUM_STORES
       then if store_lock s ! i = None then l_at (L_load i) (own_store i (Some Loader) s)
            else l_at (L_try (Suc i)) s
       else l_at L_lock s)
   | L_load i \<Rightarrow> Some (l_at (L_add i (stores s ! i)) s)
   | L_add i v \<Rightarrow> Some (l_at (L_msg i) (put_store i (v + LOADER_INCREMENT) (s\<lparr>loads := Suc (loads s)\<rparr>)))
   | L_msg i \<Rightarrow> Some (l_at (L_unlock i) (say (Loaded i (stores s ! i)) s))
   | L_unlock i \<Rightarrow> Some (l_at L_sleep (own_store i None s))
   | L_sleep \<Rightarrow> Some (l_at L_lock s)
   | L_lock \<Rightarrow> if satisfied_lock s = None
       then Some (l_at L_test (s\<lparr>satisfied_lock := Some Loader\<rparr>)) else None
   | L_test \<Rightarrow> Some (l_at (if int NUM_CUSTOMERS \<le> satisfied s then L_stop else L_go) s)
   | L_stop \<Rightarrow> Some (l_at L_done (s\<lparr>satisfied_lock := None\<rparr>))
   | L_go \<Rightarrow> Some (l_at (L_try 0) (s\<lparr>satisfied_lock := None\<rparr>))
   | _ \<Rightarrow> None)"

definition shop_main_step :: "shop \<Rightarrow> shop option" where
  "shop_main_step s = (case shop_main s of
     M_create i \<Rightarrow> Some (if i < NUM_CUSTOMERS then c_at i C_test (s\<lparr>shop_main := M_create (Suc i)\<rparr>)
                        else s\<lparr>shop_main := M_loader\<rparr>)
   | M_loader \<Rightarrow> Some (l_at (L_try 0) (s\<lparr>shop_main := M_join 0\<rparr>))
   | M_join i \<Rightarrow> if i < NUM_CUSTOMERS
       then (if customers s ! i = C_done then Some (s\<lparr>shop_main := M_join (Suc i)\<rparr>) else None)
       else Some (s\<lparr>shop_main := M_join_loader\<rparr>)
   | M_join_loader \<Rightarrow> if loader s = L_done then Some (s\<lparr>shop_main := M_end\<rparr>) else None
   | M_end \<Rightarrow> None)"

datatype shopper = Main | Thread who

fun shop_step :: "shopper \<Rightarrow> shop \<Rightarrow> shop option" where
  "shop_step Main s = shop_main_step s"
| "shop_step (Thread Loader) s = loader_step s"
| "shop_step (Thread (Customer j)) s = (if j < NUM_CUSTOMERS then customer_step j s else None)"

section \<open>Who holds which lock\<close>

fun c_store :: "cpc \<Rightarrow> nat option" where
  "c_store (C_enter i) = Some i" | "c_store (C_take i) = Some i" | "c_store (C_zero i) = Some i"
| "c_store (C_msg i) = Some i" | "c_store (C_unlock i) = Some i" | "c_store _ = None"

fun l_store :: "lpc \<Rightarrow> nat option" where
  "l_store (L_load i) = Some i" | "l_store (L_add i v) = Some i" | "l_store (L_msg i) = Some i"
| "l_store (L_unlock i) = Some i" | "l_store _ = None"

fun in_store :: "shop \<Rightarrow> who \<Rightarrow> nat option" where
  "in_store s (Customer j) = (if j < NUM_CUSTOMERS then c_store (customers s ! j) else None)"
| "in_store s Loader = l_store (loader s)"

fun c_counting :: "cpc \<Rightarrow> bool" where
  "c_counting C_load = True" | "c_counting (C_count v) = True" | "c_counting C_free = True"
| "c_counting _ = False"

fun counting :: "shop \<Rightarrow> who \<Rightarrow> bool" where
  "counting s (Customer j) \<longleftrightarrow> j < NUM_CUSTOMERS \<and> c_counting (customers s ! j)"
| "counting s Loader \<longleftrightarrow> loader s \<in> {L_test, L_stop, L_go}"

text \<open>Lock \<open>i\<close> belongs to a thread exactly when the thread is where the code holds it.\<close>

definition owned :: "who option list \<Rightarrow> (who \<Rightarrow> nat option) \<Rightarrow> bool" where
  "owned L h \<longleftrightarrow> (\<forall>w i. h w = Some i \<longleftrightarrow> i < length L \<and> L ! i = Some w)"

definition sizes :: "shop \<Rightarrow> bool" where
  "sizes s \<longleftrightarrow> length (stores s) = NUM_STORES \<and> length (store_lock s) = NUM_STORES \<and>
     length (need s) = NUM_CUSTOMERS \<and> length (customers s) = NUM_CUSTOMERS"

definition locks_ok :: "shop \<Rightarrow> bool" where
  "locks_ok s \<longleftrightarrow> owned (store_lock s) (in_store s) \<and> (\<forall>w. satisfied_lock s = Some w \<longleftrightarrow> counting s w)"

lemma owned_keep: "owned L h \<Longrightarrow> (\<And>w. h' w = h w) \<Longrightarrow> owned L h'"
  by (simp add: owned_def)

lemma owned_lock:
  "owned L h \<Longrightarrow> i < length L \<Longrightarrow> L ! i = None \<Longrightarrow> h w = None \<Longrightarrow> h' w = Some i \<Longrightarrow>
   (\<And>v. v \<noteq> w \<Longrightarrow> h' v = h v) \<Longrightarrow> owned (L[i := Some w]) h'"
  unfolding owned_def by (metis length_list_update nth_list_update option.distinct(1) option.inject)

lemma owned_unlock:
  "owned L h \<Longrightarrow> h w = Some i \<Longrightarrow> h' w = None \<Longrightarrow> (\<And>v. v \<noteq> w \<Longrightarrow> h' v = h v) \<Longrightarrow> owned (L[i := None]) h'"
  unfolding owned_def by (metis length_list_update nth_list_update option.distinct(1) option.inject)

lemma owned_range: "owned L h \<Longrightarrow> h w = Some i \<Longrightarrow> i < length L \<and> L ! i = Some w"
  by (simp add: owned_def)

lemma fields [simp]:
  "stores (c_at j p s) = stores s" "store_lock (c_at j p s) = store_lock s" "need (c_at j p s) = need s"
  "satisfied (c_at j p s) = satisfied s" "satisfied_lock (c_at j p s) = satisfied_lock s"
  "customers (c_at j p s) = (customers s)[j := p]" "loader (c_at j p s) = loader s"
  "shop_main (c_at j p s) = shop_main s" "loads (c_at j p s) = loads s" "said (c_at j p s) = said s"
  "stores (l_at q s) = stores s" "store_lock (l_at q s) = store_lock s" "need (l_at q s) = need s"
  "satisfied (l_at q s) = satisfied s" "satisfied_lock (l_at q s) = satisfied_lock s"
  "customers (l_at q s) = customers s" "loader (l_at q s) = q"
  "shop_main (l_at q s) = shop_main s" "loads (l_at q s) = loads s" "said (l_at q s) = said s"
  "stores (say l s) = stores s" "store_lock (say l s) = store_lock s" "need (say l s) = need s"
  "satisfied (say l s) = satisfied s" "satisfied_lock (say l s) = satisfied_lock s"
  "customers (say l s) = customers s" "loader (say l s) = loader s"
  "shop_main (say l s) = shop_main s" "loads (say l s) = loads s" "said (say l s) = said s @ [l]"
  "stores (own_store i w s) = stores s" "store_lock (own_store i w s) = (store_lock s)[i := w]" "need (own_store i w s) = need s"
  "satisfied (own_store i w s) = satisfied s" "satisfied_lock (own_store i w s) = satisfied_lock s"
  "customers (own_store i w s) = customers s" "loader (own_store i w s) = loader s"
  "shop_main (own_store i w s) = shop_main s" "loads (own_store i w s) = loads s" "said (own_store i w s) = said s"
  by (simp_all add: c_at_def l_at_def say_def own_store_def)

lemma number_fields [simp]:
  "stores (put_need j x s) = stores s" "store_lock (put_need j x s) = store_lock s"
  "need (put_need j x s) = (need s)[j := wrap32 x]" "satisfied (put_need j x s) = satisfied s"
  "satisfied_lock (put_need j x s) = satisfied_lock s" "customers (put_need j x s) = customers s"
  "loader (put_need j x s) = loader s" "shop_main (put_need j x s) = shop_main s"
  "loads (put_need j x s) = loads s" "overflow (put_need j x s) \<longleftrightarrow> overflow s \<or> \<not> in_int x"
  "stores (put_store j x s) = (stores s)[j := wrap32 x]" "store_lock (put_store j x s) = store_lock s"
  "need (put_store j x s) = need s" "satisfied (put_store j x s) = satisfied s"
  "satisfied_lock (put_store j x s) = satisfied_lock s" "customers (put_store j x s) = customers s"
  "loader (put_store j x s) = loader s" "shop_main (put_store j x s) = shop_main s"
  "loads (put_store j x s) = loads s" "overflow (put_store j x s) \<longleftrightarrow> overflow s \<or> \<not> in_int x"
  "overflow (c_at j p s) = overflow s" "overflow (l_at q s) = overflow s" "overflow (say l s) = overflow s"
  "overflow (own_store i w s) = overflow s"
  by (simp_all add: put_need_def put_store_def c_at_def l_at_def say_def own_store_def)

lemma wrap32_in [simp]: "in_int x \<Longrightarrow> wrap32 x = x"
  by (simp add: wrap32_def in_int_def)

lemma sizes_customer: "sizes s \<Longrightarrow> customer_step j s = Some t \<Longrightarrow> sizes t"
  by (cases "customers s ! j") (auto simp: sizes_def customer_step_def split: if_splits)

lemma sizes_loader: "sizes s \<Longrightarrow> loader_step s = Some t \<Longrightarrow> sizes t"
  by (cases "loader s") (auto simp: sizes_def loader_step_def split: if_splits)

lemma sizes_main: "sizes s \<Longrightarrow> shop_main_step s = Some t \<Longrightarrow> sizes t"
  by (cases "shop_main s") (auto simp: sizes_def shop_main_step_def split: if_splits)

text \<open>Only the thread that moves changes its place.\<close>

lemma in_store_c_at [simp]:
  assumes "length (customers s) = NUM_CUSTOMERS" "j < NUM_CUSTOMERS"
  shows "in_store (c_at j p s) w = (if w = Customer j then c_store p else in_store s w)"
    and "counting (c_at j p s) w = (if w = Customer j then c_counting p else counting s w)"
  using assms by (cases w; auto)+

lemma in_store_l_at [simp]:
  "in_store (l_at q s) w = (if w = Loader then l_store q else in_store s w)"
  "counting (l_at q s) w = (if w = Loader then q \<in> {L_test, L_stop, L_go} else counting s w)"
  by (cases w; simp)+

lemma in_store_same:
  assumes "customers t = customers s" "loader t = loader s"
  shows "in_store t = in_store s" "counting t = counting s"
proof -
  show "in_store t = in_store s"
  proof
    show "in_store t w = in_store s w" for w using assms by (cases w) auto
  qed
  show "counting t = counting s"
  proof
    show "counting t w = counting s w" for w using assms by (cases w) auto
  qed
qed

lemma in_store_others [simp]:
  "in_store (own_store i v s) = in_store s" "counting (own_store i v s) = counting s"
  "in_store (say l s) = in_store s" "counting (say l s) = counting s"
  "in_store (s\<lparr>satisfied_lock := x\<rparr>) = in_store s" "counting (s\<lparr>satisfied_lock := x\<rparr>) = counting s"
  "in_store (s\<lparr>satisfied := y\<rparr>) = in_store s" "counting (s\<lparr>satisfied := y\<rparr>) = counting s"
  "in_store (s\<lparr>stores := z\<rparr>) = in_store s" "counting (s\<lparr>stores := z\<rparr>) = counting s"
  "in_store (put_need j v' s) = in_store s" "counting (put_need j v' s) = counting s"
  "in_store (put_store j v' s) = in_store s" "counting (put_store j v' s) = counting s"
  "in_store (s\<lparr>loads := m\<rparr>) = in_store s" "counting (s\<lparr>loads := m\<rparr>) = counting s"
  "in_store (s\<lparr>shop_main := u\<rparr>) = in_store s" "counting (s\<lparr>shop_main := u\<rparr>) = counting s"
  by (rule in_store_same; simp)+

declare in_store.simps [simp del] and counting.simps [simp del]

lemma locks_quiet:
  assumes ok: "locks_ok s" and same: "store_lock t = store_lock s" "satisfied_lock t = satisfied_lock s"
    and place: "\<And>w. in_store t w = in_store s w" "\<And>w. counting t w \<longleftrightarrow> counting s w"
  shows "locks_ok t"
  using ok owned_keep [of "store_lock s" "in_store s" "in_store t"] by (simp add: locks_ok_def same place)

lemma locks_customer:
  assumes sz: "sizes s" and ok: "locks_ok s" and j: "j < NUM_CUSTOMERS" and step: "customer_step j s = Some t"
  shows "locks_ok t"
proof -
  have own: "owned (store_lock s) (in_store s)" and sat: "\<And>w. satisfied_lock s = Some w \<longleftrightarrow> counting s w"
    using ok unfolding locks_ok_def by blast+
  have uniq: "c_counting (customers s ! j) \<Longrightarrow> counting s w \<Longrightarrow> w = Customer j" for w
    using sat [of w] sat [of "Customer j"] j by (simp add: counting.simps)
  have [simp]: "length (store_lock s) = NUM_STORES" "length (customers s) = NUM_CUSTOMERS" using sz by (auto simp: sizes_def)
  have me [simp]: "in_store s (Customer j) = c_store (customers s ! j)" "counting s (Customer j) = c_counting (customers s ! j)"
    using j by (simp_all add: in_store.simps counting.simps)
  note def = customer_step_def locks_ok_def
  show ?thesis
  proof (cases "customers s ! j")
    case (C_try i)
    then show ?thesis
      using step j sat owned_lock [OF own, of i "Customer j" "in_store (c_at j (C_enter i) (own_store i (Some (Customer j)) s))"]
      by (auto simp: def intro!: owned_keep [OF own] split: if_split_asm)
  next
    case (C_unlock i)
    then show ?thesis using step j sat owned_unlock [OF own, of "Customer j" i] by (auto simp: def split: if_split_asm)
  qed (use step j sat uniq in \<open>auto simp: def intro!: owned_keep [OF own] split: if_split_asm\<close>)
qed

lemma locks_loader:
  assumes sz: "sizes s" and ok: "locks_ok s" and step: "loader_step s = Some t"
  shows "locks_ok t"
proof -
  have own: "owned (store_lock s) (in_store s)" and sat: "\<And>w. satisfied_lock s = Some w \<longleftrightarrow> counting s w"
    using ok unfolding locks_ok_def by blast+
  have uniq: "loader s \<in> {L_test, L_stop, L_go} \<Longrightarrow> counting s w \<Longrightarrow> w = Loader" for w
    using sat [of w] sat [of Loader] by (simp add: counting.simps)
  have [simp]: "length (store_lock s) = NUM_STORES" using sz by (simp add: sizes_def)
  have me [simp]: "in_store s Loader = l_store (loader s)" "counting s Loader \<longleftrightarrow> loader s \<in> {L_test, L_stop, L_go}"
    by (simp_all add: in_store.simps counting.simps)
  note def = loader_step_def locks_ok_def
  show ?thesis
  proof (cases "loader s")
    case (L_try i)
    then show ?thesis
      using step sat owned_lock [OF own, of i Loader "in_store (l_at (L_load i) (own_store i (Some Loader) s))"]
      by (auto simp: def intro!: owned_keep [OF own] split: if_split_asm)
  next
    case (L_unlock i)
    then show ?thesis using step sat owned_unlock [OF own, of Loader i] by (auto simp: def split: if_split_asm)
  qed (use step sat uniq in \<open>auto simp: def intro!: owned_keep [OF own] split: if_split_asm\<close>)
qed

text \<open>What main knows of the others.\<close>

definition main_ok :: "shop \<Rightarrow> bool" where
  "main_ok s \<longleftrightarrow> (case shop_main s of
     M_create i \<Rightarrow> i \<le> NUM_CUSTOMERS \<and> (\<forall>j < NUM_CUSTOMERS. customers s ! j = C_unborn \<longleftrightarrow> i \<le> j) \<and> loader s = L_unborn
   | M_loader \<Rightarrow> (\<forall>j < NUM_CUSTOMERS. customers s ! j \<noteq> C_unborn) \<and> loader s = L_unborn
   | M_join i \<Rightarrow> i \<le> NUM_CUSTOMERS \<and> (\<forall>j < NUM_CUSTOMERS. customers s ! j \<noteq> C_unborn) \<and>
       (\<forall>j < i. customers s ! j = C_done) \<and> loader s \<noteq> L_unborn
   | M_join_loader \<Rightarrow> (\<forall>j < NUM_CUSTOMERS. customers s ! j = C_done) \<and> loader s \<noteq> L_unborn
   | M_end \<Rightarrow> (\<forall>j < NUM_CUSTOMERS. customers s ! j = C_done) \<and> loader s = L_done)"

lemma customer_moves:
  assumes "customer_step j s = Some t"
  obtains p where "customers t = (customers s)[j := p]" "customers s ! j \<noteq> C_unborn" "customers s ! j \<noteq> C_done"
    "p \<noteq> C_unborn" "loader t = loader s" "shop_main t = shop_main s"
  using assms by (cases "customers s ! j") (auto simp: customer_step_def split: if_splits)

lemma loader_moves:
  assumes "loader_step s = Some t"
  shows "customers t = customers s \<and> shop_main t = shop_main s \<and> loader s \<noteq> L_unborn \<and>
    loader s \<noteq> L_done \<and> loader t \<noteq> L_unborn \<and> need t = need s"
  using assms by (cases "loader s") (auto simp: loader_step_def split: if_splits)

lemma main_ok_step:
  assumes sz: "sizes s" and ok: "main_ok s" and step: "shop_step e s = Some t"
  shows "main_ok t"
proof (cases "(e, s)" rule: shop_step.cases)
  case (1 s')
  then show ?thesis using ok step sz
    by (cases "shop_main s")
      (auto simp: shop_main_step_def main_ok_def sizes_def nth_list_update less_Suc_eq split: if_splits)
next
  case (2 s')
  then show ?thesis using ok step loader_moves [of s t] by (auto simp: main_ok_def split: mpc.splits)
next
  case (3 j s')
  then have "j < NUM_CUSTOMERS" and "customer_step j s = Some t" using step by (simp_all split: if_splits)
  then show ?thesis using ok sz
    by (elim customer_moves) (auto simp: main_ok_def sizes_def nth_list_update split: mpc.splits)
qed

lemma locks_main:
  assumes sz: "sizes s" and m: "main_ok s" and ok: "locks_ok s" and step: "shop_main_step s = Some t"
  shows "locks_ok t"
proof -
  have own: "owned (store_lock s) (in_store s)" and sat: "\<And>w. satisfied_lock s = Some w \<longleftrightarrow> counting s w"
    using ok unfolding locks_ok_def by blast+
  have [simp]: "length (customers s) = NUM_CUSTOMERS" using sz by (simp add: sizes_def)
  note defs = shop_main_step_def main_ok_def locks_ok_def in_store_others
  show ?thesis
  proof (cases "shop_main s")
    case (M_create i)
    show ?thesis
    proof (cases "i < NUM_CUSTOMERS")
      case True
      then have "customers s ! i = C_unborn" using m M_create unfolding main_ok_def by auto
      then have no: "in_store s (Customer i) = None" "\<not> counting s (Customer i)"
        by (simp_all add: in_store.simps counting.simps)
      have t: "t = c_at i C_test (s\<lparr>shop_main := M_create (Suc i)\<rparr>)"
        using M_create True step by (simp add: shop_main_step_def)
      have "in_store t w = in_store s w" "counting t w \<longleftrightarrow> counting s w" for w
        using True no unfolding t by simp_all
      then show ?thesis by (intro locks_quiet [OF ok]) (simp_all add: t)
    next
      case False
      then show ?thesis using M_create step own sat by (auto simp: defs)
    qed
  next
    case M_loader
    then have no: "in_store s Loader = None" "\<not> counting s Loader" and t: "t = l_at (L_try 0) (s\<lparr>shop_main := M_join 0\<rparr>)"
      using m step by (simp_all add: main_ok_def in_store.simps counting.simps shop_main_step_def)
    have "in_store t w = in_store s w" "counting t w \<longleftrightarrow> counting s w" for w
      using no unfolding t by simp_all
    then show ?thesis by (intro locks_quiet [OF ok]) (simp_all add: t)
  qed (use step own sat in \<open>auto simp: defs split: if_split_asm\<close>)
qed

section \<open>Who has been counted\<close>

fun counted :: "cpc \<Rightarrow> bool" where
  "counted C_free = True" | "counted C_done = True" | "counted _ = False"

text \<open>A customer goes into a store only in need, and leaves the loop only with the need met.\<close>

fun need_at :: "cpc \<Rightarrow> int \<Rightarrow> bool" where
  "need_at (C_try i) x \<longleftrightarrow> 0 < x" | "need_at (C_enter i) x \<longleftrightarrow> 0 < x" | "need_at (C_take i) x \<longleftrightarrow> 0 < x"
| "need_at C_exit x \<longleftrightarrow> x \<le> 0" | "need_at C_lock x \<longleftrightarrow> x \<le> 0" | "need_at C_load x \<longleftrightarrow> x \<le> 0"
| "need_at (C_count v) x \<longleftrightarrow> x \<le> 0" | "need_at C_free x \<longleftrightarrow> x \<le> 0" | "need_at C_done x \<longleftrightarrow> x \<le> 0"
| "need_at _ x \<longleftrightarrow> True"

fun count_at :: "cpc \<Rightarrow> int \<Rightarrow> bool" where
  "count_at (C_count v) x \<longleftrightarrow> v = x" | "count_at _ x \<longleftrightarrow> True"

definition count_ok :: "shop \<Rightarrow> bool" where
  "count_ok s \<longleftrightarrow> satisfied s = int (count_where counted (customers s)) \<and>
     (\<forall>j < NUM_CUSTOMERS. need_at (customers s ! j) (need s ! j) \<and> count_at (customers s ! j) (satisfied s)) \<and>
     (loader s \<in> {L_stop, L_done} \<longrightarrow> int NUM_CUSTOMERS \<le> satisfied s)"

lemma count_quiet:
  assumes sz: "sizes s" and ok: "count_ok s" and j: "j < NUM_CUSTOMERS"
    and t: "customers t = (customers s)[j := p]" "satisfied t = satisfied s" "loader t = loader s"
      "\<And>k. k \<noteq> j \<Longrightarrow> need t ! k = need s ! k"
    and p: "counted p \<longleftrightarrow> counted (customers s ! j)" "need_at p (need t ! j)" "count_at p (satisfied s)"
  shows "count_ok t"
  using assms by (auto simp: count_ok_def sizes_def nth_list_update)

lemma customer_quiet:
  assumes step: "customer_step j s = Some t" and "\<And>v. customers s ! j \<noteq> C_count v"
    and j: "j < length (need s)" "j < length (customers s)"
    and "need_at (customers s ! j) (need s ! j)"
  shows "customers t = (customers s)[j := customers t ! j] \<and> satisfied t = satisfied s \<and> loader t = loader s \<and>
    (\<forall>k. k \<noteq> j \<longrightarrow> need t ! k = need s ! k) \<and> (counted (customers t ! j) \<longleftrightarrow> counted (customers s ! j)) \<and>
    need_at (customers t ! j) (need t ! j) \<and> count_at (customers t ! j) (satisfied s)"
  using assms by (cases "customers s ! j") (simp_all add: customer_step_def split: if_split_asm, auto)

lemma count_customer:
  assumes sz: "sizes s" and ok: "count_ok s" and lk: "locks_ok s" and j: "j < NUM_CUSTOMERS"
    and step: "customer_step j s = Some t"
  shows "count_ok t"
proof -
  have n: "need_at (customers s ! j) (need s ! j)" "count_at (customers s ! j) (satisfied s)"
    and l: "length (customers s) = NUM_CUSTOMERS" "length (need s) = NUM_CUSTOMERS"
    using sz ok j by (auto simp: count_ok_def sizes_def)
  show ?thesis
  proof (cases "\<exists>v. customers s ! j = C_count v")
    case True
    then obtain v where C_count: "customers s ! j = C_count v" ..
    then have t: "t = c_at j C_free (s\<lparr>satisfied := v + 1\<rparr>)" and v: "v = satisfied s"
      using step n by (simp_all add: customer_step_def)
    have lock: "satisfied_lock s = Some (Customer j)"
      using lk j C_count by (simp add: locks_ok_def counting.simps)
    have "\<not> c_counting (customers s ! k)" if "k < NUM_CUSTOMERS" "k \<noteq> j" for k
    proof -
      have "\<not> counting s (Customer k)" using lk lock that(2) unfolding locks_ok_def by (metis option.inject who.inject)
      then show ?thesis using that(1) by (simp add: counting.simps)
    qed
    then have "count_at (customers s ! k) (v + 1)" if "k < NUM_CUSTOMERS" "k \<noteq> j" for k
      using that by (cases "customers s ! k") force+
    moreover have "int (count_where counted (customers t)) = satisfied s + 1"
      using count_where_update [of j "customers s" counted C_free] j l C_count ok t by (simp add: count_ok_def)
    ultimately show ?thesis
      using ok n C_count v l j by (auto simp: t count_ok_def nth_list_update)
  next
    case False
    then have q: "\<And>v. customers s ! j \<noteq> C_count v" "j < length (need s)" "j < length (customers s)"
      using l j by auto
    note q = customer_quiet [OF step q n(1)]
    show ?thesis by (rule count_quiet [OF sz ok j, of t "customers t ! j"]) (use q in blast)+
  qed
qed

lemma count_loader:
  assumes "count_ok s" "loader_step s = Some t"
  shows "count_ok t"
  using assms by (cases "loader s") (auto simp: count_ok_def loader_step_def split: if_split_asm)

lemma count_main:
  assumes sz: "sizes s" and ok: "count_ok s" and m: "main_ok s" and step: "shop_main_step s = Some t"
  shows "count_ok t"
proof (cases "shop_main s")
  case (M_create i)
  show ?thesis
  proof (cases "i < NUM_CUSTOMERS")
    case True
    then show ?thesis using M_create m step
      by (intro count_quiet [OF sz ok True, of t C_test]) (auto simp: shop_main_step_def main_ok_def)
  next
    case False
    then show ?thesis using M_create ok step by (auto simp: shop_main_step_def count_ok_def)
  qed
qed (use step ok in \<open>auto simp: shop_main_step_def count_ok_def split: if_split_asm\<close>)

section \<open>Where the goods are\<close>

text \<open>
  Between \<open>need -= stores[i]\<close> and \<open>stores[i] = 0\<close> the goods of store \<open>i\<close> are the customer's already.
\<close>

definition taken_out :: "shop \<Rightarrow> nat \<Rightarrow> bool" where
  "taken_out s i \<longleftrightarrow> C_zero i \<in> set (customers s)"

definition avail :: "shop \<Rightarrow> nat \<Rightarrow> int" where
  "avail s i = (if taken_out s i then 0 else stores s ! i)"

definition money :: "int \<Rightarrow> shop \<Rightarrow> bool" where
  "money c s \<longleftrightarrow> (\<Sum>i<NUM_STORES. avail s i) - sum_list (need s) = c + LOADER_INCREMENT * int (loads s) \<and>
     (\<forall>i v. loader s = L_add i v \<longrightarrow> v = stores s ! i) \<and>
     (\<forall>i < NUM_STORES. 0 \<le> stores s ! i \<and> stores s ! i < STORE_CAPACITY + LOADER_INCREMENT * int (loads s) \<and>
        in_int (stores s ! i)) \<and>
     (\<forall>j < NUM_CUSTOMERS. in_int (need s ! j))"

definition money_ok :: "int \<Rightarrow> shop \<Rightarrow> bool" where
  "money_ok c s \<longleftrightarrow> (\<not> overflow s \<longrightarrow> money c s) \<and> (loads s \<le> 429000 \<longrightarrow> \<not> overflow s)"

lemma sum_one_changes:
  fixes f g :: "nat \<Rightarrow> int"
  assumes "i < n" and "\<And>k. k < n \<Longrightarrow> k \<noteq> i \<Longrightarrow> f k = g k"
  shows "(\<Sum>k<n. f k) = (\<Sum>k<n. g k) - g i + f i"
proof -
  have "(\<Sum>k \<in> {..<n} - {i}. f k) = (\<Sum>k \<in> {..<n} - {i}. g k)" using assms(2) by (intro sum.cong) auto
  then show ?thesis
    using assms(1) sum.remove [of "{..<n}" i f] sum.remove [of "{..<n}" i g] by simp
qed

lemma sum_list_int_update:
  fixes xs :: "int list"
  shows "i < length xs \<Longrightarrow> sum_list (xs[i := v]) = sum_list xs - xs ! i + v"
proof (induction xs arbitrary: i)
  case Nil
  then show ?case by simp
next
  case (Cons x xs)
  then show ?case by (cases i) auto
qed

text \<open>Whoever is in a store is alone there.\<close>

lemma store_bound: "sizes s \<Longrightarrow> locks_ok s \<Longrightarrow> in_store s w = Some i \<Longrightarrow> i < NUM_STORES"
  using owned_range [of "store_lock s" "in_store s" w i] by (simp add: locks_ok_def sizes_def)

lemma store_alone: "locks_ok s \<Longrightarrow> in_store s v = Some i \<Longrightarrow> in_store s w = Some i \<Longrightarrow> v = w"
  using owned_range [of "store_lock s" "in_store s" v i] owned_range [of "store_lock s" "in_store s" w i]
  by (simp add: locks_ok_def)

lemma taken_out_by:
  assumes "sizes s" "taken_out s i"
  obtains j where "j < NUM_CUSTOMERS" "customers s ! j = C_zero i" "in_store s (Customer j) = Some i"
  using assms by (auto simp: taken_out_def in_set_conv_nth sizes_def in_store.simps)

lemma taken_out_update:
  assumes sz: "sizes s" and lk: "locks_ok s" and j: "j < NUM_CUSTOMERS" and t: "customers t = (customers s)[j := p]"
  shows "taken_out t i \<longleftrightarrow> (if p = C_zero i then True else if customers s ! j = C_zero i then False else taken_out s i)"
proof -
  have l: "length (customers s) = NUM_CUSTOMERS" using sz by (simp add: sizes_def)
  have "k = j" if "k < NUM_CUSTOMERS" "customers s ! k = C_zero i" "customers s ! j = C_zero i" for k
    using store_alone [OF lk, of "Customer k" i "Customer j"] that j by (simp add: in_store.simps)
  then show ?thesis
    using l j by (auto simp: t taken_out_def in_set_conv_nth nth_list_update)
qed

lemma customer_no_goods:
  assumes step: "customer_step j s = Some t" and "\<And>i. customers s ! j \<noteq> C_take i" "\<And>i. customers s ! j \<noteq> C_zero i"
    and j: "j < length (customers s)"
  shows "customers t = (customers s)[j := customers t ! j] \<and> (\<forall>k. customers t ! j \<noteq> C_zero k) \<and>
    stores t = stores s \<and> need t = need s \<and> loads t = loads s \<and> loader t = loader s \<and> overflow t = overflow s"
  using assms by (cases "customers s ! j") (simp_all add: customer_step_def split: if_split_asm, auto)

lemma overflow_mono: "shop_step e s = Some t \<Longrightarrow> overflow s \<Longrightarrow> overflow t"
proof (cases "(e, s)" rule: shop_step.cases)
  case (1 s')
  then show "shop_step e s = Some t \<Longrightarrow> overflow s \<Longrightarrow> overflow t"
    by (auto simp: shop_main_step_def split: mpc.splits if_split_asm)
next
  case (2 s')
  then show "shop_step e s = Some t \<Longrightarrow> overflow s \<Longrightarrow> overflow t"
    by (auto simp: loader_step_def split: lpc.splits if_split_asm)
next
  case (3 j s')
  then show "shop_step e s = Some t \<Longrightarrow> overflow s \<Longrightarrow> overflow t"
    by (auto simp: customer_step_def split: cpc.splits if_split_asm)
qed

lemma money_customer:
  assumes sz: "sizes s" and lk: "locks_ok s" and ct: "count_ok s" and ok: "money c s" and j: "j < NUM_CUSTOMERS"
    and step: "customer_step j s = Some t"
  shows "money c t \<and> overflow t = overflow s \<and> loads t = loads s"
proof -
  have l: "length (customers s) = NUM_CUSTOMERS" "length (need s) = NUM_CUSTOMERS" "length (stores s) = NUM_STORES"
    using sz by (auto simp: sizes_def)
  have me: "in_store s (Customer j) = c_store (customers s ! j)" using j by (simp add: in_store.simps)
  consider (C_take) i where "customers s ! j = C_take i" | (C_zero) i where "customers s ! j = C_zero i"
    | (quiet) "\<And>i. customers s ! j \<noteq> C_take i" "\<And>i. customers s ! j \<noteq> C_zero i" by blast
  then show ?thesis
  proof cases
    case (C_take i)
    then have t: "t = c_at j (C_zero i) (put_need j (need s ! j - stores s ! i) s)"
      using step by (simp add: customer_step_def)
    have i: "i < NUM_STORES" using store_bound [OF sz lk] me C_take by simp
    have "need_at (C_take i) (need s ! j)" using ct j C_take by (metis count_ok_def)
    then have r: "in_int (need s ! j - stores s ! i)" using ok i j by (force simp: money_def in_int_def)
    have "\<not> taken_out s i"
      using store_alone [OF lk, of "Customer j" i] me C_take by (fastforce elim!: taken_out_by [OF sz])
    moreover have out: "taken_out t k \<longleftrightarrow> k = i \<or> taken_out s k" for k
      using taken_out_update [OF sz lk j, of t "C_zero i" k] C_take by (auto simp: t)
    ultimately have "(\<Sum>k<NUM_STORES. avail t k) = (\<Sum>k<NUM_STORES. avail s k) - stores s ! i"
      using sum_one_changes [OF i, of "avail t" "avail s"] by (auto simp: avail_def t)
    then show ?thesis using ok l j r by (simp add: money_def t sum_list_int_update nth_list_update)
  next
    case (C_zero i)
    then have t: "t = c_at j (C_msg i) (s\<lparr>stores := (stores s)[i := 0]\<rparr>)"
      using step by (simp add: customer_step_def)
    have i: "i < NUM_STORES" using store_bound [OF sz lk] me C_zero by simp
    have out: "taken_out t k \<longleftrightarrow> k \<noteq> i \<and> taken_out s k" "taken_out s i" for k
      using taken_out_update [OF sz lk j, of t "C_msg i" k] C_zero l j by (auto simp: t taken_out_def in_set_conv_nth)
    then have "avail t k = avail s k" if "k < NUM_STORES" for k
      using that l by (simp add: avail_def t nth_list_update)
    moreover have "in_store s Loader \<noteq> Some i" using store_alone [OF lk, of "Customer j" i Loader] me C_zero by auto
    ultimately show ?thesis
      using ok i l
      by (auto simp: money_def t nth_list_update in_store.simps STORE_CAPACITY_def LOADER_INCREMENT_def in_int_def)
  next
    case quiet
    note same = customer_no_goods [OF step quiet]
    have "avail t = avail s"
      using taken_out_update [OF sz lk j, of t "customers t ! j"] same j l quiet
      by (auto simp: avail_def fun_eq_iff)
    then show ?thesis using ok same j l by (simp add: money_def)
  qed
qed

lemma money_quiet:
  assumes "money c s" "customers t = customers s" "stores t = stores s" "need t = need s" "loads t = loads s"
    and "\<And>i v. loader t = L_add i v \<Longrightarrow> v = stores s ! i"
  shows "money c t"
proof -
  have "avail t = avail s" using assms by (simp add: avail_def taken_out_def fun_eq_iff)
  then show ?thesis using assms by (simp add: money_def)
qed

lemma money_loader:
  assumes sz: "sizes s" and lk: "locks_ok s" and ok: "money c s" and safe: "\<not> overflow s"
    and step: "loader_step s = Some t"
  shows "(\<not> overflow t \<longrightarrow> money c t) \<and> (loads t \<le> 429000 \<longrightarrow> \<not> overflow t)"
proof -
  have l: "length (stores s) = NUM_STORES" using sz by (simp add: sizes_def)
  show ?thesis
  proof (cases "loader s")
    case (L_add i v)
    then have t: "t = l_at (L_msg i) (put_store i (v + LOADER_INCREMENT) (s\<lparr>loads := Suc (loads s)\<rparr>))"
      and v: "v = stores s ! i"
      using step ok by (simp_all add: loader_step_def money_def)
    have me: "in_store s Loader = Some i" using L_add by (simp add: in_store.simps)
    then have i: "i < NUM_STORES" using store_bound [OF sz lk] by simp
    have no: "\<not> taken_out s i"
    proof
      assume "taken_out s i"
      then obtain j where "in_store s (Customer j) = Some i" by (rule taken_out_by [OF sz])
      then show False using store_alone [OF lk me] by blast
    qed
    have bound: "v < STORE_CAPACITY + LOADER_INCREMENT * int (loads s)" "0 \<le> v"
      using ok i by (auto simp: money_def v)
    have few: "loads t \<le> 429000 \<longrightarrow> \<not> overflow t"
      using safe bound by (auto simp: t in_int_def STORE_CAPACITY_def LOADER_INCREMENT_def)
    have out: "taken_out t = taken_out s" by (simp add: taken_out_def t fun_eq_iff)
    have "money c t" if r: "in_int (v + LOADER_INCREMENT)"
    proof -
    have "(\<Sum>k<NUM_STORES. avail t k) = (\<Sum>k<NUM_STORES. avail s k) + LOADER_INCREMENT"
      using sum_one_changes [OF i, of "avail t" "avail s"] out no i l r by (simp add: avail_def t v)
    then show ?thesis using ok l i r
      by (auto simp: money_def t v nth_list_update LOADER_INCREMENT_def algebra_simps)
    qed
    then show ?thesis using few by (auto simp: t)
  qed (use step safe in \<open>auto simp: loader_step_def intro!: money_quiet [OF ok] split: if_split_asm\<close>)
qed

lemma money_main:
  assumes sz: "sizes s" and lk: "locks_ok s" and m: "main_ok s" and ok: "money c s" and step: "shop_main_step s = Some t"
  shows "money c t \<and> overflow t = overflow s \<and> loads t = loads s"
proof (cases "\<exists>i < NUM_CUSTOMERS. shop_main s = M_create i")
  case True
  then obtain i where i: "i < NUM_CUSTOMERS" "shop_main s = M_create i" by blast
  then have t: "t = c_at i C_test (s\<lparr>shop_main := M_create (Suc i)\<rparr>)" and u: "customers s ! i = C_unborn"
    using step m by (auto simp: shop_main_step_def main_ok_def)
  have "avail t = avail s"
    using taken_out_update [OF sz lk i(1), of t C_test] u by (simp add: t avail_def fun_eq_iff)
  then show ?thesis using ok by (simp add: money_def t)
next
  case False
  have "overflow t = overflow s" "customers t = customers s" "stores t = stores s" "need t = need s" "loads t = loads s"
    "loader t = loader s \<or> loader t = L_try 0"
    using step False by (auto simp: shop_main_step_def split: mpc.splits if_split_asm)
  then show ?thesis using ok money_quiet [OF ok, of t] by (auto simp: money_def)
qed

lemma money_step:
  assumes "sizes s" "locks_ok s" "main_ok s" "count_ok s" and ok: "money_ok c s" and step: "shop_step e s = Some t"
  shows "money_ok c t"
proof (cases "overflow s")
  case True
  have "loads s \<le> loads t"
    using step by (cases "(e, s)" rule: shop_step.cases)
      (auto simp: shop_main_step_def loader_step_def customer_step_def
        split: mpc.splits lpc.splits cpc.splits if_split_asm)
  with True show ?thesis using ok overflow_mono [OF step] by (auto simp: money_ok_def)
next
  case False
  then have m: "money c s" using ok by (simp add: money_ok_def)
  show ?thesis
  proof (cases "(e, s)" rule: shop_step.cases)
    case (1 s')
    then show ?thesis
      using step money_main [OF assms(1-3) m, of t] ok False by (simp add: money_ok_def)
  next
    case (2 s')
    then show ?thesis using step money_loader [OF assms(1,2) m False, of t] by (simp add: money_ok_def)
  next
    case (3 j s')
    then show ?thesis
      using step money_customer [OF assms(1,2,4) m, of j t] ok False by (auto simp: money_ok_def split: if_split_asm)
  qed
qed

section \<open>The machine\<close>

definition shop_inv :: "int \<Rightarrow> shop \<Rightarrow> bool" where
  "shop_inv c s \<longleftrightarrow> sizes s \<and> locks_ok s \<and> main_ok s \<and> count_ok s \<and> money_ok c s"

lemma shop_inv_step:
  assumes inv: "shop_inv c s" and step: "shop_step e s = Some t"
  shows "shop_inv c t"
proof -
  have i: "sizes s" "locks_ok s" "main_ok s" "count_ok s" "money_ok c s" using inv by (simp_all add: shop_inv_def)
  have "sizes t \<and> locks_ok t \<and> count_ok t"
  proof (cases "(e, s)" rule: shop_step.cases)
    case (1 s')
    then have m: "shop_main_step s = Some t" using step by simp
    show ?thesis
      using sizes_main [OF i(1) m] locks_main [OF i(1,3,2) m] count_main [OF i(1,4,3) m]
      by blast
  next
    case (2 s')
    then have l: "loader_step s = Some t" using step by simp
    show ?thesis
      using sizes_loader [OF i(1) l] locks_loader [OF i(1,2) l] count_loader [OF i(4) l]
      by blast
  next
    case (3 j s')
    then have j: "j < NUM_CUSTOMERS" "customer_step j s = Some t" using step by (simp_all split: if_splits)
    show ?thesis
      using sizes_customer [OF i(1) j(2)] locks_customer [OF i(1,2) j] count_customer [OF i(1,4,2) j]
      by blast
  qed
  then show ?thesis using main_ok_step [OF i(1,3) step] money_step [OF i step] by (simp add: shop_inv_def)
qed

interpretation shop: event_system shop_step "shop_inv c" for c
  by unfold_locales (rule shop_inv_step)

definition stock :: "int list \<Rightarrow> int" where
  "stock r = (\<Sum>x\<leftarrow>r. x mod STORE_CAPACITY)"

definition wanted :: "int list \<Rightarrow> int" where
  "wanted q = (\<Sum>x\<leftarrow>q. x mod 100000)"

lemma shop_inv_init:
  assumes "length r = NUM_STORES" "length q = NUM_CUSTOMERS"
  shows "shop_inv (stock r - wanted q) (shop_init r q)"
proof -
  let ?s = "shop_init r q"
  have n: "customers ?s ! j = C_unborn" if "j < NUM_CUSTOMERS" for j using that by (simp add: shop_init_def)
  have "in_store ?s w = None" "\<not> counting ?s w" for w
    by (cases w; auto simp: in_store.simps counting.simps n; simp add: shop_init_def)+
  then have "locks_ok ?s" by (simp add: locks_ok_def owned_def) (simp add: shop_init_def)
  moreover have "sizes ?s" "main_ok ?s" using assms by (auto simp: sizes_def main_ok_def n) (simp_all add: shop_init_def)
  moreover have "count_ok ?s" by (simp add: count_ok_def n) (simp add: shop_init_def count_where_def)
  moreover have "money_ok (stock r - wanted q) ?s"
  proof -
    have "avail ?s = (!) (map (\<lambda>x. x mod STORE_CAPACITY) r)"
      by (simp add: avail_def taken_out_def shop_init_def fun_eq_iff)
    then have "(\<Sum>i<NUM_STORES. avail ?s i) = stock r"
      using assms(1) by (simp add: stock_def sum_list_sum_nth atLeast0LessThan)
    moreover have "in_int (x mod 100000)" "in_int (x mod 10000)" for x
      by (auto simp: in_int_def intro: order_trans [of _ 0] order_trans [of _ 100000] order_trans [of _ 10000])
    ultimately show ?thesis using assms
      by (simp add: money_ok_def money_def) (simp add: shop_init_def wanted_def STORE_CAPACITY_def)
  qed
  ultimately show ?thesis by (simp add: shop_inv_def)
qed

lemma shop_inv_run:
  "length r = NUM_STORES \<Longrightarrow> length q = NUM_CUSTOMERS \<Longrightarrow> run shop_step es (shop_init r q) = Some s \<Longrightarrow>
   shop_inv (stock r - wanted q) s"
  by (rule shop.run_inv [OF shop_inv_init])

text \<open>Somebody can always move until main has returned: the only wait of a thread is for the one counter.\<close>

lemma counting_moves: "counting s w \<Longrightarrow> \<exists>t. shop_step (Thread w) s = Some t"
proof (cases w)
  case (Customer j)
  assume "counting s w"
  then show ?thesis unfolding Customer
    by (cases "customers s ! j") (auto simp: counting.simps customer_step_def)
next
  case Loader
  assume "counting s w"
  then show ?thesis unfolding Loader by (auto simp: counting.simps loader_step_def)
qed

lemma shop_progress:
  assumes inv: "shop_inv c s" and stuck: "\<And>e. shop_step e s = None"
  shows "shop_main s = M_end"
proof -
  have lk: "locks_ok s" and m: "main_ok s" using inv by (simp_all add: shop_inv_def)
  have free: "satisfied_lock s = None"
  proof (rule ccontr)
    assume "satisfied_lock s \<noteq> None"
    then obtain w where "counting s w" using lk by (auto simp: locks_ok_def)
    then show False using counting_moves stuck by fastforce
  qed
  have c: "customers s ! j = C_done \<or> customers s ! j = C_unborn" if "j < NUM_CUSTOMERS" for j
    using stuck [of "Thread (Customer j)"] that free by (cases "customers s ! j") (auto simp: customer_step_def)
  have l: "loader s = L_done \<or> loader s = L_unborn"
    using stuck [of "Thread Loader"] free by (cases "loader s") (auto simp: loader_step_def)
  show ?thesis
    using stuck [of Main] m c l
    by (cases "shop_main s") (auto simp: shop_main_step_def main_ok_def split: if_split_asm)
qed

lemma all_counted:
  assumes "sizes s" "count_ok s" "loader s = L_done"
  shows "\<forall>x \<in> set (need s). x \<le> 0"
proof
  fix x assume "x \<in> set (need s)"
  then obtain j where j: "j < NUM_CUSTOMERS" "need s ! j = x"
    using assms(1) by (auto simp: in_set_conv_nth sizes_def)
  have "count_where counted (customers s) = length (customers s)"
    using assms count_where_le [of counted "customers s"] by (simp add: count_ok_def sizes_def)
  then have "counted (customers s ! j)"
    using j assms(1) by (simp add: count_where_all sizes_def)
  moreover have "need_at (customers s ! j) x" using assms(2) j by (auto simp: count_ok_def)
  ultimately show "x \<le> 0" by (cases "customers s ! j") auto
qed

lemma all_free:
  assumes "sizes s" "locks_ok s" "main_ok s" "count_ok s"
  shows "shop_main s = M_end \<longrightarrow> satisfied s = int NUM_CUSTOMERS \<and> loader s = L_done \<and> satisfied_lock s = None \<and>
       (\<forall>i < NUM_STORES. store_lock s ! i = None)"
proof
  assume "shop_main s = M_end"
  then have d: "\<And>j. j < NUM_CUSTOMERS \<Longrightarrow> customers s ! j = C_done" "loader s = L_done"
    using assms(3) by (simp_all add: main_ok_def)
  have w: "in_store s w = None" "\<not> counting s w" for w
    by (cases w; simp add: in_store.simps counting.simps d)+
  have "customers s = replicate NUM_CUSTOMERS C_done"
    using assms(1) d(1) by (simp add: sizes_def list_eq_iff_nth_eq)
  then have "satisfied s = int NUM_CUSTOMERS" using assms(4) by (simp add: count_ok_def count_where_def)
  moreover have "satisfied_lock s = None" using assms(2) w by (cases "satisfied_lock s") (auto simp: locks_ok_def)
  moreover have "store_lock s ! i = None" if "i < NUM_STORES" for i
    using assms(1,2) w that by (cases "store_lock s ! i") (auto simp: locks_ok_def owned_def sizes_def)
  ultimately show "satisfied s = int NUM_CUSTOMERS \<and> loader s = L_done \<and> satisfied_lock s = None \<and>
       (\<forall>i < NUM_STORES. store_lock s ! i = None)" using d(2) by blast
qed

section \<open>Properties\<close>

text \<open>
  Random numbers 10001, 2, 3, 4, 5 for the stores and 1, 0, 0 for the needs: main creates everybody,
  customer 0 takes the one unit of store 0, the other two need nothing, the loader loads once.
\<close>

definition ex_shop :: shop where
  "ex_shop = shop_init [10001, 2, 3, 4, 5] [1, 0, 0]"

definition ex_day :: "shopper list" where
  "ex_day = replicate 5 Main @ replicate 14 (Thread (Customer 0)) @ replicate 6 (Thread (Customer 1)) @
     replicate 6 (Thread (Customer 2)) @ replicate 9 (Thread Loader) @ replicate 5 Main"

lemma ex_day_run:
  "ends_in (\<lambda>s. shop_main s = M_end \<and> stores s = [5000, 2, 3, 4, 5] \<and> need s = [0, 0, 0] \<and> loads s = 1 \<and> satisfied s = 3 \<and>
     said s = [Entered 0 0 1 1, Sleeping 0, Satisfied 0, Satisfied 1, Satisfied 2, Loaded 0 5000])
   (run shop_step ex_day ex_shop)"
  by code_simp

text \<open>
  C26: goods are neither lost nor made, whatever the interleaving: as long as no \<open>int\<close> has overflowed,
  what is in the stores and what the customers have taken is what was there at the start and
  \<open>LOADER_INCREMENT\<close> for every load, and no store is negative. No \<open>int\<close> overflows in the first 429000
  loads.
\<close>

theorem store_conservation:
  assumes "length r = NUM_STORES" "length q = NUM_CUSTOMERS" "run shop_step es (shop_init r q) = Some s"
  shows "(\<not> overflow s \<longrightarrow>
      (\<Sum>i<NUM_STORES. avail s i) + (wanted q - sum_list (need s)) = stock r + LOADER_INCREMENT * int (loads s) \<and>
      (\<forall>x \<in> set (stores s). 0 \<le> x \<and> in_int x)) \<and>
    (loads s \<le> 429000 \<longrightarrow> \<not> overflow s)"
proof -
  have inv: "sizes s" "money_ok (stock r - wanted q) s" using shop_inv_run [OF assms] by (simp_all add: shop_inv_def)
  have "0 \<le> x \<and> in_int x" if "x \<in> set (stores s)" "\<not> overflow s" for x
    using that inv by (fastforce simp: money_ok_def money_def sizes_def in_set_conv_nth)
  then show ?thesis using inv by (auto simp: money_ok_def money_def)
qed

theorem store_conservation_witness:
  "\<exists>s. run shop_step ex_day ex_shop = Some s \<and> loads s = 1 \<and>
     (\<Sum>i<NUM_STORES. avail s i) + 1 - sum_list (need s) = 15 + 5000"
proof -
  obtain s where s: "run shop_step ex_day ex_shop = Some s" "loads s = 1"
    using ex_day_run by (auto elim: ends_inE)
  then show ?thesis
    using store_conservation [of "[10001, 2, 3, 4, 5]" "[1, 0, 0]" ex_day s]
    by (simp add: ex_shop_def NUM_STORES_def NUM_CUSTOMERS_def stock_def wanted_def STORE_CAPACITY_def LOADER_INCREMENT_def)
qed

text \<open>
  C27: the loader stops only when every customer has been counted, and whoever is counted has the
  need met; when main returns, everybody is counted exactly once and every mutex is free.
\<close>

theorem store_end:
  assumes "length r = NUM_STORES" "length q = NUM_CUSTOMERS" "run shop_step es (shop_init r q) = Some s"
  shows "(loader s = L_done \<longrightarrow> (\<forall>x \<in> set (need s). x \<le> 0)) \<and>
    (shop_main s = M_end \<longrightarrow> satisfied s = int NUM_CUSTOMERS \<and> loader s = L_done \<and> satisfied_lock s = None \<and>
       (\<forall>i < NUM_STORES. store_lock s ! i = None)) \<and>
    ((\<forall>e. shop_step e s = None) \<longrightarrow> shop_main s = M_end)"
proof -
  note inv = shop_inv_run [OF assms]
  then have i: "sizes s" "locks_ok s" "main_ok s" "count_ok s" by (simp_all add: shop_inv_def)
  show ?thesis using all_counted [OF i(1,4)] all_free [OF i] shop_progress [OF inv] by blast
qed

theorem store_end_witness:
  "\<exists>s. run shop_step ex_day ex_shop = Some s \<and> shop_main s = M_end \<and> satisfied s = 3 \<and> need s = [0, 0, 0]"
proof -
  obtain s where s: "run shop_step ex_day ex_shop = Some s" "shop_main s = M_end" "need s = [0, 0, 0]"
    using ex_day_run by (auto elim: ends_inE)
  then show ?thesis
    using store_end [of "[10001, 2, 3, 4, 5]" "[1, 0, 0]" ex_day s]
    by (simp add: ex_shop_def NUM_STORES_def NUM_CUSTOMERS_def)
qed

end
