(* ===== verification/Sockets.thy ===== *)
theory Sockets
  imports Syscalls
begin

text \<open>
  The socket calls, and the four client and server pairs of \<open>sockets/hw1\<close>: TCP and UDP over the
  internet and over local sockets. The client sends its greeting with its NUL, the server sends it
  back with a remark appended.
\<close>

section \<open>Calls\<close>

datatype family = AF_INET | AF_LOCAL

datatype sort = STREAM | DGRAM

datatype scall = Socket family sort | Setsockopt int string | Bind int addr | Listen int nat
  | Connect int addr | Accept int | Read int nat | Recvfrom int nat | Write int string | Send int string
  | Sendto int string addr | Select "int list" | Close int | Unlink string | Inet_pton string
  | Pipe | Sleep nat | Malloc nat | Free int | Pthread_create int

definition INADDR_ANY :: string where "INADDR_ANY = ''0.0.0.0''"

definition PORT :: nat where "PORT = 8080"

text \<open>
  What a program has handed to the kernel for sending, with the descriptor and, for a datagram, the
  address it is for; the texts alone; those that went one way. None of the programs looks at what
  \<open>write\<close>, \<open>send\<close> and \<open>sendto\<close> return, so whether all of it left the host is not theirs to know.
\<close>

fun sends :: "scall action list \<Rightarrow> (int \<times> addr option \<times> string) list" where
  "sends (Sys (Write fd s) r # t) = (fd, None, s) # sends t"
| "sends (Sys (Send fd s) r # t) = (fd, None, s) # sends t"
| "sends (Sys (Sendto fd s a) r # t) = (fd, Some a, s) # sends t"
| "sends (_ # t) = sends t"
| "sends [] = []"

fun sent_by :: "scall action list \<Rightarrow> string list" where
  "sent_by (Sys (Write fd s) r # t) = s # sent_by t"
| "sent_by (Sys (Send fd s) r # t) = s # sent_by t"
| "sent_by (Sys (Sendto fd s a) r # t) = s # sent_by t"
| "sent_by (_ # t) = sent_by t"
| "sent_by [] = []"

lemma sent_by_sends: "sent_by t = map (snd \<circ> snd) (sends t)"
  by (induction t rule: sends.induct) simp_all

definition sent_to :: "int \<Rightarrow> addr option \<Rightarrow> scall action list \<Rightarrow> string list" where
  "sent_to fd a t = map (snd \<circ> snd) (filter (\<lambda>(f, b, s). f = fd \<and> b = a) (sends t))"

text \<open>The descriptors that were read, and closed, in order; the addresses that were bound and called.\<close>

fun reads :: "scall action list \<Rightarrow> int list" where
  "reads (Sys (Read fd n) r # t) = fd # reads t"
| "reads (Sys (Recvfrom fd n) r # t) = fd # reads t"
| "reads (_ # t) = reads t"
| "reads [] = []"

fun closed :: "scall action list \<Rightarrow> int list" where
  "closed (Sys (Close fd) r # t) = fd # closed t"
| "closed (_ # t) = closed t"
| "closed [] = []"

fun binds :: "scall action list \<Rightarrow> (int \<times> addr) list" where
  "binds (Sys (Bind fd a) r # t) = (fd, a) # binds t"
| "binds (_ # t) = binds t"
| "binds [] = []"

fun calls_on :: "scall action list \<Rightarrow> (int \<times> addr) list" where
  "calls_on (Sys (Connect fd a) r # t) = (fd, a) # calls_on t"
| "calls_on (Sys (Sendto fd s a) r # t) = (fd, a) # calls_on t"
| "calls_on (_ # t) = calls_on t"
| "calls_on [] = []"

text \<open>What a program has printed.\<close>

fun printed :: "'c action list \<Rightarrow> string list" where
  "printed (Printed s # t) = s # printed t"
| "printed (_ # t) = printed t"
| "printed [] = []"

section \<open>The servers\<close>

text \<open>\<open>strcat(buffer, ". Edited by server.")\<close>, and the \<open>strlen(buffer) + 1\<close> characters that are sent.\<close>

definition edit :: "char list \<Rightarrow> (string \<Rightarrow> 'c prog) \<Rightarrow> 'c prog" where
  "edit b k = (case cat_str b ''. Edited by server.'' of Inl e \<Rightarrow> Undef e | Inr b' \<Rightarrow> with_str b' (\<lambda>m. k (m @ [NUL])))"

definition show_inet :: "string \<Rightarrow> addr \<Rightarrow> string" where
  "show_inet who a = who @ '' address: '' @ ip_of a @ '', port: '' @ dec (port_of a) @ nl"

definition show_local :: "string \<Rightarrow> addr \<Rightarrow> string" where
  "show_local who a = who @ '' address: '' @ path_of a @ nl"

definition inet_tcp_server :: "char list \<Rightarrow> scall prog" where
  "inet_tcp_server junk =
     or_exit (Socket AF_INET STREAM) ''socket failed'' (\<lambda>s.
     or_exit (Bind (ret s) (Inet INADDR_ANY PORT)) ''bind failed'' (\<lambda>_.
     or_exit (Listen (ret s) 1) ''listen failed'' (\<lambda>_.
     or_exit (Accept (ret s)) ''accept failed'' (\<lambda>c.
     Call (Read (ret c) 1024) (\<lambda>r. let b = fill 1024 junk r in
     with_str b (\<lambda>m. Out (''Received message: '' @ m @ nl) (Out (show_inet ''Client'' (peer c)) (
     edit b (\<lambda>t. Call (Write (ret c) t) (\<lambda>_. Call (Close (ret c)) (\<lambda>_. Call (Close (ret s)) (\<lambda>_. Halt 0))))))))))))"

definition inet_udp_server :: "char list \<Rightarrow> scall prog" where
  "inet_udp_server junk =
     or_exit (Socket AF_INET DGRAM) ''socket failed'' (\<lambda>s.
     or_exit (Bind (ret s) (Inet INADDR_ANY PORT)) ''bind failed'' (\<lambda>_.
     Call (Recvfrom (ret s) 1024) (\<lambda>r. let b = fill 1024 junk r in
     with_str b (\<lambda>m. Out (''Received message: '' @ m @ nl) (Out (show_inet ''Client'' (peer r)) (
     edit b (\<lambda>t. Call (Sendto (ret s) t (peer r)) (\<lambda>_. Call (Close (ret s)) (\<lambda>_. Halt 0)))))))))"

definition local_tcp_server :: "char list \<Rightarrow> scall prog" where
  "local_tcp_server junk =
     (let path = ''/tmp/local_socket'' in
     or_exit (Socket AF_LOCAL STREAM) ''socket failed'' (\<lambda>s.
     Call (Unlink path) (\<lambda>_.
     or_exit (Bind (ret s) (Path path)) ''bind failed'' (\<lambda>_.
     or_exit (Listen (ret s) 1) ''listen failed'' (\<lambda>_.
     or_exit (Accept (ret s)) ''accept failed'' (\<lambda>c.
     Call (Read (ret c) 1024) (\<lambda>r. let b = fill 1024 junk r in
     with_str b (\<lambda>m. Out (''Received message: '' @ m @ nl) (
     edit b (\<lambda>t. Call (Write (ret c) t) (\<lambda>_. Call (Close (ret c)) (\<lambda>_. Call (Close (ret s)) (\<lambda>_.
     Call (Unlink path) (\<lambda>_. Halt 0))))))))))))))"

definition local_udp_server :: "char list \<Rightarrow> scall prog" where
  "local_udp_server junk =
     (let path = ''/tmp/local_socket_udp_server'' in
     or_exit (Socket AF_LOCAL DGRAM) ''socket failed'' (\<lambda>s.
     Call (Unlink path) (\<lambda>_.
     or_exit (Bind (ret s) (Path path)) ''bind failed'' (\<lambda>_.
     Call (Recvfrom (ret s) 1024) (\<lambda>r. let b = fill 1024 junk r in
     with_str b (\<lambda>m. Out (''Received message: '' @ m @ nl) (Out (show_local ''Client'' (peer r)) (
     edit b (\<lambda>t. Call (Sendto (ret s) t (peer r)) (\<lambda>_. Call (Close (ret s)) (\<lambda>_.
     Call (Unlink path) (\<lambda>_. Halt 0))))))))))))"

section \<open>The clients\<close>

text \<open>\<open>char buffer[1024] = "Hello from client"\<close>.\<close>

definition greeting :: "char list" where
  "greeting = ''Hello from client'' @ replicate (1024 - 17) NUL"

definition inet_tcp_client :: "scall prog" where
  "inet_tcp_client =
     (let server = Inet ''127.0.0.1'' PORT in
     or_exit (Socket AF_INET STREAM) ''socket failed'' (\<lambda>s.
     Call (Inet_pton ''127.0.0.1'') (\<lambda>n. if ret n \<le> 0 then Err ''inet_pton failed'' (Halt 1) else
     or_exit (Connect (ret s) server) ''connect failed'' (\<lambda>_.
     with_str greeting (\<lambda>g. Call (Write (ret s) (g @ [NUL])) (\<lambda>_.
     Call (Read (ret s) 1024) (\<lambda>r. with_str (fill 1024 greeting r) (\<lambda>m.
     Out (''Received from server: '' @ m @ nl) (Out (show_inet ''Server'' server) (
     Call (Close (ret s)) (\<lambda>_. Halt 0)))))))))))"

definition inet_udp_client :: "scall prog" where
  "inet_udp_client =
     (let server = Inet ''127.0.0.1'' PORT in
     or_exit (Socket AF_INET DGRAM) ''socket failed'' (\<lambda>s.
     Call (Inet_pton ''127.0.0.1'') (\<lambda>_.
     with_str greeting (\<lambda>g. Call (Sendto (ret s) (g @ [NUL]) server) (\<lambda>_.
     Call (Recvfrom (ret s) 1024) (\<lambda>r. with_str (fill 1024 greeting r) (\<lambda>m.
     Out (''Received from server: '' @ m @ nl) (
     Out (show_inet ''Server'' (if ret r < 0 then server else peer r)) (
     Call (Close (ret s)) (\<lambda>_. Halt 0))))))))))"

definition local_tcp_client :: "scall prog" where
  "local_tcp_client =
     (let server = Path ''/tmp/local_socket'' in
     or_exit (Socket AF_LOCAL STREAM) ''socket failed'' (\<lambda>s.
     or_exit (Connect (ret s) server) ''connect failed'' (\<lambda>_.
     with_str greeting (\<lambda>g. Call (Write (ret s) (g @ [NUL])) (\<lambda>_.
     Call (Read (ret s) 1024) (\<lambda>r. with_str (fill 1024 greeting r) (\<lambda>m.
     Out (''Received from server: '' @ m @ nl) (Out (show_local ''Server'' server) (
     Call (Close (ret s)) (\<lambda>_. Halt 0))))))))))"

definition local_udp_client :: "scall prog" where
  "local_udp_client =
     (let mine = ''/tmp/local_socket_udp_client''; server = Path ''/tmp/local_socket_udp_server'' in
     or_exit (Socket AF_LOCAL DGRAM) ''socket failed'' (\<lambda>s.
     Call (Unlink mine) (\<lambda>_.
     or_exit (Bind (ret s) (Path mine)) ''bind failed'' (\<lambda>_.
     with_str greeting (\<lambda>g. Call (Sendto (ret s) (g @ [NUL]) server) (\<lambda>_.
     Call (Recvfrom (ret s) 1024) (\<lambda>r. with_str (fill 1024 greeting r) (\<lambda>m.
     Out (''Received from server: '' @ m @ nl) (
     Out (show_local ''Server'' (if ret r < 0 then server else peer r)) (
     Call (Close (ret s)) (\<lambda>_. Call (Unlink mine) (\<lambda>_. Halt 0))))))))))))"

section \<open>The four pairs\<close>

datatype variant = Inet_tcp | Inet_udp | Local_tcp | Local_udp

fun hw1_server :: "variant \<Rightarrow> char list \<Rightarrow> scall prog" where
  "hw1_server Inet_tcp = inet_tcp_server" | "hw1_server Inet_udp = inet_udp_server"
| "hw1_server Local_tcp = local_tcp_server" | "hw1_server Local_udp = local_udp_server"

fun hw1_client :: "variant \<Rightarrow> scall prog" where
  "hw1_client Inet_tcp = inet_tcp_client" | "hw1_client Inet_udp = inet_udp_client"
| "hw1_client Local_tcp = local_tcp_client" | "hw1_client Local_udp = local_udp_client"

text \<open>
  The replies to the calls before the first one that carries data, when they are those of a
  successful set-up: \<open>socket\<close> and \<open>accept\<close> give a descriptor, \<open>inet_pton\<close> gives 1, the others 0;
  \<open>unlink\<close>, of a name that may not be there, may fail, and so may \<open>inet_pton\<close> where it is not looked at.
\<close>

definition server_up :: "variant \<Rightarrow> reply list \<Rightarrow> bool" where
  "server_up v pre \<longleftrightarrow> (case v of
     Inet_tcp \<Rightarrow> \<exists>s b l c. pre = [s, b, l, c] \<and> 0 \<le> ret s \<and> ret b = 0 \<and> ret l = 0 \<and> 0 \<le> ret c
   | Inet_udp \<Rightarrow> \<exists>s b. pre = [s, b] \<and> 0 \<le> ret s \<and> ret b = 0
   | Local_tcp \<Rightarrow> \<exists>s u b l c. pre = [s, u, b, l, c] \<and> 0 \<le> ret s \<and> ret b = 0 \<and> ret l = 0 \<and> 0 \<le> ret c
   | Local_udp \<Rightarrow> \<exists>s u b. pre = [s, u, b] \<and> 0 \<le> ret s \<and> ret b = 0)"

definition client_up :: "variant \<Rightarrow> reply list \<Rightarrow> bool" where
  "client_up v pre \<longleftrightarrow> (case v of
     Inet_tcp \<Rightarrow> \<exists>s n c. pre = [s, n, c] \<and> 0 \<le> ret s \<and> ret n = 1 \<and> ret c = 0
   | Inet_udp \<Rightarrow> \<exists>s n. pre = [s, n] \<and> 0 \<le> ret s
   | Local_tcp \<Rightarrow> \<exists>s c. pre = [s, c] \<and> 0 \<le> ret s \<and> ret c = 0
   | Local_udp \<Rightarrow> \<exists>s u b. pre = [s, u, b] \<and> 0 \<le> ret s \<and> ret b = 0)"

text \<open>
  Where the server reads and answers: on the accepted connection, or on its socket to whoever the
  datagram came from. What it closes at the end. The address it has, and the one its client calls.
\<close>

fun stream :: "variant \<Rightarrow> bool" where
  "stream Inet_tcp = True" | "stream Inet_udp = False" | "stream Local_tcp = True" | "stream Local_udp = False"

definition line_of :: "variant \<Rightarrow> reply list \<Rightarrow> int" where
  "line_of v pre = (if stream v then ret (last pre) else ret (hd pre))"

definition partner :: "variant \<Rightarrow> addr \<Rightarrow> addr option" where
  "partner v a = (if stream v then None else Some a)"

definition to_close :: "variant \<Rightarrow> reply list \<Rightarrow> int list" where
  "to_close v pre = (if stream v then [ret (last pre), ret (hd pre)] else [ret (hd pre)])"

fun own_addr :: "variant \<Rightarrow> addr" where
  "own_addr Inet_tcp = Inet INADDR_ANY PORT" | "own_addr Inet_udp = Inet INADDR_ANY PORT"
| "own_addr Local_tcp = Path ''/tmp/local_socket''" | "own_addr Local_udp = Path ''/tmp/local_socket_udp_server''"

fun called_addr :: "variant \<Rightarrow> addr" where
  "called_addr Inet_tcp = Inet ''127.0.0.1'' PORT" | "called_addr Inet_udp = Inet ''127.0.0.1'' PORT"
| "called_addr Local_tcp = Path ''/tmp/local_socket''" | "called_addr Local_udp = Path ''/tmp/local_socket_udp_server''"

lemma play_or_exit [simp]:
  "play (or_exit c m k) [] = ([], Waiting)"
  "play (or_exit c m k) (r # rs) = (if ret r < 0 then ([Sys c r, Complained m], Exited 1)
     else (Sys c r # fst (play (k r) rs), snd (play (k r) rs)))"
  by (simp_all add: or_exit_def)

lemma play_with_str: "play (with_str b k) rs = (if terminated b then play (k (cstr b)) rs else ([], Crashed Read_Overflow))"
  by (simp add: with_str_def get_str_def)


lemma length_fill: "length b = n \<Longrightarrow> length (fill n b r) = n"
  by (simp add: fill_def)

lemma fill_exact: "data r = s \<Longrightarrow> 0 \<le> ret r \<Longrightarrow> length s \<le> n \<Longrightarrow> fill n b r = s @ drop (length s) b"
  by (simp add: fill_def)

lemma terminated_greeting [simp]: "terminated greeting" "cstr greeting = ''Hello from client''"
  by (simp_all add: greeting_def terminated_def cstr_def)

lemma play_edit:
  assumes "terminated b" "length b = 1024"
  shows "play (edit b k) rs = (if length (cstr b) < 1005 then play (k (cstr b @ ''. Edited by server.'' @ [NUL])) rs
    else ([], Crashed Write_Overflow))"
proof (cases "length (cstr b) < 1005")
  case True
  then obtain b' where b': "cat_str b ''. Edited by server.'' = Inr b'"
    using cat_str_total [of b "''. Edited by server.''"] assms by auto
  then have "terminated b' \<and> cstr b' = cstr b @ ''. Edited by server.''"
    using cat_str_cstr [OF b'] by simp
  then show ?thesis using True b' by (simp add: edit_def play_with_str)
next
  case False
  then have "cat_str b ''. Edited by server.'' = Inl Write_Overflow"
    using assms by (simp add: cat_str_def get_str_def put_str_def)
  then show ?thesis using False by (simp add: edit_def)
qed

text \<open>The trace and the outcome of a play, each by itself, call by call.\<close>

lemma play_parts:
  "fst (play (Halt n) rs) = []" "snd (play (Halt n) rs) = Exited n"
  "fst (play (Out s p) rs) = Printed s # fst (play p rs)" "snd (play (Out s p) rs) = snd (play p rs)"
  "fst (play (Call c k) (r # rs)) = Sys c r # fst (play (k r) rs)" "snd (play (Call c k) (r # rs)) = snd (play (k r) rs)"
  "0 \<le> ret r \<Longrightarrow> fst (play (or_exit c m k) (r # rs)) = Sys c r # fst (play (k r) rs)"
  "0 \<le> ret r \<Longrightarrow> snd (play (or_exit c m k) (r # rs)) = snd (play (k r) rs)"
  by simp_all

lemma play_str_cases:
  "terminated b \<Longrightarrow> play (with_str b k) rs = play (k (cstr b)) rs"
  "\<not> terminated b \<Longrightarrow> play (with_str b k) rs = ([], Crashed Read_Overflow)"
  by (simp_all add: play_with_str)

lemma play_edit_cases:
  "terminated b \<Longrightarrow> length b = 1024 \<Longrightarrow> length (cstr b) < 1005 \<Longrightarrow>
    play (edit b k) rs = play (k (cstr b @ ''. Edited by server.'' @ [NUL])) rs"
  "terminated b \<Longrightarrow> length b = 1024 \<Longrightarrow> \<not> length (cstr b) < 1005 \<Longrightarrow> play (edit b k) rs = ([], Crashed Write_Overflow)"
  by (simp_all add: play_edit)

lemmas hw1_defs = inet_tcp_server_def inet_udp_server_def local_tcp_server_def local_udp_server_def
  inet_tcp_client_def inet_udp_client_def local_tcp_client_def local_udp_client_def

lemmas way_defs = line_of_def partner_def to_close_def sent_to_def

lemma hw1_server_plays:
  assumes "length junk = 1024" "server_up v pre" "4 \<le> length post"
    and run: "play (hw1_server v junk) (pre @ r # post) = (t, out)" and b: "b = fill 1024 junk r"
  shows "binds t = [(ret (hd pre), own_addr v)] \<and> reads t = [line_of v pre] \<and>
    (if \<not> terminated b then out = Crashed Read_Overflow \<and> sends t = []
     else hd (printed t) = ''Received message: '' @ cstr b @ nl \<and>
      (if length (cstr b) < 1005
       then out = Exited 0 \<and> closed t = to_close v pre \<and>
         sends t = [(line_of v pre, partner v (peer r), cstr b @ ''. Edited by server.'' @ [NUL])]
       else out = Crashed Write_Overflow \<and> sends t = []))"
proof -
  have l: "length b = 1024" using assms(1) b by (simp add: length_fill)
  obtain p q x y ps where post: "post = p # q # x # y # ps"
    using assms(3) by (auto simp: Suc_le_length_iff eval_nat_numeral)
  have play: "t = fst (play (hw1_server v junk) (pre @ r # post))" "out = snd (play (hw1_server v junk) (pre @ r # post))"
    using run by simp_all
  note steps = hw1_defs way_defs Let_def play_parts play_str_cases play_edit_cases
  show ?thesis
    using l unfolding play post b
    by (insert assms(2), cases v; clarsimp simp: server_up_def;
        cases "terminated (fill 1024 junk r)"; cases "length (cstr (fill 1024 junk r)) < 1005";
        simp add: steps del: play.simps play_or_exit)
qed

text \<open>
  C28: whatever a client sends, the server, once set up, binds its address, reads once, prints what it
  has read and sends it back with its remark in a single message to where it came from: on the
  accepted connection, or from its own socket to the sender of the datagram. Then it closes what it
  has opened and ends. Nothing is sent, and it does not get to its end, when there is no NUL in its
  buffer, when it reads on behind the buffer, or the text has 1005 characters or more, when the remark
  is written behind the buffer.
\<close>

theorem hw1_server_ends:
  assumes "length junk = 1024" "server_up v pre" "4 \<le> length post"
    and run: "play (hw1_server v junk) (pre @ r # post) = (t, out)" and b: "b = fill 1024 junk r"
  shows "binds t = [(ret (hd pre), own_addr v)] \<and> reads t = [line_of v pre] \<and>
    (if \<not> terminated b then out = Crashed Read_Overflow \<and> sends t = []
     else hd (printed t) = ''Received message: '' @ cstr b @ nl \<and>
      (if length (cstr b) < 1005
       then out = Exited 0 \<and> closed t = to_close v pre \<and>
         sends t = [(line_of v pre, partner v (peer r), cstr b @ ''. Edited by server.'' @ [NUL])]
       else out = Crashed Write_Overflow \<and> sends t = []))"
  by (rule hw1_server_plays [OF assms])

text \<open>Replies to the calls of a set-up.\<close>

definition num :: "int \<Rightarrow> reply" where
  "num n = \<lparr>ret = n, data = [], peer = Path [], ready = []\<rparr>"

definition from_host :: "string \<Rightarrow> reply" where
  "from_host d = \<lparr>ret = int (length d), data = d, peer = Inet ''10.0.0.7'' 5000, ready = []\<rparr>"

lemma num_sel [simp]: "ret (num n) = n" "data (num n) = []"
  by (simp_all add: num_def)

lemma from_host_sel [simp]:
  "ret (from_host d) = int (length d)" "data (from_host d) = d" "peer (from_host d) = Inet ''10.0.0.7'' 5000"
  by (simp_all add: from_host_def)

fun ex_pre :: "variant \<Rightarrow> reply list" where
  "ex_pre Inet_tcp = [num 3, num 0, num 0, num 4]" | "ex_pre Inet_udp = [num 3, num 0]"
| "ex_pre Local_tcp = [num 3, num (-1), num 0, num 0, num 4]" | "ex_pre Local_udp = [num 3, num (-1), num 0]"

fun ex_cpre :: "variant \<Rightarrow> reply list" where
  "ex_cpre Inet_tcp = [num 5, num 1, num 0]" | "ex_cpre Inet_udp = [num 5, num 1]"
| "ex_cpre Local_tcp = [num 5, num 0]" | "ex_cpre Local_udp = [num 5, num 0, num 0]"

lemma ex_up: "server_up v (ex_pre v)" "client_up v (ex_cpre v)"
  "line_of v (ex_pre v) = (if stream v then 4 else 3)" "ret (hd (ex_cpre v)) = 5"
  by (cases v; simp add: server_up_def client_up_def line_of_def)+

definition ex_play :: "variant \<Rightarrow> string \<Rightarrow> scall action list \<times> outcome" where
  "ex_play v m = play (hw1_server v (replicate 1024 NUL)) (ex_pre v @ from_host (m @ [NUL]) # replicate 4 (num 0))"

lemma fill_from_host:
  assumes "NUL \<notin> set m" "length m < 1024"
  shows "terminated (fill 1024 b (from_host (m @ [NUL]))) \<and> cstr (fill 1024 b (from_host (m @ [NUL]))) = m"
proof -
  have "fill 1024 b (from_host (m @ [NUL])) = (m @ [NUL]) @ drop (length (m @ [NUL])) b"
    using assms(2) by (intro fill_exact) simp_all
  then show ?thesis using assms(1) by simp
qed

text \<open>All four servers; the one that gets a datagram from 10.0.0.7 answers there.\<close>

theorem hw1_server_ends_witness:
  "\<forall>v. \<exists>t. ex_play v ''Hey'' = (t, Exited 0) \<and>
     sends t = [(if stream v then 4 else 3, partner v (Inet ''10.0.0.7'' 5000), ''Hey. Edited by server.'' @ [NUL])]"
proof
  fix v
  obtain t out where p: "ex_play v ''Hey'' = (t, out)" by fastforce
  define b where "b = fill 1024 (replicate 1024 NUL) (from_host (''Hey'' @ [NUL]))"
  have b: "terminated b" "cstr b = ''Hey''" using fill_from_host [of "''Hey''"] by (simp_all add: b_def)
  show "\<exists>t. ex_play v ''Hey'' = (t, Exited 0) \<and>
     sends t = [(if stream v then 4 else 3, partner v (Inet ''10.0.0.7'' 5000), ''Hey. Edited by server.'' @ [NUL])]"
    using hw1_server_ends [OF _ ex_up(1) _ p [unfolded ex_play_def] b_def] b p ex_up(3) by simp
qed

text \<open>
  C29: the pairs understand each other. The client calls the address the server is bound to and sends
  its greeting there through its own socket. When the server receives what was sent there, and the client
  what the server has sent to where that came from, the client shows its greeting with the server's
  remark, and both end with 0.
\<close>

theorem hw1_dialogue:
  assumes "length junk = 1024" "server_up v pre" "4 \<le> length post"
    and "client_up v cpre" "2 \<le> length cpost"
    and server: "play (hw1_server v junk) (pre @ r # post) = (t, out)"
    and client: "play (hw1_client v) (cpre @ w # q # cpost) = (u, fin)"
    and up: "data r = concat (sent_to (ret (hd cpre)) (partner v (called_addr v)) u)" "0 \<le> ret r"
    and down: "data q = concat (sent_to (line_of v pre) (partner v (peer r)) t)" "0 \<le> ret q"
  shows "calls_on u = [(ret (hd cpre), called_addr v)] \<and> reads u = [ret (hd cpre)] \<and>
    out = Exited 0 \<and> fin = Exited 0 \<and> hd (printed t) = ''Received message: Hello from client'' @ nl \<and>
    hd (printed u) = ''Received from server: Hello from client. Edited by server.'' @ nl"
proof -
  obtain p1 p2 ps where cpost: "cpost = p1 # p2 # ps"
    using assms(5) by (auto simp: Suc_le_length_iff eval_nat_numeral)
  have sent: "sent_to (ret (hd cpre)) (partner v (called_addr v)) u = [''Hello from client'' @ [NUL]] \<and>
      calls_on u = [(ret (hd cpre), called_addr v)] \<and> reads u = [ret (hd cpre)]"
    using assms(4) client unfolding cpost
    by (cases v) (auto simp: client_up_def hw1_defs way_defs Let_def play_with_str split: if_splits)
  define b where "b = fill 1024 junk r"
  have "fill 1024 junk r = (''Hello from client'' @ [NUL]) @ drop (length (''Hello from client'' @ [NUL])) junk"
    using up sent by (intro fill_exact) simp_all
  then have c: "terminated b" "cstr b = ''Hello from client''" by (simp_all add: b_def terminated_def cstr_def)
  have s: "hd (printed t) = ''Received message: Hello from client'' @ nl" "out = Exited 0"
    "sends t = [(line_of v pre, partner v (peer r), ''Hello from client. Edited by server.'' @ [NUL])]"
    using hw1_server_plays [OF assms(1-3) server b_def] c by simp_all
  define a where "a = fill 1024 greeting q"
  have "a = (''Hello from client. Edited by server.'' @ [NUL]) @ drop (length (''Hello from client. Edited by server.'' @ [NUL])) greeting"
    unfolding a_def using down s(3) by (intro fill_exact) (simp_all add: sent_to_def)
  then have a: "terminated a" "cstr a = ''Hello from client. Edited by server.''" by (simp_all add: terminated_def cstr_def)
  have "fin = Exited 0 \<and> hd (printed u) = ''Received from server: Hello from client. Edited by server.'' @ nl"
    using assms(4) client a unfolding cpost a_def
    by (cases v) (auto simp: client_up_def hw1_defs Let_def play_with_str split: if_splits)
  then show ?thesis using s sent by simp
qed

text \<open>All four pairs; the buffers of the servers hold NULs at first.\<close>

definition ex_cplay :: "variant \<Rightarrow> scall action list \<times> outcome" where
  "ex_cplay v = play (hw1_client v)
     (ex_cpre v @ num 18 # from_host (''Hello from client. Edited by server.'' @ [NUL]) # [num 0, num 0])"

lemma ex_cplay_sent: "sends (fst (ex_cplay v)) = [(5, partner v (called_addr v), ''Hello from client'' @ [NUL])]"
  using fill_from_host [of "''Hello from client. Edited by server.''" greeting]
  by (cases v) (simp_all add: ex_cplay_def hw1_defs Let_def play_with_str partner_def)

theorem hw1_dialogue_witness:
  "\<forall>v. \<exists>t u. ex_play v ''Hello from client'' = (t, Exited 0) \<and> ex_cplay v = (u, Exited 0) \<and>
     hd (printed u) = ''Received from server: Hello from client. Edited by server.'' @ nl"
proof
  fix v
  obtain t out where t: "ex_play v ''Hello from client'' = (t, out)" by fastforce
  obtain u fin where u: "ex_cplay v = (u, fin)" by fastforce
  define b where "b = fill 1024 (replicate 1024 NUL) (from_host (''Hello from client'' @ [NUL]))"
  have b: "terminated b" "cstr b = ''Hello from client''"
    using fill_from_host [of "''Hello from client''"] by (simp_all add: b_def)
  have st: "sends t = [(line_of v (ex_pre v), partner v (Inet ''10.0.0.7'' 5000), ''Hello from client. Edited by server.'' @ [NUL])]"
    using hw1_server_plays [OF _ ex_up(1) _ t [unfolded ex_play_def] b_def] b by simp
  have su: "sends u = [(5, partner v (called_addr v), ''Hello from client'' @ [NUL])]"
    using ex_cplay_sent [of v] u by simp
  have "out = Exited 0 \<and> fin = Exited 0 \<and>
    hd (printed u) = ''Received from server: Hello from client. Edited by server.'' @ nl"
    using hw1_dialogue [OF _ ex_up(1) _ ex_up(2) _ t [unfolded ex_play_def] u [unfolded ex_cplay_def]] su st ex_up(4)
    by (simp add: sent_to_def)
  then show "\<exists>t u. ex_play v ''Hello from client'' = (t, Exited 0) \<and> ex_cplay v = (u, Exited 0) \<and>
     hd (printed u) = ''Received from server: Hello from client. Edited by server.'' @ nl"
    using t u by blast
qed

end
