(* ===== verification/Sockets_Servers.thy ===== *)
theory Sockets_Servers
  imports Sockets "HOL-Library.Sublist"
begin

text \<open>
  The echo servers of \<open>sockets/hw2\<close> that serve one thread per connection (\<open>pserver\<close>) or two protocols
  with \<open>select\<close> (\<open>multiproto\<close>), and the clients of all servers of \<open>hw2\<close>. The queue and the pool
  server have theories of their own. A \<open>while\<close> loop without an end is followed for any number of
  rounds.
\<close>

definition BUFFER_SIZE :: nat where "BUFFER_SIZE = 1024"

section \<open>Set-up\<close>

text \<open>\<open>socket\<close> is compared with 0; the two other calls close the socket when they fail.\<close>

definition or_close :: "scall \<Rightarrow> int \<Rightarrow> string \<Rightarrow> scall prog \<Rightarrow> scall prog" where
  "or_close c fd m p = Call c (\<lambda>r. if ret r < 0 then Err m (Call (Close fd) (\<lambda>_. Halt 1)) else p)"

definition tcp_setup :: "string \<Rightarrow> (int \<Rightarrow> scall prog) \<Rightarrow> scall prog" where
  "tcp_setup banner k = Call (Socket AF_INET STREAM) (\<lambda>s.
     if ret s = 0 then Err ''socket failed'' (Halt 1) else
     or_close (Bind (ret s) (Inet INADDR_ANY PORT)) (ret s) ''bind failed'' (
     or_close (Listen (ret s) 3) (ret s) ''listen failed'' (
     Out (banner @ dec PORT @ ''...'' @ nl) (k (ret s)))))"

text \<open>The queue and the pool server up to the loop, which has a machine of its own.\<close>

definition queue_setup :: "scall prog" where
  "queue_setup = tcp_setup ''Server listening on port '' (\<lambda>_. Running)"

definition pool_setup :: "scall prog" where
  "pool_setup = Call Pipe (\<lambda>r. if ret r = -1 then Err ''pipe failed'' (Halt 1) else
     tcp_setup ''Server listening on port '' (\<lambda>_. Running))"

section \<open>The echo loop\<close>

text \<open>
  The loop in \<open>handle_client\<close> of all three TCP servers, the same statements in each of them: \<open>read\<close>,
  \<open>printf\<close>, \<open>send\<close> while \<open>read\<close> gives more than 0, then \<open>close\<close>. They differ in what is printed before
  the message and in what follows. The buffer is filled again in every round and never cleared, and
  what \<open>send\<close> returns is not looked at.
\<close>

fun echo_loop :: "string \<Rightarrow> nat \<Rightarrow> int \<Rightarrow> char list \<Rightarrow> scall prog \<Rightarrow> scall prog" where
  "echo_loop l 0 sock b rest = Running"
| "echo_loop l (Suc n) sock b rest = Call (Read sock BUFFER_SIZE) (\<lambda>r.
     if 0 < ret r then let b' = fill BUFFER_SIZE b r in
       with_str b' (\<lambda>m. Out (l @ m @ nl) (
       Call (Send sock (take (nat (ret r)) b')) (\<lambda>_. echo_loop l n sock b' rest)))
     else Call (Close sock) (\<lambda>_. rest))"

text \<open>The thread of \<open>pserver\<close> gets a pointer to the socket and frees it first.\<close>

definition handle_client :: "nat \<Rightarrow> int \<Rightarrow> int \<Rightarrow> char list \<Rightarrow> scall prog" where
  "handle_client n client_socket sock junk =
     Call (Free client_socket) (\<lambda>_. echo_loop ''Received: '' n sock junk (Halt 0))"

text \<open>One round of a thread of the queue server, for the socket that it took from the queue.\<close>

definition queue_serve :: "nat \<Rightarrow> int \<Rightarrow> char list \<Rightarrow> scall prog" where
  "queue_serve n sock junk = Out (''Handling client'' @ nl)
     (echo_loop ''Received: '' n sock junk (Out (''Client disconnected'' @ nl) Running))"

text \<open>The thread of the pool server, up to the lock.\<close>

definition pool_serve :: "nat \<Rightarrow> nat \<Rightarrow> int \<Rightarrow> char list \<Rightarrow> scall prog" where
  "pool_serve n i sock junk = Out (''Thread '' @ dec i @ '' is handling client'' @ nl)
     (echo_loop (''Thread '' @ dec i @ '' received: '') n sock junk Running)"

section \<open>One thread per connection\<close>

text \<open>The loop of \<open>main\<close> of \<open>pserver\<close>.\<close>

fun accept_loop :: "nat \<Rightarrow> int \<Rightarrow> scall prog" where
  "accept_loop 0 fd = Running"
| "accept_loop (Suc n) fd = Call (Malloc 4) (\<lambda>p. Call (Accept fd) (\<lambda>c.
     if ret p = 0 then Undef Null_Deref
     else if ret c < 0 then Err ''accept failed'' (Call (Free (ret p)) (\<lambda>_. accept_loop n fd))
     else Out (''New connection accepted'' @ nl) (Call (Pthread_create (ret c)) (\<lambda>t.
       if ret t \<noteq> 0 then Err ''Failed to create thread'' (Call (Free (ret p)) (\<lambda>_. accept_loop n fd))
       else accept_loop n fd))))"

definition pserver_main :: "nat \<Rightarrow> scall prog" where
  "pserver_main n = tcp_setup ''Listening on port '' (accept_loop n)"

section \<open>Two protocols\<close>

text \<open>\<open>handle_tcp_client\<close> and \<open>handle_udp_client\<close>, with what is done after them; the buffer is new each time.\<close>

definition handle_tcp_client :: "int \<Rightarrow> char list \<Rightarrow> scall prog \<Rightarrow> scall prog" where
  "handle_tcp_client fd junk rest = Call (Read fd BUFFER_SIZE) (\<lambda>r.
     if 0 < ret r then let b = fill BUFFER_SIZE junk r in
       with_str b (\<lambda>m. Out (''TCP Client says: '' @ m @ nl) (
       Call (Send fd (take (nat (ret r)) b)) (\<lambda>_. rest)))
     else if ret r = 0 then Out (''TCP client disconnected.'' @ nl) (Call (Close fd) (\<lambda>_. rest))
     else Err ''TCP read error'' (Call (Close fd) (\<lambda>_. rest)))"

definition handle_udp_client :: "int \<Rightarrow> char list \<Rightarrow> scall prog \<Rightarrow> scall prog" where
  "handle_udp_client fd junk rest = Call (Recvfrom fd BUFFER_SIZE) (\<lambda>r.
     if 0 < ret r then let b = fill BUFFER_SIZE junk r in
       with_str b (\<lambda>m. Out (''UDP Client says: '' @ m @ nl) (
       Call (Sendto fd (take (nat (ret r)) b) (peer r)) (\<lambda>_. rest)))
     else Err ''UDP read error'' rest)"

text \<open>\<open>junk n k\<close> is what the buffer for protocol \<open>k\<close> holds when \<open>n\<close> rounds are left.\<close>

fun select_loop :: "nat \<Rightarrow> (nat \<Rightarrow> sort \<Rightarrow> char list) \<Rightarrow> int \<Rightarrow> int \<Rightarrow> scall prog" where
  "select_loop 0 junk tcp udp = Running"
| "select_loop (Suc n) junk tcp udp = Call (Select [tcp, udp]) (\<lambda>a.
     if ret a < 0 then Err ''select error'' (select_loop n junk tcp udp)
     else let rest = (if udp \<in> set (ready a)
         then handle_udp_client udp (junk n DGRAM) (select_loop n junk tcp udp)
         else select_loop n junk tcp udp) in
       if tcp \<in> set (ready a) then Call (Accept tcp) (\<lambda>c.
         if ret c < 0 then Err ''accept error'' (Halt 1)
         else Out (''New TCP connection'' @ nl) (handle_tcp_client (ret c) (junk n STREAM) rest))
       else rest)"

definition multiproto_main :: "nat \<Rightarrow> (nat \<Rightarrow> sort \<Rightarrow> char list) \<Rightarrow> scall prog" where
  "multiproto_main n junk = Call (Socket AF_INET STREAM) (\<lambda>s.
     if ret s = 0 then Err ''TCP socket failed'' (Halt 1) else Call (Socket AF_INET DGRAM) (\<lambda>u.
     if ret u = 0 then Err ''UDP socket failed'' (Halt 1) else
     or_close (Bind (ret s) (Inet INADDR_ANY PORT)) (ret s) ''TCP bind failed'' (
     or_close (Bind (ret u) (Inet INADDR_ANY PORT)) (ret u) ''UDP bind failed'' (
     or_close (Listen (ret s) 3) (ret s) ''TCP listen failed'' (
     Out (''Server listening on port '' @ dec PORT @ '' for both TCP and UDP...'' @ nl) (
     select_loop n junk (ret s) (ret u)))))))"

section \<open>Clients\<close>

text \<open>
  The client that the three TCP servers come with in identical copies, up to its message. Its
  buffer holds NULs at first; \<open>return -1\<close> of main makes the exit status 255.
\<close>

definition tcp_client :: "string \<Rightarrow> scall prog" where
  "tcp_client message =
     Call (Socket AF_INET STREAM) (\<lambda>s. if ret s < 0 then Out (nl @ '' Socket creation error '' @ nl) (Halt 255) else
     Call (Inet_pton ''127.0.0.1'') (\<lambda>n. if ret n \<le> 0 then Out (nl @ ''Invalid address/ Address not supported '' @ nl) (Halt 255) else
     Call (Connect (ret s) (Inet ''127.0.0.1'' PORT)) (\<lambda>c. if ret c < 0 then Out (nl @ ''Connection Failed '' @ nl) (Halt 255) else
     Call (Send (ret s) message) (\<lambda>_. Out (''Message sent: '' @ message @ nl) (
     Call (Read (ret s) BUFFER_SIZE) (\<lambda>r. if ret r < 0 then Out ''Error while reading.'' (Halt 255) else
     with_str (fill BUFFER_SIZE (replicate BUFFER_SIZE NUL) r) (\<lambda>m. Out (''Message received: '' @ m @ nl) (
     Call (Close (ret s)) (\<lambda>_. Halt 0)))))))))"

definition pserver_client :: "scall prog" where
  "pserver_client = tcp_client ''Hello, Server!''"

definition pool_client :: "scall prog" where
  "pool_client = tcp_client ''Hello, Server!''"

definition queue_client :: "scall prog" where
  "queue_client = tcp_client ''Hello, Server!''"

definition multiproto_tcp_client :: "scall prog" where
  "multiproto_tcp_client = tcp_client ''Hello from TCP client''"

definition multiproto_udp_client :: "scall prog" where
  "multiproto_udp_client =
     Call (Socket AF_INET DGRAM) (\<lambda>s. if ret s < 0 then Out (''Socket creation error'' @ nl) (Halt 255) else
     Call (Sendto (ret s) ''Hello from UDP client'' (Inet INADDR_ANY PORT)) (\<lambda>_. Out (''Message sent'' @ nl) (
     Call (Recvfrom (ret s) BUFFER_SIZE) (\<lambda>r. with_str (fill BUFFER_SIZE (replicate BUFFER_SIZE NUL) r) (\<lambda>m.
     Out (''Message received: '' @ m @ nl) (Call (Close (ret s)) (\<lambda>_. Halt 0)))))))"

section \<open>Traces\<close>

text \<open>The characters each successful read on a stream gave, in order.\<close>

fun received :: "scall action list \<Rightarrow> string list" where
  "received (Sys (Read fd n) r # t) = (if 0 < ret r then take n (data r) # received t else received t)"
| "received (_ # t) = received t"
| "received [] = []"

text \<open>The replies a program has got so far; when these are all, it waits for one more or has ended.\<close>

fun replies_of :: "'c action list \<Rightarrow> reply list" where
  "replies_of (Sys c r # t) = r # replies_of t"
| "replies_of (_ # t) = replies_of t"
| "replies_of [] = []"

text \<open>Accepted connections, those that were read from, and those of which the read gave nothing.\<close>

fun accepted :: "scall action list \<Rightarrow> int list" where
  "accepted (Sys (Accept fd) r # t) = (if 0 \<le> ret r then ret r # accepted t else accepted t)"
| "accepted (_ # t) = accepted t"
| "accepted [] = []"

fun read_from :: "scall action list \<Rightarrow> int list" where
  "read_from (Sys (Read fd n) r # t) = fd # read_from t"
| "read_from (_ # t) = read_from t"
| "read_from [] = []"

fun empty_reads :: "scall action list \<Rightarrow> int list" where
  "empty_reads (Sys (Read fd n) r # t) = (if ret r \<le> 0 then fd # empty_reads t else empty_reads t)"
| "empty_reads (_ # t) = empty_reads t"
| "empty_reads [] = []"

fun threads_for :: "scall action list \<Rightarrow> int list" where
  "threads_for (Sys (Pthread_create fd) r # t) = (if ret r = 0 then fd # threads_for t else threads_for t)"
| "threads_for (_ # t) = threads_for t"
| "threads_for [] = []"

section \<open>What is sent back\<close>

text \<open>Something holds of all replies to reads.\<close>

definition reads_all :: "(nat \<Rightarrow> reply \<Rightarrow> bool) \<Rightarrow> scall action list \<Rightarrow> bool" where
  "reads_all P t \<longleftrightarrow> (\<forall>fd m r. Sys (Read fd m) r \<in> set t \<longrightarrow> P m r)"

lemma reads_all_Nil [simp]: "reads_all P []"
  and reads_all_append [simp]: "reads_all P (t @ u) \<longleftrightarrow> reads_all P t \<and> reads_all P u"
  and reads_all_Read [simp]: "reads_all P (Sys (Read fd m) r # t) \<longleftrightarrow> P m r \<and> reads_all P t"
  and reads_all_Send [simp]: "reads_all P (Sys (Send fd d) r # t) = reads_all P t"
  and reads_all_Close [simp]: "reads_all P (Sys (Close fd) r # t) = reads_all P t"
  and reads_all_Printed [simp]: "reads_all P (Printed g # t) = reads_all P t"
  by (auto simp: reads_all_def)

lemma read_back:
  assumes "read_ok n r" "0 < ret r"
  shows "take (nat (ret r)) (fill n b r) = take n (data r)"
  using assms by (auto simp: read_ok_def fill_def)

lemma trace_append:
  "sent_by (t @ u) = sent_by t @ sent_by u" "received (t @ u) = received t @ received u"
  "closed (t @ u) = closed t @ closed u" "empty_reads (t @ u) = empty_reads t @ empty_reads u"
proof -
  show "empty_reads (t @ u) = empty_reads t @ empty_reads u" by (induction t rule: empty_reads.induct) simp_all
  show "sent_by (t @ u) = sent_by t @ sent_by u" by (induction t rule: sent_by.induct) simp_all
  show "received (t @ u) = received t @ received u" by (induction t rule: received.induct) simp_all
  show "closed (t @ u) = closed t @ closed u" by (induction t rule: closed.induct) simp_all
qed

text \<open>
  A play of the loop either stops inside it, after as many answers as messages or one message
  ahead, or closes the socket, all answered, and goes on with what follows.
\<close>

definition echo_shape :: "int \<Rightarrow> scall prog \<Rightarrow> scall action list \<Rightarrow> outcome \<Rightarrow> bool" where
  "echo_shape sock rest t out \<longleftrightarrow>
     closed t = [] \<and> out \<in> {Waiting, Crashed Read_Overflow} \<and>
       (empty_reads t = [] \<and> (received t = sent_by t \<or> (\<exists>x. received t = sent_by t @ [x])) \<or>
        empty_reads t = [sock] \<and> received t = sent_by t \<and> out = Waiting) \<or>
     (\<exists>u v rs'. t = u @ v \<and> closed u = [sock] \<and> empty_reads u = [sock] \<and> received u = sent_by u \<and>
       play rest rs' = (v, out))"

lemma echo_shape_more:
  assumes "echo_shape sock rest t out" and w: "closed w = []" "received w = sent_by w" "empty_reads w = []"
  shows "echo_shape sock rest (w @ t) out"
  using assms(1) unfolding echo_shape_def
proof (elim disjE exE conjE)
  fix u v rs'
  assume "t = u @ v" "closed u = [sock]" "empty_reads u = [sock]" "received u = sent_by u" "play rest rs' = (v, out)"
  then show "closed (w @ t) = [] \<and> out \<in> {Waiting, Crashed Read_Overflow} \<and>
      (empty_reads (w @ t) = [] \<and> (received (w @ t) = sent_by (w @ t) \<or> (\<exists>x. received (w @ t) = sent_by (w @ t) @ [x])) \<or>
       empty_reads (w @ t) = [sock] \<and> received (w @ t) = sent_by (w @ t) \<and> out = Waiting) \<or>
    (\<exists>u v rs'. w @ t = u @ v \<and> closed u = [sock] \<and> empty_reads u = [sock] \<and> received u = sent_by u \<and>
       play rest rs' = (v, out))"
    using w by (intro disjI2 exI [of _ "w @ u"] exI [of _ v] exI [of _ rs']) (simp add: trace_append)
qed (use w in \<open>simp_all add: trace_append\<close>)

lemma echo_loop_play:
  assumes "reads_all read_ok t" and "play (echo_loop l n sock b rest) rs = (t, out)"
  shows "echo_shape sock rest t out"
  using assms
proof (induction n arbitrary: b rs t)
  case 0
  then show ?case by (auto simp: echo_shape_def)
next
  case (Suc n)
  consider (none) "rs = []" | (last) r where "rs = [r]" | (two) r q rs2 where "rs = r # q # rs2"
    by (cases rs rule: remdups_adj.cases) auto
  then show ?case
  proof cases
    case none
    then show ?thesis using Suc.prems by (auto simp: echo_shape_def)
  next
    case (last r)
    then show ?thesis using Suc.prems by (auto simp: echo_shape_def Let_def play_with_str split: if_splits)
  next
    case (two r q rs2)
    let ?b = "fill BUFFER_SIZE b r"
    show ?thesis
    proof (cases "0 < ret r \<and> terminated ?b")
      case True
      obtain t' where t': "play (echo_loop l n sock ?b rest) rs2 = (t', out)"
        "t = [Sys (Read sock BUFFER_SIZE) r, Printed (l @ cstr ?b @ nl), Sys (Send sock (take (nat (ret r)) ?b)) q] @ t'"
        using Suc.prems(2) True unfolding two
        by (cases "play (echo_loop l n sock ?b rest) rs2") (auto simp: Let_def play_with_str)
      have "echo_shape sock rest t' out" using Suc.IH [OF _ t'(1)] Suc.prems(1) t'(2) by simp
      then show ?thesis
        unfolding t'(2) using True Suc.prems(1) t'(2) by (intro echo_shape_more) (simp_all add: read_back)
    next
      case False
      show ?thesis
      proof (cases "0 < ret r")
        case True
        then show ?thesis using False Suc.prems(2) unfolding two
          by (auto simp: echo_shape_def Let_def play_with_str)
      next
        case False
        then have empty: "\<not> 0 < ret r" by simp
        let ?u = "[Sys (Read sock BUFFER_SIZE) r, Sys (Close sock) q]"
        have "play (echo_loop l (Suc n) sock b rest) rs = (?u @ fst (play rest rs2), snd (play rest rs2))"
          using empty by (simp add: two)
        then have "t = ?u @ fst (play rest rs2)" "out = snd (play rest rs2)"
          unfolding Suc.prems(2) by simp_all
        then have v: "play rest rs2 = (fst (play rest rs2), out)" "t = ?u @ fst (play rest rs2)" by simp_all
        show ?thesis
          unfolding echo_shape_def using v empty
          by (intro disjI2 exI [of _ ?u] exI [of _ "fst (play rest rs2)"] exI [of _ rs2]) simp
      qed
    qed
  qed
qed

text \<open>The loop never reads behind a buffer that ends in a NUL, unless a message fills it.\<close>

lemma echo_loop_safe:
  assumes "reads_all (\<lambda>m r. length (data r) < m) (fst (play (echo_loop l n sock b rest) rs))"
    and "length b = BUFFER_SIZE" "last b = NUL"
    and "snd (play (echo_loop l n sock b rest) rs) = Crashed e"
  shows "\<exists>rs'. snd (play rest rs') = Crashed e"
  using assms
proof (induction n arbitrary: b rs)
  case 0
  then show ?case by simp
next
  case (Suc n)
  have fin: "length (fill BUFFER_SIZE b r) = BUFFER_SIZE \<and> last (fill BUFFER_SIZE b r) = NUL \<and> terminated (fill BUFFER_SIZE b r)"
    if "length (data r) < BUFFER_SIZE" for r
  proof -
    have "length (fill BUFFER_SIZE b r) = BUFFER_SIZE" "last (fill BUFFER_SIZE b r) = NUL"
      using Suc.prems(2,3) that by (auto simp: fill_def last_drop)
    then show ?thesis by (metis BUFFER_SIZE_def last_in_set list.size(3) terminated_def zero_neq_numeral)
  qed
  show ?case
  proof (cases rs rule: remdups_adj.cases)
    case (3 r q rs2)
    show ?thesis
    proof (cases "0 < ret r")
      case True
      then have f: "length (data r) < BUFFER_SIZE" using Suc.prems(1) 3 by simp
      note ok = fin [OF f]
      show ?thesis
        by (rule Suc.IH [of "fill BUFFER_SIZE b r" rs2]) (use Suc.prems(1,4) True ok 3 in \<open>auto simp: Let_def play_with_str\<close>)
    next
      case False
      then show ?thesis using Suc.prems(4) 3 by auto
    qed
  next
    case (2 r)
    then show ?thesis using Suc.prems(1,4) fin [of r] by (auto simp: Let_def play_with_str split: if_splits)
  qed (use Suc.prems in auto)
qed

section \<open>The three servers\<close>

text \<open>What each of them does for a client: something before the loop, the loop, and something after it.\<close>

definition after_echo :: "scall prog set" where
  "after_echo = {Halt 0, Out (''Client disconnected'' @ nl) Running, Running}"

lemma after_echo_quiet:
  "rest \<in> after_echo \<Longrightarrow> play rest rs = (v, out) \<Longrightarrow>
    received v = [] \<and> sent_by v = [] \<and> closed v = [] \<and> empty_reads v = [] \<and> (\<forall>e. out \<noteq> Crashed e)"
  by (auto simp: after_echo_def)

lemma serve_play:
  assumes p: "p \<in> {handle_client n c sock junk, queue_serve n sock junk, pool_serve n i sock junk}"
    and run: "play p rs = (t, out)"
  obtains (start) "t = []" "out = Waiting"
  | (loop) l rest rs' w t' where "rest \<in> after_echo" "play (echo_loop l n sock junk rest) rs' = (t', out)" "t = w @ t'"
      "received w = []" "sent_by w = []" "closed w = []" "empty_reads w = []"
proof (cases "p = handle_client n c sock junk")
  case True
  show ?thesis
  proof (cases rs)
    case Nil
    then show ?thesis using that(1) run True by (simp add: handle_client_def)
  next
    case (Cons r rs')
    show ?thesis
      by (rule that(2) [of "Halt 0" "''Received: ''" rs' "tl t" "[Sys (Free c) r]"])
        (use run True Cons in \<open>auto simp: handle_client_def after_echo_def\<close>)
  qed
next
  case False
  then obtain l g rest where "p = Out g (echo_loop l n sock junk rest)" "rest \<in> after_echo"
    using p by (auto simp: queue_serve_def pool_serve_def after_echo_def)
  then show ?thesis
    using run by (intro that(2) [of rest l rs "tl t" "[Printed g]"]) auto
qed

lemma echo_shape_answers:
  assumes "echo_shape sock rest t out" "rest \<in> after_echo"
  shows "(received t = sent_by t \<or> (\<exists>x. received t = sent_by t @ [x]) \<and> empty_reads t = []) \<and>
    empty_reads t \<in> {[], [sock]} \<and> (closed t = empty_reads t \<or> closed t = [] \<and> empty_reads t = [sock] \<and> out = Waiting) \<and>
    (out = Exited 0 \<longrightarrow> closed t = [sock]) \<and> (\<forall>e. out = Crashed e \<longrightarrow> e = Read_Overflow)"
  using assms(1) unfolding echo_shape_def
proof (elim disjE exE conjE)
  fix u v rs assume "t = u @ v" "closed u = [sock]" "empty_reads u = [sock]" "received u = sent_by u" "play rest rs = (v, out)"
  then show ?thesis using after_echo_quiet [OF assms(2)] by (simp add: trace_append)
qed auto

lemma echo_loop_no_crash:
  assumes "play (echo_loop l n sock junk rest) rs = (t, out)" "rest \<in> after_echo"
    and "length junk = BUFFER_SIZE" "last junk = NUL" "reads_all (\<lambda>m r. length (data r) < m) t"
  shows "out \<noteq> Crashed e"
proof
  assume "out = Crashed e"
  then obtain rs2 where "snd (play rest rs2) = Crashed e"
    using echo_loop_safe [of l n sock junk rest rs e] assms by auto
  then show False using after_echo_quiet [OF assms(2), of rs2] by (metis prod.collapse)
qed

text \<open>After a read that gave nothing the socket is open only until \<open>close\<close> gets its reply.\<close>

lemma echo_loop_open:
  assumes "closed (fst (play (echo_loop l n sock b rest) rs)) = []"
    and "empty_reads (fst (play (echo_loop l n sock b rest) rs)) \<noteq> []"
  shows "replies_of (fst (play (echo_loop l n sock b rest) rs)) = rs"
  using assms
proof (induction n arbitrary: b rs)
  case (Suc n)
  show ?case
  proof (cases rs rule: remdups_adj.cases)
    case (3 r q rs2)
    then show ?thesis using Suc by (auto simp: Let_def play_with_str split: if_splits)
  qed (use Suc.prems in \<open>auto simp: Let_def play_with_str split: if_splits\<close>)
qed simp

lemma serve_open:
  assumes "p \<in> {handle_client n c sock junk, queue_serve n sock junk, pool_serve n i sock junk}"
    and "play p rs = (t, out)" "closed t = []" "empty_reads t \<noteq> []"
  shows "replies_of t = rs"
proof -
  have t: "t = fst (play p rs)" using assms(2) by simp
  show ?thesis
    using assms(1,3,4) unfolding t
    by (auto simp: handle_client_def queue_serve_def pool_serve_def echo_loop_open split: list.splits)
qed

text \<open>Whatever is read, sent or closed on the way is the one socket.\<close>

fun on_line :: "int \<Rightarrow> scall \<Rightarrow> bool" where
  "on_line sock (Read fd n) = (fd = sock)" | "on_line sock (Recvfrom fd n) = False"
| "on_line sock (Write fd s) = False" | "on_line sock (Send fd s) = (fd = sock)"
| "on_line sock (Sendto fd s a) = False" | "on_line sock (Close fd) = (fd = sock)" | "on_line sock _ = True"

definition all_on_line :: "int \<Rightarrow> scall action list \<Rightarrow> bool" where
  "all_on_line sock t \<longleftrightarrow> (\<forall>c r. Sys c r \<in> set t \<longrightarrow> on_line sock c)"

lemma all_on_line_simps [simp]:
  "all_on_line sock []" "all_on_line sock (Printed g # t) = all_on_line sock t"
  "all_on_line sock (Complained g # t) = all_on_line sock t"
  "all_on_line sock (Sys c r # t) \<longleftrightarrow> on_line sock c \<and> all_on_line sock t"
  "all_on_line sock (t @ u) \<longleftrightarrow> all_on_line sock t \<and> all_on_line sock u"
  by (auto simp: all_on_line_def)

lemma all_on_line_trace:
  "all_on_line sock t \<Longrightarrow> sends t = map (\<lambda>m. (sock, None, m)) (sent_by t) \<and> set (reads t) \<subseteq> {sock}"
proof (induction t)
  case (Cons x t)
  then show ?case
  proof (cases x)
    case (Sys c r)
    then show ?thesis using Cons by (cases c) auto
  qed auto
qed simp

lemma rest_on_line: "rest \<in> after_echo \<Longrightarrow> all_on_line sock (fst (play rest rs))"
  by (auto simp: after_echo_def)

lemma echo_loop_on_line:
  "rest \<in> after_echo \<Longrightarrow> all_on_line sock (fst (play (echo_loop l n sock b rest) rs))"
proof (induction n arbitrary: b rs)
  case (Suc n)
  then show ?case
    using rest_on_line [OF Suc.prems] by (auto simp: Let_def play_with_str split: list.split)
qed simp

lemma serve_on_line:
  assumes "p \<in> {handle_client n c sock junk, queue_serve n sock junk, pool_serve n i sock junk}"
  shows "all_on_line sock (fst (play p rs))"
  using assms echo_loop_on_line [of _ sock]
  by (auto simp: handle_client_def queue_serve_def pool_serve_def after_echo_def split: list.split)

section \<open>Who is read and who is closed\<close>

text \<open>
  Every accepted connection has been read from, in order, and those whose read gave nothing have
  been closed, up to the one that is being served.
\<close>

definition one_read :: "scall action list \<Rightarrow> outcome \<Rightarrow> bool" where
  "one_read t out \<longleftrightarrow>
     (accepted t = read_from t \<or> (\<exists>fd. accepted t = read_from t @ [fd]) \<and> out = Waiting) \<and>
     (closed t = empty_reads t \<or> (\<exists>fd. empty_reads t = closed t @ [fd]) \<and> out = Waiting)"

definition plays_one_read :: "scall prog \<Rightarrow> bool" where
  "plays_one_read p \<longleftrightarrow> (\<forall>rs. one_read (fst (play p rs)) (snd (play p rs)))"

lemma plays_one_read_end [simp]:
  "plays_one_read (Halt n)" "plays_one_read (Undef e)" "plays_one_read Running"
  by (simp_all add: plays_one_read_def one_read_def)

lemma plays_one_read_print [simp]:
  "plays_one_read (Out s p) = plays_one_read p" "plays_one_read (Err s p) = plays_one_read p"
  by (simp_all add: plays_one_read_def one_read_def)

lemma plays_one_read_str: "(\<And>s. plays_one_read (k s)) \<Longrightarrow> plays_one_read (with_str b k)"
  by (simp add: with_str_def split: sum.split)

text \<open>A call that is neither \<open>accept\<close> nor \<open>read\<close> nor \<open>close\<close>.\<close>

fun other_call :: "scall \<Rightarrow> bool" where
  "other_call (Accept fd) = False" | "other_call (Read fd n) = False" | "other_call (Close fd) = False"
| "other_call _ = True"

lemma plays_one_read_call: "other_call c \<Longrightarrow> (\<And>r. plays_one_read (k r)) \<Longrightarrow> plays_one_read (Call c k)"
  by (cases c) (auto simp: plays_one_read_def one_read_def split: list.split)

lemma plays_one_read_udp: "plays_one_read rest \<Longrightarrow> plays_one_read (handle_udp_client fd junk rest)"
  by (auto simp: handle_udp_client_def Let_def intro!: plays_one_read_call plays_one_read_str)

text \<open>The part of \<open>handle_tcp_client\<close> after its \<open>read\<close>.\<close>

lemma one_read_client:
  assumes k: "\<And>c r. plays_one_read (k c r)" and rest: "plays_one_read rest"
  shows "plays_one_read (Call (Accept tcp) (\<lambda>c. if ret c < 0 then Err m (Halt 1) else Out g (Call (Read (ret c) n) (\<lambda>r.
      if 0 < ret r then k c r else if ret r = 0 then Out g' (Call (Close (ret c)) (\<lambda>_. rest))
      else Err m' (Call (Close (ret c)) (\<lambda>_. rest))))))"
proof -
  have k': "one_read (fst (play (k c r) rs)) (snd (play (k c r) rs))" for c r rs
    using k by (simp add: plays_one_read_def)
  have r': "one_read (fst (play rest rs)) (snd (play rest rs))" for rs
    using rest by (simp add: plays_one_read_def)
  show ?thesis
    using k' r' unfolding plays_one_read_def
    by (auto simp: one_read_def split: list.split)
qed

lemma one_read_accept:
  assumes "plays_one_read rest"
  shows "plays_one_read (Call (Accept tcp) (\<lambda>c. if ret c < 0 then Err m (Halt 1)
    else Out g (handle_tcp_client (ret c) junk rest)))"
  unfolding handle_tcp_client_def
  by (rule one_read_client) (use assms in \<open>auto simp: Let_def intro!: plays_one_read_str plays_one_read_call\<close>)

lemma select_loop_one_read: "plays_one_read (select_loop n junk tcp udp)"
proof (induction n)
  case 0
  then show ?case by simp
next
  case (Suc n)
  have udp: "plays_one_read (if udp \<in> set (ready a) then handle_udp_client udp (junk n DGRAM) (select_loop n junk tcp udp)
      else select_loop n junk tcp udp)" for a
    using Suc by (simp add: plays_one_read_udp)
  show ?case
    unfolding select_loop.simps Let_def
    by (intro plays_one_read_call) (simp_all only: other_call.simps Suc udp one_read_accept plays_one_read_print split: if_split, simp_all)
qed

section \<open>Every connection gets its thread\<close>

text \<open>
  The loop of \<open>pserver\<close> closes nothing itself; who was accepted has a thread, in order, but for those whose
  \<open>pthread_create\<close> failed, and these are neither served nor closed.
\<close>

definition threads_made :: "scall action list \<Rightarrow> bool" where
  "threads_made t \<longleftrightarrow> (\<forall>fd r. Sys (Pthread_create fd) r \<in> set t \<longrightarrow> ret r = 0)"

definition threads_ok :: "scall action list \<Rightarrow> outcome \<Rightarrow> bool" where
  "threads_ok t out \<longleftrightarrow> closed t = [] \<and> subseq (threads_for t) (accepted t) \<and>
    (threads_made t \<and> out \<noteq> Crashed Null_Deref \<longrightarrow> accepted t = threads_for t \<or> (\<exists>c. accepted t = threads_for t @ [c]) \<and> out = Waiting)"

lemma threads_made_simps [simp]:
  "threads_made []" "threads_made (Printed g # t) = threads_made t" "threads_made (Complained g # t) = threads_made t"
  "threads_made (Sys c r # t) \<longleftrightarrow> (case c of Pthread_create fd \<Rightarrow> ret r = 0 | _ \<Rightarrow> True) \<and> threads_made t"
  by (auto simp: threads_made_def split: scall.splits)

lemma accept_loop_threads: "threads_ok (fst (play (accept_loop n fd) rs)) (snd (play (accept_loop n fd) rs))"
proof (induction n arbitrary: rs)
  case 0
  then show ?case by (simp add: threads_ok_def)
next
  case (Suc n)
  have IH: "closed (fst (play (accept_loop n fd) rs)) = []"
    "subseq (threads_for (fst (play (accept_loop n fd) rs))) (accepted (fst (play (accept_loop n fd) rs)))"
    "threads_made (fst (play (accept_loop n fd) rs)) \<Longrightarrow> snd (play (accept_loop n fd) rs) \<noteq> Crashed Null_Deref \<Longrightarrow>
      accepted (fst (play (accept_loop n fd) rs)) = threads_for (fst (play (accept_loop n fd) rs)) \<or>
      (\<exists>c. accepted (fst (play (accept_loop n fd) rs)) = threads_for (fst (play (accept_loop n fd) rs)) @ [c]) \<and>
        snd (play (accept_loop n fd) rs) = Waiting" for rs
    using Suc [of rs] by (simp_all add: threads_ok_def)
  show ?case
    using IH by (auto simp: threads_ok_def split: list.split)
qed

section \<open>Properties\<close>


text \<open>A queue server's thread that reads two messages and the end of the stream.\<close>

definition ex_echo :: "reply list" where
  "ex_echo = [from_host (''Hello'' @ [NUL]), num 6, from_host (''Hi'' @ [NUL]), num 3, num 0, num 0]"

lemma last_replicate_NUL: "last (replicate BUFFER_SIZE NUL) = NUL"
  by (simp add: BUFFER_SIZE_def)


text \<open>
  What a thread prints is not what it received when a message comes without its NUL: after "Hello"
  the message "Hi" is shown as "Hillo".
\<close>

lemma echo_leftover:
  "length b = BUFFER_SIZE \<Longrightarrow> last b = NUL \<Longrightarrow>
   printed (fst (play (echo_loop l (Suc n) sock (fill BUFFER_SIZE b (from_host (''Hello'' @ [NUL]))) rest) [from_host ''Hi''])) =
     [l @ ''Hillo'' @ nl]"
proof -
  assume "length b = BUFFER_SIZE" "last b = NUL"
  have "fill BUFFER_SIZE (fill BUFFER_SIZE b (from_host (''Hello'' @ [NUL]))) (from_host ''Hi'') =
      (''Hillo'' @ [NUL]) @ drop (length (''Hello'' @ [NUL])) b"
    by (simp add: fill_def BUFFER_SIZE_def)
  then have "terminated (fill BUFFER_SIZE (fill BUFFER_SIZE b (from_host (''Hello'' @ [NUL]))) (from_host ''Hi''))"
    "cstr (fill BUFFER_SIZE (fill BUFFER_SIZE b (from_host (''Hello'' @ [NUL]))) (from_host ''Hi'')) = ''Hillo''"
    by (simp_all add: terminated_def cstr_def)
  then show ?thesis by (simp add: Let_def play_with_str)
qed

text \<open>
  C32: the server for two protocols reads from every accepted connection exactly once, in the order
  of acceptance, and closes exactly those whose read gave nothing: a connection that has sent
  something is neither read again nor ever closed.
\<close>

theorem multiproto_leaks:
  assumes "play (select_loop n junk tcp udp) rs = (t, out)"
  shows "(accepted t = read_from t \<or> (\<exists>fd. accepted t = read_from t @ [fd]) \<and> out = Waiting) \<and>
    (closed t = empty_reads t \<or> (\<exists>fd. empty_reads t = closed t @ [fd]) \<and> out = Waiting)"
  using select_loop_one_read [of n junk tcp udp] assms
  by (metis fst_conv one_read_def plays_one_read_def snd_conv)

text \<open>One connection that says something and one that hangs up at once.\<close>

definition ex_select :: "reply list" where
  "ex_select = [num 1\<lparr>ready := [3]\<rparr>, num 7, from_host (''Hi'' @ [NUL]), num 3, num 1\<lparr>ready := [3]\<rparr>, num 8, num 0, num 0]"

theorem multiproto_leaks_witness:
  "\<exists>t. play (select_loop 2 (\<lambda>_ _. replicate BUFFER_SIZE NUL) 3 4) ex_select = (t, Waiting) \<and>
     accepted t = [7, 8] \<and> closed t = [8] \<and>
     (accepted t = read_from t \<or> (\<exists>fd. accepted t = read_from t @ [fd]))"
proof -
  obtain t where t: "play (select_loop 2 (\<lambda>_ _. replicate BUFFER_SIZE NUL) 3 4) ex_select = (t, Waiting)"
    "accepted t = [7, 8]" "closed t = [8]"
    by (simp add: ex_select_def eval_nat_numeral handle_tcp_client_def Let_def play_with_str fill_def terminated_def BUFFER_SIZE_def)
  then show ?thesis using multiproto_leaks [OF t(1)] by blast
qed

end
