(* ===== verification/Echo_Dialogue.thy ===== *)
theory Echo_Dialogue
  imports Sockets_Servers
begin

text \<open>
  Client and server of \<open>sockets/hw2\<close> together: a TCP connection brings to each side, in pieces of any
  size, a beginning of what the other has sent, and that is all that is assumed of it.
\<close>

section \<open>The server\<close>

text \<open>Everything that a server has sent back it had received before.\<close>

lemma echo_prefix:
  assumes "p \<in> {handle_client n c sock junk, queue_serve n sock junk, pool_serve n i sock junk}"
    and "play p rs = (t, out)" "reads_all read_ok t"
  shows "prefix (concat (sent_by t)) (concat (received t))"
  using assms(1,2)
proof (cases rule: serve_play)
  case (loop l rest rs' w t')
  have "echo_shape sock rest t' out" using echo_loop_play [OF _ loop(2)] assms(3) loop(3) by simp
  then show ?thesis
    using echo_shape_answers [OF _ loop(1)] loop(3-5) by (fastforce simp: trace_append)
qed simp

lemma tcp_handler_prefix:
  assumes "play (handle_tcp_client fd junk Running) rs = (t, out)" "reads_all read_ok t"
  shows "prefix (concat (sent_by t)) (concat (received t))"
  using assms by (auto simp: handle_tcp_client_def Let_def play_with_str read_back split: list.splits if_splits)

section \<open>The client\<close>

lemma reads_all_Sys: "reads_all P (Sys c r # v) \<longleftrightarrow> (case c of Read fd n \<Rightarrow> P n r | _ \<Rightarrow> True) \<and> reads_all P v"
  by (auto simp: reads_all_def split: scall.splits)

lemma fill_zeros:
  assumes "read_ok n r" "0 \<le> ret r" "NUL \<notin> set (data r)" "length (data r) < n"
  shows "terminated (fill n (replicate n NUL) r)" "cstr (fill n (replicate n NUL) r) = data r"
proof -
  have "fill n (replicate n NUL) r = data r @ NUL # replicate (n - length (data r) - 1) NUL"
    using assms(1,2,4) by (auto simp: fill_def read_ok_def simp flip: replicate_Suc)
  then show "terminated (fill n (replicate n NUL) r)" "cstr (fill n (replicate n NUL) r) = data r"
    using assms(3) by (simp_all add: terminated_def cstr_def takeWhile_append)
qed

lemma tcp_client_sends: "play (tcp_client m) rs = (u, oc) \<Longrightarrow> concat (sent_by u) \<in> {[], m}"
  unfolding tcp_client_def by (auto simp: play_with_str split: list.splits if_splits)

lemma tcp_client_play:
  assumes "play (tcp_client m) rs = (u, oc)" "reads_all read_ok u"
    and few: "prefix (concat (received u)) m" and m: "NUL \<notin> set m" "length m < BUFFER_SIZE"
  shows "oc \<in> {Waiting, Exited 0, Exited 255} \<and>
    (oc = Exited 0 \<longrightarrow> printed u = [''Message sent: '' @ m @ nl, ''Message received: '' @ concat (received u) @ nl])"
proof -
  have shown: "terminated (fill BUFFER_SIZE (replicate BUFFER_SIZE NUL) r) \<and> cstr (fill BUFFER_SIZE (replicate BUFFER_SIZE NUL) r) = take BUFFER_SIZE (data r)"
    if "read_ok BUFFER_SIZE r" "0 \<le> ret r" "prefix (take BUFFER_SIZE (data r)) m" for r
  proof -
    have "take BUFFER_SIZE (data r) = data r" using that(1,2) by (auto simp: read_ok_def)
    moreover from this have "NUL \<notin> set (data r)" "length (data r) < BUFFER_SIZE"
      using that(3) m prefix_length_le [of "data r" m] by (auto dest: set_mono_prefix)
    ultimately show ?thesis using fill_zeros that(1,2) by simp
  qed
  have empty: "take BUFFER_SIZE (data r) = []" if "read_ok BUFFER_SIZE r" "ret r = 0" for r
    using that by (simp add: read_ok_def)
  show ?thesis
    using assms(1-3) unfolding tcp_client_def
    by (auto simp: play_with_str reads_all_Sys shown empty split: list.splits if_splits)
qed

section \<open>Both\<close>

text \<open>The pairs of \<open>hw2\<close> that talk over TCP, with the message.\<close>

definition tcp_pairs :: "(scall prog \<times> scall prog \<times> string) set" where
  "tcp_pairs = {(handle_client n c sock junk, pserver_client, ''Hello, Server!'') | n c sock junk. True} \<union>
     {(queue_serve n sock junk, queue_client, ''Hello, Server!'') | n sock junk. True} \<union>
     {(pool_serve n i sock junk, pool_client, ''Hello, Server!'') | n i sock junk. True} \<union>
     {(handle_tcp_client sock junk Running, multiproto_tcp_client, ''Hello from TCP client'') | sock junk. True}"

lemma tcp_pairs_client: "(p, q, m) \<in> tcp_pairs \<Longrightarrow> q = tcp_client m \<and> NUL \<notin> set m \<and> length m < BUFFER_SIZE"
  by (auto simp: tcp_pairs_def pserver_client_def queue_client_def pool_client_def multiproto_tcp_client_def BUFFER_SIZE_def)

lemma tcp_pairs_server:
  "(p, q, m) \<in> tcp_pairs \<Longrightarrow> play p rs = (t, out) \<Longrightarrow> reads_all read_ok t \<Longrightarrow> prefix (concat (sent_by t)) (concat (received t))"
  unfolding tcp_pairs_def by (elim UnE CollectE exE conjE Pair_inject) (use echo_prefix tcp_handler_prefix in blast)+

text \<open>
  C31: a client of \<open>hw2\<close> understands its server, whichever way the connection cuts the stream of characters
  into pieces, as long as each side receives a beginning of what the other has sent: when the client
  ends with 0 it has shown its message and then a beginning of that same message, nothing else, and all
  of it if all of it came back in one piece. It never fails in another way than by reporting an error
  with the exit status 255.
\<close>

theorem hw2_dialogue:
  assumes pair: "(p, q, m) \<in> tcp_pairs"
    and server: "play p rs = (t, out)" "reads_all read_ok t"
    and client: "play q cs = (u, oc)" "reads_all read_ok u"
    and stream: "prefix (concat (received t)) (concat (sent_by u))" "prefix (concat (received u)) (concat (sent_by t))"
  shows "oc \<in> {Waiting, Exited 0, Exited 255} \<and> (oc = Exited 0 \<longrightarrow>
    (\<exists>shown. printed u = [''Message sent: '' @ m @ nl, ''Message received: '' @ shown @ nl] \<and> prefix shown m \<and>
       (received u = [m] \<longrightarrow> shown = m)))"
proof -
  have q: "q = tcp_client m" "NUL \<notin> set m" "length m < BUFFER_SIZE" using tcp_pairs_client [OF pair] by simp_all
  have "prefix (concat (received u)) (concat (sent_by u))"
    using stream tcp_pairs_server [OF pair server] prefix_order.trans by blast
  moreover have "concat (sent_by u) \<in> {[], m}" using client(1) unfolding q(1) by (rule tcp_client_sends)
  ultimately have few: "prefix (concat (received u)) m" by (metis insert_iff empty_iff prefix_Nil Nil_prefix)
  then show ?thesis
    using tcp_client_play [OF client(1) [unfolded q(1)] client(2) few q(2,3)] by (intro conjI impI exI [of _ "concat (received u)"]) auto
qed

text \<open>The queue server gets the message in two pieces, and the client sees the first one come back.\<close>

definition ex_server :: "reply list" where
  "ex_server = [from_host ''Hello'', num 5, from_host '', Server!'', num 9, num 0, num 0]"

definition ex_client :: "reply list" where
  "ex_client = [num 3, num 1, num 0, num 14, from_host ''Hello'', num 0]"

lemma ex_server_play:
  assumes "play (queue_serve (Suc (Suc (Suc 0))) 7 (replicate BUFFER_SIZE NUL)) ex_server = (t, out)"
  shows "reads_all read_ok t" "received t = [''Hello'', '', Server!'']" "sent_by t = [''Hello'', '', Server!'']"
proof -
  have fin: "terminated (fill BUFFER_SIZE (replicate BUFFER_SIZE NUL) (from_host ''Hello''))"
    "terminated (fill BUFFER_SIZE (fill BUFFER_SIZE (replicate BUFFER_SIZE NUL) (from_host ''Hello'')) (from_host '', Server!''))"
    by (simp_all add: fill_def terminated_def BUFFER_SIZE_def)
  have echoed: "take 5 (fill BUFFER_SIZE b (from_host ''Hello'')) = ''Hello''" "take 9 (fill BUFFER_SIZE b (from_host '', Server!'')) = '', Server!''"
    "take BUFFER_SIZE ''Hello'' = ''Hello''" "take BUFFER_SIZE '', Server!'' = '', Server!''"
    "read_ok BUFFER_SIZE (from_host ''Hello'')" "read_ok BUFFER_SIZE (from_host '', Server!'')" "read_ok BUFFER_SIZE (num 0)" for b
    by (simp_all add: fill_def BUFFER_SIZE_def read_ok_def)
  show "reads_all read_ok t" "received t = [''Hello'', '', Server!'']" "sent_by t = [''Hello'', '', Server!'']"
    using assms by (auto simp: queue_serve_def ex_server_def Let_def play_with_str fin echoed reads_all_Sys)
qed

lemma ex_client_play:
  assumes "play queue_client ex_client = (u, oc)"
  shows "reads_all read_ok u" "received u = [''Hello'']" "sent_by u = [''Hello, Server!'']" "oc = Exited 0"
proof -
  have fin: "terminated (fill BUFFER_SIZE (replicate BUFFER_SIZE NUL) (from_host ''Hello''))"
    by (simp add: fill_def terminated_def BUFFER_SIZE_def)
  have echoed: "take BUFFER_SIZE ''Hello'' = ''Hello''" "read_ok BUFFER_SIZE (from_host ''Hello'')"
    by (simp_all add: BUFFER_SIZE_def read_ok_def)
  show "reads_all read_ok u" "received u = [''Hello'']" "sent_by u = [''Hello, Server!'']" "oc = Exited 0"
    using assms by (auto simp: queue_client_def tcp_client_def ex_client_def play_with_str fin echoed reads_all_Sys)
qed

theorem hw2_dialogue_witness:
  "\<exists>u shown. play queue_client ex_client = (u, Exited 0) \<and> prefix shown ''Hello, Server!'' \<and>
     printed u = [''Message sent: '' @ ''Hello, Server!'' @ nl, ''Message received: '' @ shown @ nl]"
proof -
  obtain t out where t: "play (queue_serve (Suc (Suc (Suc 0))) 7 (replicate BUFFER_SIZE NUL)) ex_server = (t, out)" by fastforce
  obtain u oc where u: "play queue_client ex_client = (u, oc)" by fastforce
  have pair: "(queue_serve (Suc (Suc (Suc 0))) 7 (replicate BUFFER_SIZE NUL), queue_client, ''Hello, Server!'') \<in> tcp_pairs"
    unfolding tcp_pairs_def by blast
  show ?thesis
    using hw2_dialogue [OF pair t ex_server_play(1) [OF t] u ex_client_play(1) [OF u]] u ex_server_play(2,3) [OF t] ex_client_play(2-4) [OF u]
    by (auto simp: prefix_def)
qed

end
