(* ===== verification/Sockets_Cast.thy ===== *)
theory Sockets_Cast
  imports Sockets
begin

text \<open>
  \<open>sockets/hw3\<close>: a server that sends one datagram over and over, to everybody or to a group, and a
  client that shows what it receives. The loops have no end and are followed for any number of
  rounds.
\<close>

section \<open>Programs\<close>

definition BUFFER_SIZE :: nat where "BUFFER_SIZE = 1024"

definition BROADCAST_IP :: string where "BROADCAST_IP = ''255.255.255.255''"

definition MULTICAST_IP :: string where "MULTICAST_IP = ''239.255.255.250''"

text \<open>\<open>kind\<close> is the word in which the two programs differ.\<close>

fun send_loop :: "string \<Rightarrow> nat \<Rightarrow> int \<Rightarrow> string \<Rightarrow> addr \<Rightarrow> scall prog" where
  "send_loop kind 0 sock msg a = Running"
| "send_loop kind (Suc n) sock msg a = Call (Sendto sock msg a) (\<lambda>r.
     let rest = Call (Sleep 2) (\<lambda>_. send_loop kind n sock msg a) in
     if ret r < 0 then Err (kind @ '' message failed'') rest
     else Out (kind @ '' message sent: '' @ msg @ nl) rest)"

text \<open>\<open>buffer[recv_len] = '\0'\<close> is outside the buffer when the datagram fills it.\<close>

fun recv_loop :: "string \<Rightarrow> nat \<Rightarrow> int \<Rightarrow> char list \<Rightarrow> scall prog" where
  "recv_loop kind 0 sock b = Running"
| "recv_loop kind (Suc n) sock b = Call (Recvfrom sock BUFFER_SIZE) (\<lambda>r.
     if ret r < 0 then Err ''recvfrom failed'' (recv_loop kind n sock b)
     else let b' = fill BUFFER_SIZE b r; i = nat (ret r) in
       if i < length b' then
         with_str (b'[i := NUL]) (\<lambda>m. Out (''Received '' @ kind @ '' message: '' @ m @ nl)
           (recv_loop kind n sock (b'[i := NUL])))
       else Undef Write_Overflow)"

definition or_die :: "scall \<Rightarrow> int \<Rightarrow> string \<Rightarrow> scall prog \<Rightarrow> scall prog" where
  "or_die c fd m p = Call c (\<lambda>r. if ret r < 0 then Err m (Call (Close fd) (\<lambda>_. Halt 1)) else p)"

definition broadcast_server :: "nat \<Rightarrow> scall prog" where
  "broadcast_server n = or_exit (Socket AF_INET DGRAM) ''Socket creation failed'' (\<lambda>s.
     or_die (Setsockopt (ret s) ''SO_BROADCAST'') (ret s) ''setsockopt failed''
       (send_loop ''Broadcast'' n (ret s) ''Hello, Broadcast!'' (Inet BROADCAST_IP PORT)))"

definition multicast_server :: "nat \<Rightarrow> scall prog" where
  "multicast_server n = or_exit (Socket AF_INET DGRAM) ''Socket creation failed'' (\<lambda>s.
     or_die (Setsockopt (ret s) ''IP_MULTICAST_TTL'') (ret s) ''setsockopt failed''
       (send_loop ''Multicast'' n (ret s) ''Hello, Multicast!'' (Inet MULTICAST_IP PORT)))"

definition broadcast_client :: "nat \<Rightarrow> char list \<Rightarrow> scall prog" where
  "broadcast_client n junk = or_exit (Socket AF_INET DGRAM) ''Socket creation failed'' (\<lambda>s.
     or_die (Bind (ret s) (Inet INADDR_ANY PORT)) (ret s) ''Bind failed''
       (recv_loop ''broadcast'' n (ret s) junk))"

definition multicast_client :: "nat \<Rightarrow> char list \<Rightarrow> scall prog" where
  "multicast_client n junk = or_exit (Socket AF_INET DGRAM) ''Socket creation failed'' (\<lambda>s.
     or_die (Bind (ret s) (Inet INADDR_ANY PORT)) (ret s) ''Bind failed''
     (or_die (Setsockopt (ret s) (''IP_ADD_MEMBERSHIP '' @ MULTICAST_IP)) (ret s) ''setsockopt failed''
       (recv_loop ''multicast'' n (ret s) junk)))"

section \<open>What is shown\<close>

text \<open>The replies up to the first datagram that fills the buffer.\<close>

definition fitting :: "reply list \<Rightarrow> reply list" where
  "fitting rs = takeWhile (\<lambda>r. length (data r) < BUFFER_SIZE) rs"

definition shows_datagram :: "string \<Rightarrow> reply \<Rightarrow> string" where
  "shows_datagram kind r = ''Received '' @ kind @ '' message: '' @ takeWhile (\<lambda>c. c \<noteq> NUL) (data r) @ nl"

lemma cstr_cut:
  assumes "read_ok n r" "0 \<le> ret r" "length (data r) < n" "length b = n"
  shows "terminated ((fill n b r)[nat (ret r) := NUL])"
    and "cstr ((fill n b r)[nat (ret r) := NUL]) = takeWhile (\<lambda>c. c \<noteq> NUL) (data r)"
proof -
  have r: "ret r = int (length (data r))" using assms(1,2) by (auto simp: read_ok_def)
  obtain x rest where d: "drop (length (data r)) b = x # rest"
    using assms(3,4) by (metis Cons_nth_drop_Suc)
  have "(fill n b r)[nat (ret r) := NUL] = data r @ NUL # rest"
    using assms(3) r d by (simp add: fill_def)
  then show "terminated ((fill n b r)[nat (ret r) := NUL])"
    and "cstr ((fill n b r)[nat (ret r) := NUL]) = takeWhile (\<lambda>c. c \<noteq> NUL) (data r)"
    by (auto simp: terminated_def cstr_def takeWhile_append takeWhile_eq_all_conv [THEN iffD2, THEN sym])
qed

lemma recv_loop_play:
  assumes "\<forall>r \<in> set rs. read_ok BUFFER_SIZE r" "length b = BUFFER_SIZE"
  shows "printed (fst (play (recv_loop kind (length rs) sock b) rs)) = map (shows_datagram kind) (filter (\<lambda>r. 0 \<le> ret r) (fitting rs)) \<and>
    snd (play (recv_loop kind (length rs) sock b) rs) = (if fitting rs = rs then Waiting else Crashed Write_Overflow)"
  using assms
proof (induction rs arbitrary: b)
  case Nil
  then show ?case by (simp add: fitting_def)
next
  case (Cons r rs)
  have ok: "read_ok BUFFER_SIZE r" and oks: "\<forall>r \<in> set rs. read_ok BUFFER_SIZE r" using Cons.prems by simp_all
  show ?case
  proof (cases "ret r < 0")
    case True
    then have "data r = []" using ok by (auto simp: read_ok_def)
    then show ?thesis using True Cons.IH [OF oks Cons.prems(2)] by (auto simp: fitting_def BUFFER_SIZE_def)
  next
    case False
    then have r: "ret r = int (length (data r))" using ok by (auto simp: read_ok_def)
    have l: "length (fill BUFFER_SIZE b r) = BUFFER_SIZE" using Cons.prems(2) by (simp add: length_fill)
    show ?thesis
    proof (cases "length (data r) < BUFFER_SIZE")
      case True
      note cut = cstr_cut [OF ok _ True Cons.prems(2)]
      have "length ((fill BUFFER_SIZE b r)[length (data r) := NUL]) = BUFFER_SIZE" using l by simp
      note ih = Cons.IH [OF oks this]
      show ?thesis using False True l cut ih r
        by (auto simp: Let_def play_with_str fitting_def shows_datagram_def)
    next
      case too_long: False
      then show ?thesis using False l r by (auto simp: Let_def fitting_def)
    qed
  qed
qed

text \<open>What a sender sends.\<close>

lemma send_loop_sent: "set (sent_by (fst (play (send_loop kind n sock msg a) rs))) \<subseteq> {msg}"
proof (induction n arbitrary: rs)
  case 0
  then show ?case by simp
next
  case (Suc n)
  consider "rs = []" | r where "rs = [r]" | r q rs2 where "rs = r # q # rs2" by (cases rs rule: remdups_adj.cases) auto
  then show ?case using Suc by cases (auto simp: Let_def)
qed

section \<open>Property\<close>

text \<open>
  C33: the clients show every datagram up to its first NUL, in the order of arrival and whatever the
  buffer held before, until one fills the buffer: then the final NUL is written behind it.
\<close>

theorem cast_client:
  assumes "kind \<in> {''broadcast'', ''multicast''}" "\<forall>r \<in> set rs. read_ok BUFFER_SIZE r" "length junk = BUFFER_SIZE"
    and "0 \<le> ret s" "\<forall>r \<in> set pre. 0 \<le> ret r" "length pre = (if kind = ''broadcast'' then 1 else 2)"
    and "play ((if kind = ''broadcast'' then broadcast_client else multicast_client) (length rs) junk) (s # pre @ rs) = (t, out)"
  shows "printed t = map (shows_datagram kind) (filter (\<lambda>r. 0 \<le> ret r) (fitting rs)) \<and>
    out = (if fitting rs = rs then Waiting else Crashed Write_Overflow)"
proof (cases "kind = ''broadcast''")
  case True
  then obtain p where "pre = [p]" using assms(6) by (cases pre) auto
  then show ?thesis using True assms recv_loop_play [OF assms(2,3), of kind "ret s"]
    by (auto simp: broadcast_client_def or_die_def)
next
  case False
  then obtain p q where "pre = [p, q]" using assms(6) by (auto simp: length_Suc_conv eval_nat_numeral)
  then show ?thesis using False assms recv_loop_play [OF assms(2,3), of kind "ret s"]
    by (auto simp: multicast_client_def or_die_def)
qed

theorem cast_client_witness:
  "\<exists>t out. play (broadcast_client 2 (replicate BUFFER_SIZE NUL)) ([num 3, num 0] @ [from_host ''Hello, Broadcast!'', num (- 1)]) = (t, out) \<and>
     printed t = [''Received broadcast message: Hello, Broadcast!'' @ nl] \<and> out = Waiting"
proof -
  let ?rs = "[from_host ''Hello, Broadcast!'', num (- 1)]"
  obtain t out where p: "play (broadcast_client 2 (replicate BUFFER_SIZE NUL)) ([num 3, num 0] @ ?rs) = (t, out)"
    by fastforce
  have "\<forall>r \<in> set ?rs. read_ok BUFFER_SIZE r" by (simp add: read_ok_def BUFFER_SIZE_def)
  then have "printed t = map (shows_datagram ''broadcast'') (filter (\<lambda>r. 0 \<le> ret r) (fitting ?rs)) \<and>
    out = (if fitting ?rs = ?rs then Waiting else Crashed Write_Overflow)"
    using p by (intro cast_client [of "''broadcast''" ?rs "replicate BUFFER_SIZE NUL" "num 3" "[num 0]"])
      (simp_all add: numeral_2_eq_2)
  then show ?thesis using p by (simp add: fitting_def shows_datagram_def BUFFER_SIZE_def)
qed

end
