(* ===== verification/Message_Queues.thy ===== *)
theory Message_Queues
  imports Syscalls
begin

text \<open>
  The message queue pairs of \<open>mq\<close>: a server that sends a greeting and waits for an answer, and a
  client that waits for the greeting and answers, over a POSIX queue and over a System V queue.
  Each pair runs under any interleaving of its two processes; \<open>sleep\<close> takes any time. The queues
  do what POSIX says: first in first out, blocking while empty or full, and for System V a queue
  per message type.
\<close>

definition MAX_SIZE :: nat where "MAX_SIZE = 1024"

text \<open>\<open>strcpy(b, s)\<close>.\<close>

definition strcpy :: "char list \<Rightarrow> string \<Rightarrow> (char list \<Rightarrow> 'c prog) \<Rightarrow> 'c prog" where
  "strcpy b s k = (case put_str b s of Inl e \<Rightarrow> Undef e | Inr b' \<Rightarrow> k b')"

text \<open>The four lines the processes print.\<close>

definition S_sent :: "string \<Rightarrow> string" where "S_sent m = ''Server: Sent message: '' @ m @ nl"

definition S_got :: "string \<Rightarrow> string" where "S_got m = ''Server: Received message: '' @ m @ nl"

definition C_got :: "string \<Rightarrow> string" where "C_got m = ''Client: Received message: '' @ m @ nl"

definition C_sent :: "string \<Rightarrow> string" where "C_sent m = ''Client: Sent message: '' @ m @ nl"

section \<open>POSIX queues\<close>

text \<open>The argument of \<open>mq_open\<close> is whether \<open>O_CREAT\<close> is set.\<close>

datatype mq_call = Mq_open bool | Mq_send string | Mq_receive nat | Mq_close | Mq_unlink | Sleep nat

definition mq_server :: "char list \<Rightarrow> mq_call prog" where
  "mq_server junk =
     or_quit (Mq_open True) ''Server: mq_open'' (\<lambda>_.
     strcpy junk ''Hi!'' (\<lambda>b.
     or_quit (Mq_send b) ''Server: Not able to send message'' (\<lambda>_.
     with_str b (\<lambda>m. Out (S_sent m) (
     Call (Sleep 5) (\<lambda>_. Call Mq_close (\<lambda>_.
     or_quit (Mq_open False) ''Server: mq_open for reading'' (\<lambda>_.
     or_quit (Mq_receive MAX_SIZE) ''Server: mq_receive'' (\<lambda>r.
     with_str (fill MAX_SIZE b r) (\<lambda>m. Out (S_got m) (
     Call Mq_close (\<lambda>_. Call Mq_unlink (\<lambda>_. Halt 0)))))))))))))"

definition mq_client :: "char list \<Rightarrow> mq_call prog" where
  "mq_client junk =
     or_quit (Mq_open False) ''Client: mq_open'' (\<lambda>_.
     or_quit (Mq_receive MAX_SIZE) ''Client: mq_receive'' (\<lambda>r. let b = fill MAX_SIZE junk r in
     with_str b (\<lambda>m. Out (C_got m) (
     Call Mq_close (\<lambda>_.
     or_quit (Mq_open False) ''Client: mq_open for sending'' (\<lambda>_.
     strcpy b ''Hello!'' (\<lambda>b.
     or_quit (Mq_send b) ''Client: mq_send'' (\<lambda>_.
     with_str b (\<lambda>m. Out (C_sent m) (
     Call Mq_close (\<lambda>_. Halt 0)))))))))))"

text \<open>The queue: whether its name is there, and the messages in it; \<open>mq_maxmsg\<close> is 10.\<close>

record mqueue =
  linked :: bool
  msgs :: "string list"

fun mq_object :: "nat \<Rightarrow> mq_call \<Rightarrow> mqueue \<Rightarrow> (reply \<times> mqueue) option" where
  "mq_object i (Mq_open create) q = (if create \<or> linked q then Some (int_reply 3, q\<lparr>linked := True\<rparr>) else Some (int_reply (-1), q))"
| "mq_object i (Mq_send s) q = (if length (msgs q) < 10 then Some (int_reply 0, q\<lparr>msgs := msgs q @ [s]\<rparr>) else None)"
| "mq_object i (Mq_receive n) q = (case msgs q of [] \<Rightarrow> None | x # xs \<Rightarrow> Some (msg_reply x, q\<lparr>msgs := xs\<rparr>))"
| "mq_object i Mq_close q = Some (int_reply 0, q)"
| "mq_object i Mq_unlink q = Some (int_reply 0, q\<lparr>linked := False\<rparr>)"
| "mq_object i (Sleep n) q = Some (int_reply 0, q)"

definition mq_start :: "char list \<Rightarrow> char list \<Rightarrow> (mq_call, mqueue) world" where
  "mq_start j1 j2 = \<lparr>procs = [mq_server j1, mq_client j2], shared = \<lparr>linked = False, msgs = []\<rparr>, screen = []\<rparr>"

section \<open>System V queues\<close>

text \<open>The argument of \<open>msgget\<close> is whether \<open>IPC_CREAT\<close> is set; a message has a type and a text.\<close>

datatype msg_call = Ftok | Msgget bool | Msgsnd int string | Msgrcv nat int | Msgctl_rmid

definition sysv_server :: "char list \<Rightarrow> msg_call prog" where
  "sysv_server junk = Call Ftok (\<lambda>_.
     or_quit (Msgget True) ''Server: msgget'' (\<lambda>_.
     strcpy junk ''Hi!'' (\<lambda>b.
     or_quit (Msgsnd 1 b) ''Server: msgsnd'' (\<lambda>_.
     with_str b (\<lambda>m. Out (S_sent m) (
     or_quit (Msgrcv MAX_SIZE 2) ''Server: msgrcv'' (\<lambda>r.
     with_str (fill MAX_SIZE b r) (\<lambda>m. Out (S_got m) (
     or_quit Msgctl_rmid ''Server: msgctl'' (\<lambda>_. Halt 0))))))))))"

definition sysv_client :: "char list \<Rightarrow> msg_call prog" where
  "sysv_client junk = Call Ftok (\<lambda>_.
     or_quit (Msgget False) ''Client: msgget'' (\<lambda>_.
     or_quit (Msgrcv MAX_SIZE 1) ''Client: msgrcv'' (\<lambda>r. let b = fill MAX_SIZE junk r in
     with_str b (\<lambda>m. Out (C_got m) (
     strcpy b ''Hello!'' (\<lambda>b.
     or_quit (Msgsnd 2 b) ''Client: msgsnd'' (\<lambda>_.
     with_str b (\<lambda>m. Out (C_sent m) (Halt 0)))))))))"

record sysv_queue =
  exists_q :: bool
  typed :: "(int \<times> string) list"

text \<open>\<open>msgrcv\<close> takes the first message of its type.\<close>

fun take_type :: "int \<Rightarrow> (int \<times> string) list \<Rightarrow> (string \<times> (int \<times> string) list) option" where
  "take_type t [] = None"
| "take_type t ((u, s) # xs) = (if u = t then Some (s, xs) else map_option (\<lambda>(r, ys). (r, (u, s) # ys)) (take_type t xs))"

fun sysv_object :: "nat \<Rightarrow> msg_call \<Rightarrow> sysv_queue \<Rightarrow> (reply \<times> sysv_queue) option" where
  "sysv_object i Ftok q = Some (int_reply 65, q)"
| "sysv_object i (Msgget create) q = (if create \<or> exists_q q then Some (int_reply 1, q\<lparr>exists_q := True\<rparr>) else Some (int_reply (-1), q))"
| "sysv_object i (Msgsnd t s) q = (if exists_q q then Some (int_reply 0, q\<lparr>typed := typed q @ [(t, s)]\<rparr>) else Some (int_reply (-1), q))"
| "sysv_object i (Msgrcv n t) q = (if exists_q q then (case take_type t (typed q) of None \<Rightarrow> None
     | Some (s, xs) \<Rightarrow> Some (msg_reply s, q\<lparr>typed := xs\<rparr>)) else Some (int_reply (-1), q))"
| "sysv_object i Msgctl_rmid q = (if exists_q q then Some (int_reply 0, \<lparr>exists_q = False, typed = []\<rparr>) else Some (int_reply (-1), q))"

definition sysv_start :: "char list \<Rightarrow> char list \<Rightarrow> (msg_call, sysv_queue) world" where
  "sysv_start j1 j2 = \<lparr>procs = [sysv_server j1, sysv_client j2], shared = \<lparr>exists_q = False, typed = []\<rparr>, screen = []\<rparr>"

section \<open>Buffers\<close>

lemma lazy_calls: "or_quit c m k = or_quit c m k" "b = b' \<Longrightarrow> strcpy b s f = strcpy b' s f"
  by simp_all

definition stamped :: "string \<Rightarrow> char list \<Rightarrow> char list" where
  "stamped s b = s @ NUL # drop (Suc (length s)) b"

lemma stamped_length: "length s < length b \<Longrightarrow> length (stamped s b) = length b"
  by (simp add: stamped_def)

lemma strcpy_stamped: "length s < length b \<Longrightarrow> strcpy b s k = k (stamped s b)"
  by (simp add: strcpy_def put_str_def stamped_def)

lemma with_str_stamped: "NUL \<notin> set s \<Longrightarrow> with_str (stamped s b) k = k s"
  by (simp add: with_str_def get_str_def stamped_def)

lemma fill_msg: "length d = MAX_SIZE \<Longrightarrow> length b = MAX_SIZE \<Longrightarrow> fill MAX_SIZE b (msg_reply d) = d"
  by (simp add: fill_def msg_reply_def)

lemma MAX_SIZE_big: "3 < MAX_SIZE" "6 < MAX_SIZE" "Suc (Suc (Suc 0)) < MAX_SIZE"
  "Suc (Suc (Suc (Suc (Suc (Suc 0))))) < MAX_SIZE"
  by (simp_all add: MAX_SIZE_def)

section \<open>The System V dialogue\<close>

lemmas explore = proc_step_def case_or_quit strcpy_stamped with_str_stamped stamped_length
  fill_msg MAX_SIZE_big Let_def

text \<open>Two runs that come to an end, in buffers that were zero.\<close>

definition zeros :: string where "zeros = replicate MAX_SIZE NUL"

lemma zeros_length: "length zeros = MAX_SIZE"
  by (simp add: zeros_def)

lemma sysv_run_stuck:
  "ends_in (stuck (proc_step sysv_object)) (run (proc_step sysv_object) [0, 0, 0, 0, 1, 1, 1, 1, 1, 1, 0, 0, 0] (sysv_start zeros zeros))"
  unfolding sysv_start_def sysv_server_def sysv_client_def
  by (simp add: explore zeros_length ends_in_def stuck_def cong: lazy_cong lazy_calls)

lemma posix_run_stuck:
  "ends_in (stuck (proc_step mq_object)) (run (proc_step mq_object) [0, 1, 0, 0, 0, 0, 0, 0, 0, 0, 0] (mq_start zeros zeros))"
  unfolding mq_start_def mq_server_def mq_client_def
  by (simp add: explore zeros_length ends_in_def stuck_def cong: lazy_cong lazy_calls)

text \<open>How the two processes end.\<close>

definition sysv_end :: "(msg_call, sysv_queue) world \<Rightarrow> bool" where
  "sysv_end w \<longleftrightarrow>
     lines_of 0 w = [S_sent ''Hi!'', S_got ''Hello!''] \<and>
     lines_of 1 w = [C_got ''Hi!'', C_sent ''Hello!''] \<and>
     procs w = [Halt 0, Halt 0] \<and> shared w = \<lparr>exists_q = False, typed = []\<rparr>"

definition sysv_early :: "(msg_call, sysv_queue) world \<Rightarrow> bool" where
  "sysv_early w \<longleftrightarrow> lines_of 1 w = [''Client: msgget''] \<and> procs w ! 1 = Halt 1 \<and>
     (\<exists>k. procs w ! 0 = Call (Msgrcv MAX_SIZE 2) k)"

lemma sysv_paths:
  assumes "length j1 = MAX_SIZE" "length j2 = MAX_SIZE"
  shows "all_ends (proc_step sysv_object) (\<lambda>w. sysv_end w \<or> sysv_early w) 17 (sysv_start j1 j2)"
  unfolding sysv_start_def sysv_server_def sysv_client_def
  by (simp add: explore assms all_ends_Suc all_ends_numeral cong: lazy_cong lazy_calls)
    (simp add: sysv_end_def sysv_early_def lines_of_def or_quit_def)

section \<open>The POSIX dialogue\<close>

text \<open>
  The places of the two processes, as what is left of their programs. Place 9 and 10 of the client
  are the end after a queue that was not there.
\<close>

definition at_server :: "char list \<Rightarrow> string \<Rightarrow> mq_call prog list" where
  "at_server junk got = (let b = stamped ''Hi!'' junk;
     p9 = Call Mq_unlink (\<lambda>_. Halt 0); p8 = Call Mq_close (\<lambda>_. p9);
     p6 = or_quit (Mq_receive MAX_SIZE) ''Server: mq_receive'' (\<lambda>r.
       with_str (fill MAX_SIZE b r) (\<lambda>m. Out (S_got m) p8));
     p5 = or_quit (Mq_open False) ''Server: mq_open for reading'' (\<lambda>_. p6);
     p4 = Call Mq_close (\<lambda>_. p5); p3 = Call (Sleep 5) (\<lambda>_. p4) in
     [mq_server junk, or_quit (Mq_send b) ''Server: Not able to send message'' (\<lambda>_.
       with_str b (\<lambda>m. Out (S_sent m) p3)), Out (S_sent ''Hi!'') p3, p3, p4, p5, p6, Out (S_got got) p8, p8, p9, Halt 0])"

definition at_client :: "char list \<Rightarrow> char list \<Rightarrow> mq_call prog list" where
  "at_client junk b = (let
     p7 = Call Mq_close (\<lambda>_. Halt 0); b' = stamped ''Hello!'' b;
     p5 = or_quit (Mq_send b') ''Client: mq_send'' (\<lambda>_. with_str b' (\<lambda>m. Out (C_sent m) p7));
     p4 = or_quit (Mq_open False) ''Client: mq_open for sending'' (\<lambda>_. strcpy b ''Hello!'' (\<lambda>b.
       or_quit (Mq_send b) ''Client: mq_send'' (\<lambda>_. with_str b (\<lambda>m. Out (C_sent m) p7))));
     p3 = Call Mq_close (\<lambda>_. p4) in
     [mq_client junk, or_quit (Mq_receive MAX_SIZE) ''Client: mq_receive'' (\<lambda>r. let b = fill MAX_SIZE junk r in
       with_str b (\<lambda>m. Out (C_got m) (Call Mq_close (\<lambda>_.
       or_quit (Mq_open False) ''Client: mq_open for sending'' (\<lambda>_. strcpy b ''Hello!'' (\<lambda>b.
       or_quit (Mq_send b) ''Client: mq_send'' (\<lambda>_. with_str b (\<lambda>m. Out (C_sent m) p7)))))))),
      Out (C_got ''Hi!'') p3, p3, p4, p5, Out (C_sent ''Hello!'') p7, p7, Halt 0,
      Err ''Client: mq_open'' (Halt 1), Halt 1])"

text \<open>The client has answered, or is about to, at the places 2 to 8.\<close>

definition got_it :: "nat \<Rightarrow> bool" where
  "got_it j \<longleftrightarrow> 2 \<le> j \<and> j \<le> 8"

definition server_got :: "nat \<Rightarrow> string" where
  "server_got j = (if got_it j then ''Hello!'' else ''Hi!'')"

definition in_queue :: "char list \<Rightarrow> nat \<Rightarrow> nat \<Rightarrow> string list" where
  "in_queue j1 i j = (let b = stamped ''Hi!'' j1 in if i < 2 \<or> 6 < i then [] else if \<not> got_it j then [b]
     else if j \<le> 5 then [] else [stamped ''Hello!'' b])"

definition mq_state :: "char list \<Rightarrow> char list \<Rightarrow> nat \<Rightarrow> nat \<Rightarrow> (mq_call, mqueue) world \<Rightarrow> bool" where
  "mq_state j1 j2 i j w \<longleftrightarrow> i \<le> 10 \<and> j \<le> 10 \<and> (j = 1 \<longrightarrow> 1 \<le> i) \<and> (got_it j \<longrightarrow> 2 \<le> i \<and> (6 < i \<longrightarrow> 6 \<le> j)) \<and>
     procs w = [at_server j1 (server_got j) ! i, at_client j2 (stamped ''Hi!'' j1) ! j] \<and>
     shared w = \<lparr>linked = (1 \<le> i \<and> i \<le> 9), msgs = in_queue j1 i j\<rparr> \<and>
     lines_of 0 w = (if 2 < i then [S_sent ''Hi!''] else []) @ (if 7 < i then [S_got (server_got j)] else []) \<and>
     lines_of 1 w = (if got_it j \<and> 2 < j then [C_got ''Hi!''] else []) @ (if got_it j \<and> 6 < j then [C_sent ''Hello!''] else []) @
       (if j = 10 then [''Client: mq_open''] else [])"

lemma lines_of_append [simp]:
  "lines_of i (w\<lparr>procs := ps, screen := screen w @ [(k, s)]\<rparr>) = lines_of i w @ (if k = i then [s] else [])"
  "lines_of i (w\<lparr>procs := ps, shared := x\<rparr>) = lines_of i w"
  by (simp_all add: lines_of_def)

text \<open>Each place by the next one.\<close>

lemma at_server_nth:
  "at_server u g ! 0 = mq_server u"
  "at_server u g ! Suc 0 = or_quit (Mq_send (stamped ''Hi!'' u)) ''Server: Not able to send message'' (\<lambda>_.
     with_str (stamped ''Hi!'' u) (\<lambda>m. Out (S_sent m) (at_server u g ! 3)))"
  "at_server u g ! 2 = Out (S_sent ''Hi!'') (at_server u g ! 3)"
  "at_server u g ! Suc (Suc 0) = Out (S_sent ''Hi!'') (at_server u g ! 3)"
  "at_server u g ! 3 = Call (Sleep 5) (\<lambda>_. at_server u g ! 4)"
  "at_server u g ! 4 = Call Mq_close (\<lambda>_. at_server u g ! 5)"
  "at_server u g ! 5 = or_quit (Mq_open False) ''Server: mq_open for reading'' (\<lambda>_. at_server u g ! 6)"
  "at_server u g ! 6 = or_quit (Mq_receive MAX_SIZE) ''Server: mq_receive'' (\<lambda>r.
     with_str (fill MAX_SIZE (stamped ''Hi!'' u) r) (\<lambda>m. Out (S_got m) (at_server u g ! 8)))"
  "at_server u g ! 7 = Out (S_got g) (at_server u g ! 8)"
  "at_server u g ! 8 = Call Mq_close (\<lambda>_. at_server u g ! 9)"
  "at_server u g ! 9 = Call Mq_unlink (\<lambda>_. at_server u g ! 10)"
  "at_server u g ! 10 = Halt 0"
  by (simp_all add: at_server_def Let_def)

lemma at_client_nth:
  "at_client u b ! 0 = or_quit (Mq_open False) ''Client: mq_open'' (\<lambda>_. at_client u b ! 1)"
  "at_client u b ! Suc 0 = or_quit (Mq_receive MAX_SIZE) ''Client: mq_receive'' (\<lambda>r.
     with_str (fill MAX_SIZE u r) (\<lambda>m. Out (C_got m) (at_client u (fill MAX_SIZE u r) ! 3)))"
  "at_client u b ! 2 = Out (C_got ''Hi!'') (at_client u b ! 3)"
  "at_client u b ! Suc (Suc 0) = Out (C_got ''Hi!'') (at_client u b ! 3)"
  "at_client u b ! 3 = Call Mq_close (\<lambda>_. at_client u b ! 4)"
  "at_client u b ! 4 = or_quit (Mq_open False) ''Client: mq_open for sending'' (\<lambda>_. strcpy b ''Hello!'' (\<lambda>b.
     or_quit (Mq_send b) ''Client: mq_send'' (\<lambda>_. with_str b (\<lambda>m. Out (C_sent m) (Call Mq_close (\<lambda>_. Halt 0))))))"
  "at_client u b ! 5 = or_quit (Mq_send (stamped ''Hello!'' b)) ''Client: mq_send'' (\<lambda>_.
     with_str (stamped ''Hello!'' b) (\<lambda>m. Out (C_sent m) (Call Mq_close (\<lambda>_. Halt 0))))"
  "at_client u b ! 6 = Out (C_sent ''Hello!'') (Call Mq_close (\<lambda>_. Halt 0))"
  "at_client u b ! 7 = Call Mq_close (\<lambda>_. Halt 0)"
  "at_client u b ! 8 = Halt 0"
  "at_client u b ! 9 = Err ''Client: mq_open'' (at_client u b ! 10)"
  "at_client u b ! 10 = Halt 1"
  by (simp_all add: at_client_def mq_client_def Let_def)

lemma upto_ten: "i \<le> (10::nat) \<longleftrightarrow> i = 0 \<or> i = 1 \<or> i = 2 \<or> i = 3 \<or> i = 4 \<or> i = 5 \<or> i = 6 \<or> i = 7 \<or> i = 8 \<or> i = 9 \<or> i = 10"
  by presburger

lemmas mq_simps = mq_state_def at_server_def mq_server_def at_client_def mq_client_def in_queue_def got_it_def
  server_got_def explore

lemma server_moves:
  assumes l: "length j1 = MAX_SIZE" "length j2 = MAX_SIZE" and st: "mq_state j1 j2 i j w"
    and step: "proc_step mq_object 0 w = Some t"
  shows "mq_state j1 j2 (Suc i) j t"
proof -
  have i: "i \<le> 10" using st by (simp add: mq_state_def)
  note simps = mq_state_def at_server_nth in_queue_def explore
  have "i = 0 \<Longrightarrow> ?thesis" using st step l
    by (auto simp: simps at_server_def mq_server_def cong: lazy_cong lazy_calls split del: if_split)
  moreover have "i = 6 \<Longrightarrow> ?thesis" using st step l
    by (cases "got_it j"; cases "j \<le> 5") (auto simp: simps server_got_def cong: lazy_cong lazy_calls split del: if_split)
  moreover have "i = 1 \<Longrightarrow> ?thesis" using st step l by (auto simp: simps cong: lazy_cong lazy_calls split del: if_split)
  moreover have "i = 2 \<Longrightarrow> ?thesis" using st step l by (auto simp: simps cong: lazy_cong lazy_calls split del: if_split)
  moreover have "i = 3 \<Longrightarrow> ?thesis" using st step l by (auto simp: simps cong: lazy_cong lazy_calls split del: if_split)
  moreover have "i = 4 \<Longrightarrow> ?thesis" using st step l by (auto simp: simps cong: lazy_cong lazy_calls split del: if_split)
  moreover have "i = 5 \<Longrightarrow> ?thesis" using st step l by (auto simp: simps cong: lazy_cong lazy_calls split del: if_split)
  moreover have "i = 7 \<Longrightarrow> ?thesis" using st step l by (auto simp: simps cong: lazy_cong lazy_calls split del: if_split)
  moreover have "i = 8 \<Longrightarrow> ?thesis" using st step l by (auto simp: simps cong: lazy_cong lazy_calls split del: if_split)
  moreover have "i = 9 \<Longrightarrow> ?thesis" using st step l by (auto simp: simps cong: lazy_cong lazy_calls split del: if_split)
  moreover have "i = 10 \<Longrightarrow> ?thesis" using st step l by (auto simp: simps cong: lazy_cong lazy_calls split del: if_split)
  ultimately show ?thesis using i unfolding upto_ten by blast
qed

lemma at_server_early: "i \<le> 6 \<Longrightarrow> at_server junk g ! i = at_server junk g' ! i"
proof -
  assume "i \<le> 6"
  then have "i = 0 \<or> i = 1 \<or> i = 2 \<or> i = 3 \<or> i = 4 \<or> i = 5 \<or> i = 6" by presburger
  then show ?thesis by (elim disjE) (simp_all add: at_server_def Let_def)
qed

lemma got_it_numerals [simp]:
  "\<not> got_it 0" "\<not> got_it (Suc 0)" "got_it (Suc (Suc 0))" "got_it 2" "got_it 3" "got_it 4" "got_it 5" "got_it 6" "got_it 7" "got_it 8"
  "\<not> got_it 9" "\<not> got_it 10" "\<not> got_it 11"
  by (simp_all add: got_it_def)

lemma in_queue_cases:
  "\<not> got_it j \<Longrightarrow> in_queue u i j = (if i < 2 \<or> 6 < i then [] else [stamped ''Hi!'' u])"
  "got_it j \<Longrightarrow> j \<le> 5 \<Longrightarrow> in_queue u i j = []"
  "got_it j \<Longrightarrow> 5 < j \<Longrightarrow> in_queue u i j = (if i < 2 \<or> 6 < i then [] else [stamped ''Hello!'' (stamped ''Hi!'' u)])"
  by (simp_all add: in_queue_def Let_def)

lemma server_got_cases: "\<not> got_it j \<Longrightarrow> server_got j = ''Hi!''" "got_it j \<Longrightarrow> server_got j = ''Hello!''"
  by (simp_all add: server_got_def)

lemma client_moves:
  assumes l: "length j1 = MAX_SIZE" "length j2 = MAX_SIZE" and st: "mq_state j1 j2 i j w"
    and step: "proc_step mq_object 1 w = Some t"
  shows "mq_state j1 j2 i (if j = 0 \<and> (i = 0 \<or> i = 10) then 9 else Suc j) t"
proof -
  have j: "j \<le> 10" using st by (simp add: mq_state_def)
  note simps = mq_state_def at_client_nth in_queue_cases server_got_cases explore
  have "j = 0 \<Longrightarrow> i = 0 \<or> i = 10 \<Longrightarrow> ?thesis"
    using st step l by (elim disjE) (auto simp: simps cong: if_cong lazy_cong lazy_calls split del: if_split)
  moreover have "j = 0 \<Longrightarrow> i \<noteq> 0 \<Longrightarrow> i \<noteq> 10 \<Longrightarrow> ?thesis"
    using st step l by (auto simp: simps cong: if_cong lazy_cong lazy_calls split del: if_split)
  moreover have "j = 1 \<Longrightarrow> ?thesis" using st step l
    by (cases "i < 2"; cases "i \<le> 6") (auto simp: simps cong: if_cong lazy_cong lazy_calls split del: if_split intro!: at_server_early)
  moreover have "j = 2 \<Longrightarrow> ?thesis" using st step l by (auto simp: simps cong: if_cong lazy_cong lazy_calls split del: if_split)
  moreover have "j = 3 \<Longrightarrow> ?thesis" using st step l by (auto simp: simps cong: if_cong lazy_cong lazy_calls split del: if_split)
  moreover have "j = 4 \<Longrightarrow> ?thesis" using st step l by (auto simp: simps cong: if_cong lazy_cong lazy_calls split del: if_split)
  moreover have "j = 5 \<Longrightarrow> ?thesis" using st step l by (auto simp: simps cong: if_cong lazy_cong lazy_calls split del: if_split)
  moreover have "j = 6 \<Longrightarrow> ?thesis" using st step l by (auto simp: simps cong: if_cong lazy_cong lazy_calls split del: if_split)
  moreover have "j = 7 \<Longrightarrow> ?thesis" using st step l by (auto simp: simps cong: if_cong lazy_cong lazy_calls split del: if_split)
  moreover have "j = 8 \<Longrightarrow> ?thesis" using st step l by (auto simp: simps cong: if_cong lazy_cong lazy_calls split del: if_split)
  moreover have "j = 9 \<Longrightarrow> ?thesis" using st step l by (auto simp: simps cong: if_cong lazy_cong lazy_calls split del: if_split)
  moreover have "j = 10 \<Longrightarrow> ?thesis" using st step l by (auto simp: simps cong: if_cong lazy_cong lazy_calls split del: if_split)
  ultimately show ?thesis using j unfolding upto_ten by blast
qed

lemma mq_state_start: "mq_state j1 j2 0 0 (mq_start j1 j2)"
  by (simp add: mq_state_def mq_start_def at_server_def at_client_def in_queue_def got_it_def lines_of_def Let_def)

interpretation posix_dialogue: event_system "proc_step mq_object" "\<lambda>w. length j1 = MAX_SIZE \<and> length j2 = MAX_SIZE \<and> (\<exists>i j. mq_state j1 j2 i j w)"
  for j1 j2
proof unfold_locales
  fix w e t
  assume inv: "length j1 = MAX_SIZE \<and> length j2 = MAX_SIZE \<and> (\<exists>i j. mq_state j1 j2 i j w)" and step: "proc_step mq_object e w = Some t"
  then obtain i j where st: "mq_state j1 j2 i j w" by blast
  have "length (procs w) = 2" using st by (simp add: mq_state_def)
  then have "e = 0 \<or> e = 1" using proc_step_two [OF step] by blast
  then show "length j1 = MAX_SIZE \<and> length j2 = MAX_SIZE \<and> (\<exists>i j. mq_state j1 j2 i j t)"
    using server_moves [OF _ _ st] client_moves [OF _ _ st] inv step by blast
qed

text \<open>Who can move: everybody who is not done and does not wait at an empty queue.\<close>

lemma server_can:
  assumes st: "mq_state j1 j2 i j w" and "i < 10" "i = 6 \<Longrightarrow> in_queue j1 6 j \<noteq> []"
  shows "proc_step mq_object 0 w \<noteq> None"
proof -
  have p: "procs w ! 0 = at_server j1 (server_got j) ! i" "length (procs w) = 2" "msgs (shared w) = in_queue j1 i j"
    using st by (simp_all add: mq_state_def)
  have "length (in_queue j1 i j) < 10" by (simp add: in_queue_def Let_def)
  moreover have "i = 0 \<or> i = 1 \<or> i = 2 \<or> i = 3 \<or> i = 4 \<or> i = 5 \<or> i = 6 \<or> i = 7 \<or> i = 8 \<or> i = 9"
    using assms(2) by presburger
  ultimately show ?thesis
    using p assms(3) by (elim disjE) (simp_all add: proc_step_def at_server_def mq_server_def case_or_quit Let_def split: list.split)
qed

lemma client_can:
  assumes st: "mq_state j1 j2 i j w" and "j < 8 \<or> j = 9" "j = 1 \<Longrightarrow> in_queue j1 i 1 \<noteq> []"
  shows "proc_step mq_object 1 w \<noteq> None"
proof -
  have p: "procs w ! 1 = at_client j2 (stamped ''Hi!'' j1) ! j" "length (procs w) = 2" "msgs (shared w) = in_queue j1 i j"
    using st by (simp_all add: mq_state_def)
  have "length (in_queue j1 i j) < 10" by (simp add: in_queue_def Let_def)
  moreover have "j = 0 \<or> j = 1 \<or> j = 2 \<or> j = 3 \<or> j = 4 \<or> j = 5 \<or> j = 6 \<or> j = 7 \<or> j = 9"
    using assms(2) by presburger
  ultimately show ?thesis
    using p assms(3) by (elim disjE) (simp_all add: proc_step_def at_client_def mq_client_def case_or_quit Let_def split: list.split)
qed

lemma mq_stuck:
  assumes st: "mq_state j1 j2 i j w" and stuck: "stuck (proc_step mq_object) w"
  shows "i = 10 \<and> (j = 1 \<or> j = 8 \<or> j = 10)"
proof -
  have b: "i \<le> 10" "j \<le> 10" "got_it j \<longrightarrow> 2 \<le> i \<and> (6 < i \<longrightarrow> 6 \<le> j)" "j = 1 \<longrightarrow> 1 \<le> i" using st by (simp_all add: mq_state_def)
  have s: "i = 10 \<or> i = 6 \<and> in_queue j1 6 j = []"
    using server_can [OF st] stuck b(1) by (force simp: stuck_def)
  have c: "j = 8 \<or> j = 10 \<or> j = 1 \<and> in_queue j1 i 1 = []"
    using client_can [OF st] stuck b(2) by (force simp: stuck_def)
  from s c show ?thesis by (auto simp: in_queue_def got_it_def Let_def split: if_splits)
qed

section \<open>Properties\<close>

text \<open>
  C34: the System V dialogue cannot go wrong, because the two directions have types of their own:
  every run of the two processes ends within 17 steps, and a run that cannot go on has the server
  greeted, answered and the queue removed; or the client came before the queue, gave up, and the
  server waits.
\<close>

theorem sysv_dialogue:
  assumes "length j1 = MAX_SIZE" "length j2 = MAX_SIZE" "run (proc_step sysv_object) es (sysv_start j1 j2) = Some w"
  shows "length es \<le> 17 \<and> (stuck (proc_step sysv_object) w \<longrightarrow> sysv_end w \<or> sysv_early w)"
  by (rule side_by_side.all_ends_run [OF sysv_paths [OF assms(1,2)] assms(3)]) (simp add: sysv_start_def)

lemma sysv_dialogue_witness:
  "ends_in (\<lambda>w. sysv_end w \<or> sysv_early w)
    (run (proc_step sysv_object) [0, 0, 0, 0, 1, 1, 1, 1, 1, 1, 0, 0, 0] (sysv_start zeros zeros))"
  by (rule ends_in_mono [OF sysv_run_stuck]) (use sysv_dialogue [OF zeros_length zeros_length] in blast)

text \<open>
  C35: over the POSIX queue, which has one direction only, the server takes its own greeting for
  the answer unless the client has taken it before: in every run that cannot go on, the queue is
  gone, and either both messages were delivered, or the server received "Hi!" and the client has
  given up or waits for ever.
\<close>

theorem posix_dialogue_ends:
  assumes "length j1 = MAX_SIZE" "length j2 = MAX_SIZE" "run (proc_step mq_object) es (mq_start j1 j2) = Some w"
    and "stuck (proc_step mq_object) w"
  shows "procs w ! 0 = Halt 0 \<and> \<not> linked (shared w) \<and>
    (lines_of 0 w = [S_sent ''Hi!'', S_got ''Hello!''] \<and> lines_of 1 w = [C_got ''Hi!'', C_sent ''Hello!''] \<and> procs w ! 1 = Halt 0 \<or>
     lines_of 0 w = [S_sent ''Hi!'', S_got ''Hi!''] \<and>
       (lines_of 1 w = [''Client: mq_open''] \<and> procs w ! 1 = Halt 1 \<or>
        lines_of 1 w = [] \<and> (\<exists>k. procs w ! 1 = Call (Mq_receive MAX_SIZE) k)))"
proof -
  obtain i j where st: "mq_state j1 j2 i j w"
    using posix_dialogue.run_inv [OF _ assms(3)] mq_state_start assms(1,2) by blast
  have e: "i = 10" "j = 1 \<or> j = 8 \<or> j = 10" using mq_stuck [OF st assms(4)] by simp_all
  from e(2) show ?thesis
  proof (elim disjE)
    assume "j = 1"
    then show ?thesis using st e(1)
      by (simp add: mq_state_def at_server_def at_client_def got_it_def server_got_def or_quit_def Let_def)
  qed (use st e(1) in \<open>simp_all add: mq_state_def at_server_def at_client_def got_it_def server_got_def Let_def\<close>)
qed

text \<open>The server reads its own greeting and the client is left waiting.\<close>

lemma posix_dialogue_ends_witness:
  "ends_in (\<lambda>w. procs w ! 0 = Halt 0 \<and> \<not> linked (shared w))
    (run (proc_step mq_object) [0, 1, 0, 0, 0, 0, 0, 0, 0, 0, 0] (mq_start zeros zeros))"
  by (rule ends_in_mono [OF posix_run_stuck]) (use posix_dialogue_ends [OF zeros_length zeros_length] in blast)

end
