(* ===== verification/Processes.thy ===== *)
theory Processes
  imports Syscalls
begin

text \<open>
  \<open>processes/task1\<close> and \<open>processes/task2\<close>: programs that fork and wait. A process is named by its
  place in the tree of forks, \<open>[]\<close> is the first one and \<open>p @ [k]\<close> the child of the \<open>k\<close>th fork of
  \<open>p\<close>; what process ids the kernel hands out is a parameter. A terminal shows a line at once, while
  a file or a pipe gets it when the process exits, and \<open>fork\<close> copies what is still in the buffer.
\<close>

section \<open>Programs that fork\<close>

type_synonym path = "nat list"

text \<open>What \<open>waitpid\<close> stores in \<open>status\<close>; nothing when it fails.\<close>

datatype wait_result = Exited_with int | Signaled | Wait_failed

datatype proc = Exit int | Crash stop | Printf string proc | Perror string proc | Fork "int \<Rightarrow> proc"
  | Getpid "nat \<Rightarrow> proc" | Getppid "nat \<Rightarrow> proc" | Waitpid int "wait_result \<Rightarrow> proc"

definition pids :: "string \<Rightarrow> nat \<Rightarrow> nat \<Rightarrow> string" where
  "pids who a b = who @ '': PID = '' @ dec a @ '', PPID = '' @ dec b @ nl"

text \<open>The line a child starts with, and \<open>%d\<close> of an \<open>int\<close>.\<close>

definition print_pids :: "string \<Rightarrow> proc \<Rightarrow> proc" where
  "print_pids who p = Getpid (\<lambda>a. Getppid (\<lambda>b. Printf (pids who a b) p))"

definition dec_int :: "int \<Rightarrow> string" where
  "dec_int n = (if n < 0 then CHR ''-'' # dec (nat (- n)) else dec (nat n))"

definition task1_main :: proc where
  "task1_main = Fork (\<lambda>pid.
     if pid < 0 then Perror ''fork failed'' (Exit 1)
     else if pid = 0 then print_pids ''Child Process'' (Exit 0)
     else Getpid (\<lambda>me. Printf (''Parent Process: PID = '' @ dec me @ '', Child PID = '' @ dec_int pid @ nl)
       (Waitpid pid (\<lambda>st. case st of
          Exited_with n \<Rightarrow> Printf (''Child exited with status = '' @ dec_int n @ nl) (Exit 0)
        | Signaled \<Rightarrow> Printf (''Child did not exit successfully'' @ nl) (Exit 0)
        | Wait_failed \<Rightarrow> Crash Uninit_Read))))"

definition exited_line :: "int \<Rightarrow> int \<Rightarrow> string" where
  "exited_line pid n = ''Child PID = '' @ dec_int pid @ '' exited with status = '' @ dec_int n @ nl"

text \<open>What follows the call is an argument.\<close>

definition create_child_process :: "proc \<Rightarrow> proc" where
  "create_child_process rest = Fork (\<lambda>pid.
     if pid < 0 then Perror ''fork failed'' (Exit 1)
     else if pid = 0 then print_pids ''Child Process'' (Exit 0)
     else Waitpid pid (\<lambda>st. case st of
          Exited_with n \<Rightarrow> Printf (exited_line pid n) rest
        | Signaled \<Rightarrow> Printf (''Child PID = '' @ dec_int pid @ '' did not exit successfully'' @ nl) rest
        | Wait_failed \<Rightarrow> Crash Uninit_Read))"

definition task2_main :: proc where
  "task2_main = Fork (\<lambda>pid1.
     if pid1 < 0 then Perror ''fork failed'' (Exit 1)
     else if pid1 = 0 then print_pids ''Process1'' (create_child_process (create_child_process (Exit 0)))
     else Fork (\<lambda>pid2.
       if pid2 < 0 then Perror ''fork failed'' (Exit 1)
       else if pid2 = 0 then print_pids ''Process2'' (create_child_process (Exit 0))
       else Waitpid pid1 (\<lambda>_. Waitpid pid2 (\<lambda>_.
         Getpid (\<lambda>me. Printf (''Parent Process: PID = '' @ dec me @ nl) (Exit 0))))))"

section \<open>The kernel\<close>

text \<open>The process ids, the parent of the first process, which forks succeed, and where the output goes.\<close>

record host =
  pid_of :: "path \<Rightarrow> nat"
  shell :: nat
  fork_ok :: "path \<Rightarrow> bool"
  tty :: bool

text \<open>A process: what it does next, how often it has forked, its unwritten lines, its exit status.\<close>

record process =
  code :: proc
  forks :: nat
  unwritten :: "string list"
  ended :: "int option"

record os =
  table :: "path \<Rightarrow> process option"
  written :: "path \<Rightarrow> string list"
  errors :: "path \<Rightarrow> string list"

definition boot :: "proc \<Rightarrow> os" where
  "boot p = \<lparr>table = [[] \<mapsto> \<lparr>code = p, forks = 0, unwritten = [], ended = None\<rparr>],
     written = (\<lambda>_. []), errors = (\<lambda>_. [])\<rparr>"

text \<open>
  What a process does in one step: it becomes another process, possibly with one child put into the
  table or taken out of it, and writes lines to its output and its error output.
\<close>

type_synonym move = "process \<times> (nat \<times> process option) option \<times> string list \<times> string list"

fun commit :: "path \<Rightarrow> move \<Rightarrow> os \<Rightarrow> os" where
  "commit p (y, kid, out, err) s = s\<lparr>
     table := (case kid of None \<Rightarrow> (table s)(p \<mapsto> y) | Some (k, z) \<Rightarrow> (table s)(p \<mapsto> y, p @ [k] := z)),
     written := (written s)(p := written s p @ out), errors := (errors s)(p := errors s p @ err)\<rparr>"

text \<open>
  The calls of process \<open>p\<close> in state \<open>x\<close>; \<open>kids\<close> are its children in the table. A process may not end
  while a child is in the table, since \<open>getppid\<close> of the child would then answer with another
  process; that no run is held up by this is part of what is proved.
\<close>

definition proc_exit :: "process \<Rightarrow> int \<Rightarrow> (nat \<Rightarrow> process option) \<Rightarrow> move option" where
  "proc_exit x n kids = (if list_ex (\<lambda>j. kids j \<noteq> None) [0..<forks x] then None
     else Some (x\<lparr>unwritten := [], ended := Some n\<rparr>, None, unwritten x, []))"

definition proc_wait :: "host \<Rightarrow> path \<Rightarrow> process \<Rightarrow> int \<Rightarrow> (wait_result \<Rightarrow> proc) \<Rightarrow> (nat \<Rightarrow> process option) \<Rightarrow> move option" where
  "proc_wait h p x c k kids =
     (case find (\<lambda>j. int (pid_of h (p @ [j])) = c \<and> kids j \<noteq> None) [0..<forks x] of
       None \<Rightarrow> Some (x\<lparr>code := k Wait_failed\<rparr>, None, [], [])
     | Some j \<Rightarrow> map_option (\<lambda>n. (x\<lparr>code := k (Exited_with n)\<rparr>, Some (j, None), [], [])) (Option.bind (kids j) ended))"

definition proc_fork :: "host \<Rightarrow> path \<Rightarrow> process \<Rightarrow> (int \<Rightarrow> proc) \<Rightarrow> move" where
  "proc_fork h p x k = (let q = p @ [forks x] in
     if fork_ok h q then (x\<lparr>code := k (int (pid_of h q)), forks := Suc (forks x)\<rparr>,
       Some (forks x, Some \<lparr>code = k 0, forks = 0, unwritten = unwritten x, ended = None\<rparr>), [], [])
     else (x\<lparr>code := k (-1)\<rparr>, None, [], []))"

definition proc_move :: "host \<Rightarrow> path \<Rightarrow> process \<Rightarrow> (nat \<Rightarrow> process option) \<Rightarrow> move option" where
  "proc_move h p x kids = (case code x of
     Exit n \<Rightarrow> proc_exit x n kids
   | Crash e \<Rightarrow> None
   | Printf l q \<Rightarrow> Some (if tty h then (x\<lparr>code := q\<rparr>, None, [l], [])
       else (x\<lparr>code := q, unwritten := unwritten x @ [l]\<rparr>, None, [], []))
   | Perror l q \<Rightarrow> Some (x\<lparr>code := q\<rparr>, None, [], [l])
   | Fork k \<Rightarrow> Some (proc_fork h p x k)
   | Getpid k \<Rightarrow> Some (x\<lparr>code := k (pid_of h p)\<rparr>, None, [], [])
   | Getppid k \<Rightarrow> Some (x\<lparr>code := k (if p = [] then shell h else pid_of h (butlast p))\<rparr>, None, [], [])
   | Waitpid c k \<Rightarrow> proc_wait h p x c k kids)"

definition os_step :: "host \<Rightarrow> path \<Rightarrow> os \<Rightarrow> os option" where
  "os_step h p s = (case table s p of None \<Rightarrow> None | Some x \<Rightarrow> if ended x \<noteq> None then None
     else map_option (\<lambda>m. commit p m s) (proc_move h p x (\<lambda>j. table s (p @ [j]))))"

section \<open>Any order of moves leads to the same end\<close>

text \<open>A process in the table has a living parent that has made it.\<close>

definition tree_ok :: "os \<Rightarrow> bool" where
  "tree_ok s \<longleftrightarrow> (\<forall>p k. table s (p @ [k]) \<noteq> None \<longrightarrow> (\<exists>x. table s p = Some x \<and> k < forks x \<and> ended x = None))"

lemma tree_okD: "tree_ok s \<Longrightarrow> table s (p @ [k]) = Some y \<Longrightarrow> \<exists>x. table s p = Some x \<and> k < forks x \<and> ended x = None"
  by (simp add: tree_ok_def)

lemma tree_ok_none: "tree_ok s \<Longrightarrow> (\<forall>x. table s p = Some x \<longrightarrow> ended x \<noteq> None \<or> forks x \<le> k) \<Longrightarrow> table s (p @ [k]) = None"
  by (metis leD option.exhaust tree_okD)

lemmas move_defs = proc_move_def proc_exit_def proc_wait_def proc_fork_def Let_def

text \<open>The three kinds of move.\<close>

lemma proc_move_cases:
  assumes "proc_move h p x kids = Some (y, kid, out, err)" "ended x = None"
  obtains (own) "kid = None" "ended y = None" "forks y = forks x"
  | (last) n where "kid = None" "ended y = Some n" "forks y = forks x" "\<forall>j < forks x. kids j = None"
  | (reap) j z n where "kid = Some (j, None)" "kids j = Some z" "ended z = Some n" "j < forks x" "forks y = forks x" "ended y = None"
  | (birth) z where "kid = Some (forks x, Some z)" "forks y = Suc (forks x)" "ended y = None" "forks z = 0"
  using assms
  by (auto simp: move_defs list_ex_iff find_Some_iff bind_eq_Some_conv split: proc.splits if_splits option.splits)

lemma os_stepE:
  assumes "os_step h p s = Some t"
  obtains x y kid out err where "table s p = Some x" "ended x = None"
    "proc_move h p x (\<lambda>j. table s (p @ [j])) = Some (y, kid, out, err)" "t = commit p (y, kid, out, err) s"
  using assms by (auto simp: os_step_def split: option.splits if_splits)

lemma tree_ok_step:
  assumes ok: "tree_ok s" and step: "os_step h p s = Some t"
  shows "tree_ok t"
proof -
  obtain x y kid out err where x: "table s p = Some x" "ended x = None"
    and m: "proc_move h p x (\<lambda>j. table s (p @ [j])) = Some (y, kid, out, err)" and t: "t = commit p (y, kid, out, err) s"
    using step by (rule os_stepE)
  from m x(2) show ?thesis
  proof (cases rule: proc_move_cases)
    case own
    then show ?thesis using ok x t by (fastforce simp: tree_ok_def)
  next
    case last
    then show ?thesis using ok x t by (fastforce simp: tree_ok_def)
  next
    case (reap j z n)
    then have "table s (p @ [j] @ [k]) = None" for k using tree_ok_none [OF ok, of "p @ [j]" k] by simp
    then show ?thesis using reap ok x t by (fastforce simp: tree_ok_def)
  next
    case (birth z)
    have "table s (p @ [forks x]) = None" "table s (p @ [forks x] @ [k]) = None" for k
      using ok x tree_ok_none [of s p "forks x"] tree_ok_none [of s "p @ [forks x]" k] by auto
    then show ?thesis using birth ok x t by (fastforce simp: tree_ok_def)
  qed
qed

lemma proc_move_kid:
  assumes "proc_move h p x kids = Some m" "kids k = Some y" "ended y = None"
  shows "proc_move h p x (kids(k \<mapsto> z)) = Some m"
proof -
  have same: "(kids(k \<mapsto> z)) j \<noteq> None \<longleftrightarrow> kids j \<noteq> None" for j using assms(2) by auto
  have "proc_wait h p x c f (kids(k \<mapsto> z)) = Some m" if "proc_wait h p x c f kids = Some m" for c f
    using that assms(2,3) unfolding proc_wait_def same by (auto split: option.splits)
  moreover have "proc_exit x n (kids(k \<mapsto> z)) = proc_exit x n kids" for n
    unfolding proc_exit_def same ..
  ultimately show ?thesis using assms(1) by (auto simp: proc_move_def split: proc.splits)
qed

text \<open>Which child a move touches: a new one, or one that has ended.\<close>

lemma proc_move_touches:
  assumes "proc_move h p x kids = Some (y, Some (k, z), out, err)" "ended x = None" "kids (forks x) = None"
  shows "kids k = None \<or> (\<exists>c. kids k = Some c \<and> ended c \<noteq> None)"
  using assms(1,2) by (cases rule: proc_move_cases) (use assms(3) in auto)

lemma os_frame:
  assumes ok: "tree_ok s" and i: "os_step h i s = Some t" and j: "table s j = Some y" "ended y = None"
    and m: "proc_move h j y (\<lambda>k. table s (j @ [k])) = Some m" and "i \<noteq> j"
  shows "os_step h j t = Some (commit j m t)"
proof -
  obtain x x' kid out err where x: "table s i = Some x" "ended x = None"
    and mi: "proc_move h i x (\<lambda>k. table s (i @ [k])) = Some (x', kid, out, err)" and t: "t = commit i (x', kid, out, err) s"
    using i by (rule os_stepE)
  have fresh: "table s (i @ [forks x]) = None" using tree_ok_none [OF ok] x by simp
  have touch: "table s (i @ [k]) = None \<or> (\<exists>c. table s (i @ [k]) = Some c \<and> ended c \<noteq> None)" if "kid = Some (k, z)" for k z
    using proc_move_touches [OF mi [unfolded that] x(2)] fresh by simp
  have tj: "table t j = Some y"
    using touch j \<open>i \<noteq> j\<close> by (fastforce simp: t split: option.splits)
  have "proc_move h j y (\<lambda>k. table t (j @ [k])) = Some m"
  proof (cases "\<exists>k. i = j @ [k]")
    case True
    then obtain k where k: "i = j @ [k]" by blast
    have "(\<lambda>n. table t (j @ [n])) = (\<lambda>n. table s (j @ [n]))(k \<mapsto> x')"
      by (auto simp: t k split: option.split)
    then show ?thesis using proc_move_kid [OF m] x k by simp
  next
    case False
    have "(\<lambda>n. table t (j @ [n])) = (\<lambda>n. table s (j @ [n]))"
      using False [simplified, THEN spec, THEN not_sym] \<open>i \<noteq> j\<close> by (auto simp: t split: option.split)
    then show ?thesis using m by simp
  qed
  then show ?thesis using tj j(2) by (simp add: os_step_def)
qed

lemma commit_commute:
  assumes "i \<noteq> j" "\<And>k z. kid = Some (k, z) \<Longrightarrow> i @ [k] \<noteq> j" "\<And>k z. kid' = Some (k, z) \<Longrightarrow> j @ [k] \<noteq> i"
  shows "commit i (x, kid, out, err) (commit j (y, kid', out', err') s) = commit j (y, kid', out', err') (commit i (x, kid, out, err) s)"
  using assms by (auto simp: fun_upd_twist split: option.split)

lemma os_diamond:
  assumes ok: "tree_ok s" and i: "os_step h i s = Some t" and j: "os_step h j s = Some u" and "i \<noteq> j"
  shows "\<exists>v. os_step h j t = Some v \<and> os_step h i u = Some v"
proof -
  obtain x x' kid out err where x: "table s i = Some x" "ended x = None"
    and mi: "proc_move h i x (\<lambda>k. table s (i @ [k])) = Some (x', kid, out, err)" and t: "t = commit i (x', kid, out, err) s"
    using i by (rule os_stepE)
  obtain y y' kid' out' err' where y: "table s j = Some y" "ended y = None"
    and mj: "proc_move h j y (\<lambda>k. table s (j @ [k])) = Some (y', kid', out', err')" and u: "u = commit j (y', kid', out', err') s"
    using j by (rule os_stepE)
  have "table s (i @ [forks x]) = None" "table s (j @ [forks y]) = None" using tree_ok_none [OF ok] x y by simp_all
  then have "i @ [k] \<noteq> j" if "kid = Some (k, z)" for k z
    using proc_move_touches [OF mi [unfolded that] x(2)] y by auto
  moreover have "j @ [k] \<noteq> i" if "kid' = Some (k, z)" for k z
    using proc_move_touches [OF mj [unfolded that] y(2)] x \<open>table s (j @ [forks y]) = None\<close> by auto
  ultimately have "commit i (x', kid, out, err) u = commit j (y', kid', out', err') t"
    unfolding t u using \<open>i \<noteq> j\<close> by (intro commit_commute) blast+
  moreover have "os_step h j t = Some (commit j (y', kid', out', err') t)"
    by (rule os_frame [OF ok i y mj \<open>i \<noteq> j\<close>])
  moreover have "os_step h i u = Some (commit i (x', kid, out, err) u)"
    by (rule os_frame [OF ok j x mi]) (use \<open>i \<noteq> j\<close> in simp)
  ultimately show ?thesis by simp
qed

interpretation kernel: commuting "os_step h" tree_ok for h
  by unfold_locales (blast intro: tree_ok_step os_diamond)+

lemma tree_ok_boot: "tree_ok (boot p)"
  by (simp add: tree_ok_def boot_def)

section \<open>The two trees\<close>

text \<open>
  Every \<open>fork\<close> succeeds, process ids are positive, and the two children that one process has at the same
  time have different ones; all other ids may be handed out again.
\<close>

definition good_host :: "host \<Rightarrow> bool" where
  "good_host h \<longleftrightarrow> pid_of h [0] \<noteq> pid_of h [1] \<and>
     list_all (\<lambda>p. 0 < pid_of h p \<and> fork_ok h p) [[], [0], [1], [0, 0], [0, 1], [1, 0]]"

text \<open>What each process has written in the end; \<open>inherited\<close> is what a buffer that is not a terminal's held at \<open>fork\<close>.\<close>

definition inherited :: "host \<Rightarrow> string list \<Rightarrow> string list" where
  "inherited h ls = (if tty h then [] else ls)"

definition task1_lines :: "host \<Rightarrow> path \<Rightarrow> string list" where
  "task1_lines h = (\<lambda>_. [])(
     [] := [''Parent Process: PID = '' @ dec (pid_of h []) @ '', Child PID = '' @ dec (pid_of h [0]) @ nl,
       ''Child exited with status = '' @ dec 0 @ nl],
     [0] := [pids ''Child Process'' (pid_of h [0]) (pid_of h [])])"

definition task2_lines :: "host \<Rightarrow> path \<Rightarrow> string list" where
  "task2_lines h = (let p = pid_of h;
     one = pids ''Process1'' (p [0]) (p []); two = pids ''Process2'' (p [1]) (p []);
     e0 = exited_line (int (p [0, 0])) 0; e1 = exited_line (int (p [0, 1])) 0; e2 = exited_line (int (p [1, 0])) 0 in
   (\<lambda>_. [])(
     [] := [''Parent Process: PID = '' @ dec (p []) @ nl],
     [0] := [one, e0, e1], [1] := [two, e2],
     [0, 0] := inherited h [one] @ [pids ''Child Process'' (p [0, 0]) (p [0])],
     [0, 1] := inherited h [one, e0] @ [pids ''Child Process'' (p [0, 1]) (p [0])],
     [1, 0] := inherited h [two] @ [pids ''Child Process'' (p [1, 0]) (p [1])]))"

definition all_done :: "(path \<Rightarrow> string list) \<Rightarrow> os \<Rightarrow> bool" where
  "all_done ls s \<longleftrightarrow> map_option ended (table s []) = Some (Some 0) \<and> (\<forall>p. p \<noteq> [] \<longrightarrow> table s p = None) \<and> written s = ls \<and> errors s = (\<lambda>_. [])"

lemma all_done_stuck: "all_done ls s \<Longrightarrow> \<forall>p. os_step h p s = None"
proof
  fix p assume "all_done ls s"
  then show "os_step h p s = None"
    by (cases "p = []") (auto simp: all_done_def os_step_def)
qed

definition task1_run :: "path list" where
  "task1_run = [[], [], [], [0], [0], [0], [0], [], [], []]"

definition task2_run :: "path list" where
  "task2_run = [[], [], [0], [0], [0], [0], [0, 0], [0, 0], [0, 0], [0, 0], [0], [0],
     [0], [0, 1], [0, 1], [0, 1], [0, 1], [0], [0], [0],
     [1], [1], [1], [1], [1, 0], [1, 0], [1, 0], [1, 0], [1], [1], [1], [], [], [], [], []]"

lemmas os_run = boot_def os_step_def move_defs print_pids_def create_child_process_def

lemma dec_int_nat: "dec_int (int n) = dec n" "dec_int 0 = dec 0"
  by (simp_all add: dec_int_def)

lemma no_lines: "(\<lambda>_. [])(p := []) = (\<lambda>_. [])"
  by auto

lemma good_hostD:
  assumes "good_host h"
  shows "pid_of h [0] \<noteq> 0" "pid_of h [Suc 0] \<noteq> 0" "pid_of h [0, 0] \<noteq> 0" "pid_of h [0, Suc 0] \<noteq> 0" "pid_of h [Suc 0, 0] \<noteq> 0"
    "fork_ok h [0]" "fork_ok h [Suc 0]" "fork_ok h [0, 0]" "fork_ok h [0, Suc 0]" "fork_ok h [Suc 0, 0]"
    "pid_of h [0] \<noteq> pid_of h [Suc 0]"
  using assms by (simp_all add: good_host_def)

lemma task1_runs:
  assumes "good_host h"
  shows "ends_in (all_done (task1_lines h)) (run (os_step h) task1_run (boot task1_main))"
proof -
  note pid = good_hostD [OF assms]
  show ?thesis
    by (cases "tty h") (simp_all add: task1_run_def task1_main_def os_run pid ends_in_def all_done_def task1_lines_def dec_int_nat no_lines fun_upd_twist)
qed

lemma task2_runs:
  assumes "good_host h"
  shows "ends_in (all_done (task2_lines h)) (run (os_step h) task2_run (boot task2_main))"
proof -
  note pid = good_hostD [OF assms]
  show ?thesis
    by (cases "tty h") (simp_all add: task2_run_def task2_main_def os_run pid ends_in_def all_done_def task2_lines_def inherited_def dec_int_nat no_lines fun_upd_twist)
qed

text \<open>
  C36: whatever the scheduler does and whatever positive process ids the kernel hands out, different
  ones to the two children of \<open>task2\<close>'s first process, when every \<open>fork\<close> succeeds every run of either
  program can be continued to the one same end, after 10 steps of \<open>task1\<close> and 36 of \<open>task2\<close>: all children have ended and have been waited for, none of them is left behind
  by its parent, and each process has written its lines, the one about a child's exit after the child
  has ended, with status 0. To a terminal every line is written once; into a file a child of \<open>task2\<close>
  writes again the lines of its parent that were in the buffer when it was forked.
\<close>

theorem process_tree:
  assumes "good_host h" "(main, ls, n) \<in> {(task1_main, task1_lines h, 10), (task2_main, task2_lines h, 36)}"
    and "run (os_step h) es (boot main) = Some s"
  shows "length es \<le> n \<and> (\<exists>fs t. length es + length fs = n \<and> run (os_step h) fs s = Some t \<and> all_done ls t)"
proof -
  obtain r t where t: "run (os_step h) r (boot main) = Some t" "all_done ls t" "length r = n"
    using assms(2) task1_runs [OF assms(1)] task2_runs [OF assms(1)]
    by (auto elim!: ends_inE simp: task1_run_def task2_run_def simp del: run.simps)
  show ?thesis
    using kernel.same_end [OF tree_ok_boot t(1) all_done_stuck [OF t(2)] assms(3)] t(2,3) by auto
qed

text \<open>A host with process ids made of digits, and the output in a file.\<close>

definition ex_host :: host where
  "ex_host = \<lparr>pid_of = foldl (\<lambda>n k. 10 * n + Suc k) 4, shell = 3, fork_ok = (\<lambda>_. True), tty = False\<rparr>"

theorem process_tree_witness:
  "\<exists>s fs t. run (os_step ex_host) [[], [0], []] (boot task2_main) = Some s \<and> length fs = 33 \<and>
     run (os_step ex_host) fs s = Some t \<and> all_done (task2_lines ex_host) t"
proof -
  have "good_host ex_host" by (simp add: good_host_def ex_host_def)
  moreover obtain s where s: "run (os_step ex_host) [[], [0], []] (boot task2_main) = Some s"
    by (simp add: os_run task2_main_def ex_host_def)
  ultimately show ?thesis
    using process_tree [of ex_host task2_main "task2_lines ex_host" 36 "[[], [0], []]" s] by auto
qed

end
