(* ===== verification/Pipes.thy ===== *)
theory Pipes
  imports Syscalls
begin

text \<open>
  \<open>pipes/task1\<close>, a process that sends its child a message through a pipe, and \<open>pipes/task2\<close>, a server
  and a client that meet at a named pipe. Both run under every interleaving of the two processes.
\<close>

section \<open>A pipe to a child\<close>

datatype pipe_call = Pipe | Pfork | Close_read | Close_write | Read_pipe nat | Write_pipe string | Wait_child

definition child_got :: string where
  "child_got =
     bytes [208, 148, 208, 190, 209, 135, 208, 181, 209, 128, 208, 189, 208, 184, 208, 185, 32, 208,
     191, 209, 128, 208, 190, 209, 134, 208, 181, 209, 129, 209, 129, 32, 208, 191, 208, 190, 208,
     187, 209, 131, 209, 135, 208, 184, 208, 187, 58, 32]"

definition pipe_main :: "char list \<Rightarrow> pipe_call prog" where
  "pipe_main junk = or_quit Pipe ''pipe'' (\<lambda>_. or_quit Pfork ''fork'' (\<lambda>pid.
     if ret pid = 0 then
       Call Close_write (\<lambda>_. Call (Read_pipe 1024) (\<lambda>r. with_str (fill 1024 junk r) (\<lambda>m.
       Out (child_got @ m @ nl) (Call Close_read (\<lambda>_. Halt 0)))))
     else
       Call Close_read (\<lambda>_. Call (Write_pipe (''Hi!'' @ [NUL])) (\<lambda>_.
       Call Close_write (\<lambda>_. Call Wait_child (\<lambda>_. Halt 0))))))"

text \<open>
  The processes, what is in the pipe, who has its ends open, and the output. \<open>can\<close> says which
  of \<open>pipe\<close> and \<open>fork\<close> succeed.
\<close>

record pipe_world =
  progs :: "pipe_call prog list"
  content :: string
  readers :: "nat list"
  writers :: "nat list"
  shown :: "(nat \<times> string) list"

definition pipe_start :: "char list \<Rightarrow> pipe_world" where
  "pipe_start junk = \<lparr>progs = [pipe_main junk], content = [], readers = [], writers = [], shown = []\<rparr>"

fun has_ended :: "'c prog \<Rightarrow> bool" where
  "has_ended (Halt n) = True" | "has_ended (Undef e) = True" | "has_ended _ = False"

text \<open>The reply to a call of process \<open>i\<close> and its effect, \<open>None\<close> while it blocks; \<open>fork\<close> is apart.\<close>

fun pipe_reply :: "(pipe_call \<Rightarrow> bool) \<Rightarrow> nat \<Rightarrow> pipe_call \<Rightarrow> pipe_world \<Rightarrow> (reply \<times> pipe_world) option" where
  "pipe_reply can i Pipe w = Some (if can Pipe then (int_reply 0, w\<lparr>readers := [i], writers := [i]\<rparr>) else (int_reply (-1), w))"
| "pipe_reply can i Pfork w = Some (int_reply (-1), w)"
| "pipe_reply can i Close_read w = Some (int_reply 0, w\<lparr>readers := removeAll i (readers w)\<rparr>)"
| "pipe_reply can i Close_write w = Some (int_reply 0, w\<lparr>writers := removeAll i (writers w)\<rparr>)"
| "pipe_reply can i (Read_pipe n) w =
     (if content w \<noteq> [] then Some (msg_reply (take n (content w)), w\<lparr>content := drop n (content w)\<rparr>)
      else if list_ex (\<lambda>j. \<not> has_ended (progs w ! j)) (writers w) then None
      else Some (int_reply 0, w))"
| "pipe_reply can i (Write_pipe s) w =
     (if list_ex (\<lambda>j. \<not> has_ended (progs w ! j)) (readers w) then Some (int_reply (int (length s)), w\<lparr>content := content w @ s\<rparr>)
      else Some (int_reply (-1), w))"
| "pipe_reply can i Wait_child w = (if list_all has_ended (tl (progs w)) then Some (int_reply 1, w) else None)"

definition pipe_step :: "(pipe_call \<Rightarrow> bool) \<Rightarrow> nat \<Rightarrow> pipe_world \<Rightarrow> pipe_world option" where
  "pipe_step can i w = (if i < length (progs w) then case progs w ! i of
       Out s p \<Rightarrow> Some (w\<lparr>progs := (progs w)[i := p], shown := shown w @ [(i, s)]\<rparr>)
     | Err s p \<Rightarrow> Some (w\<lparr>progs := (progs w)[i := p], shown := shown w @ [(i, s)]\<rparr>)
     | Call c k \<Rightarrow> if c = Pfork \<and> can Pfork then let j = length (progs w) in
           Some (w\<lparr>progs := (progs w)[i := k (int_reply (int j))] @ [k (int_reply 0)],
             readers := readers w @ (if i \<in> set (readers w) then [j] else []),
             writers := writers w @ (if i \<in> set (writers w) then [j] else [])\<rparr>)
         else map_option (\<lambda>(r, v). v\<lparr>progs := (progs w)[i := k r]\<rparr>) (pipe_reply can i c w)
     | _ \<Rightarrow> None else None)"

definition pipe_end :: "(pipe_call \<Rightarrow> bool) \<Rightarrow> pipe_world \<Rightarrow> bool" where
  "pipe_end can w \<longleftrightarrow>
     (if \<not> can Pipe then progs w = [Halt 1] \<and> shown w = [(0, ''pipe'')]
      else if \<not> can Pfork then progs w = [Halt 1] \<and> shown w = [(0, ''fork'')]
      else progs w = [Halt 0, Halt 0] \<and> shown w = [(1, child_got @ ''Hi!'' @ nl)] \<and> content w = [])"

section \<open>A pipe with a name\<close>

datatype fifo_call = Mkfifo | Open_fifo | Read_fifo int nat | Write_fifo int string | Close_fifo int | Unlink_fifo

definition client_got :: string where
  "client_got =
     bytes [208, 154, 208, 187, 208, 184, 208, 181, 208, 189, 209, 130, 32, 208, 191, 208, 190, 208,
     187, 209, 131, 209, 135, 208, 184, 208, 187, 58, 32]"

definition fifo_server :: "fifo_call prog" where
  "fifo_server = Call Mkfifo (\<lambda>_. Call Open_fifo (\<lambda>fd.
     Call (Write_fifo (ret fd) (''Hi!'' @ [NUL])) (\<lambda>_. Call (Close_fifo (ret fd)) (\<lambda>_. Halt 0))))"

definition fifo_client :: "char list \<Rightarrow> fifo_call prog" where
  "fifo_client junk = Call Open_fifo (\<lambda>fd. Call (Read_fifo (ret fd) 1024) (\<lambda>r. with_str (fill 1024 junk r) (\<lambda>m.
     Out (client_got @ m @ nl) (Call (Close_fifo (ret fd)) (\<lambda>_. Call Unlink_fifo (\<lambda>_. Halt 0))))))"

text \<open>
  The named pipe: whether its name is there, who opens it or has it open, whether both ends have met,
  and what is in it. Process 0 writes and process 1 reads.
\<close>

record fifo =
  there :: bool
  opened :: "nat list"
  met :: bool
  inside :: string

fun fifo_object :: "nat \<Rightarrow> fifo_call \<Rightarrow> fifo \<Rightarrow> (reply \<times> fifo) option" where
  "fifo_object i Mkfifo q = Some (int_reply (if there q then -1 else 0), q\<lparr>there := True\<rparr>)"
| "fifo_object i Open_fifo q = (if i \<notin> set (opened q) then Some (int_reply (-1), q) else if met q then Some (int_reply 3, q) else None)"
| "fifo_object i (Read_fifo fd n) q = (if fd < 0 then Some (int_reply (-1), q)
     else if inside q \<noteq> [] then Some (msg_reply (take n (inside q)), q\<lparr>inside := drop n (inside q)\<rparr>)
     else if 0 \<in> set (opened q) then None else Some (int_reply 0, q))"
| "fifo_object i (Write_fifo fd s) q = (if fd < 0 \<or> 1 \<notin> set (opened q) then Some (int_reply (-1), q)
     else Some (int_reply (int (length s)), q\<lparr>inside := inside q @ s\<rparr>))"
| "fifo_object i (Close_fifo fd) q = Some (int_reply (if fd < 0 then -1 else 0), if fd < 0 then q else q\<lparr>opened := removeAll i (opened q)\<rparr>)"
| "fifo_object i Unlink_fifo q = Some (int_reply (if there q then 0 else -1), q\<lparr>there := False\<rparr>)"

text \<open>\<open>open\<close> takes two steps: it finds the name, and it returns when the other end is there as well.\<close>

definition opens :: "nat \<Rightarrow> (fifo_call, fifo) world \<Rightarrow> bool" where
  "opens i w \<longleftrightarrow> i < length (procs w) \<and> there (shared w) \<and> i \<notin> set (opened (shared w)) \<and>
     (case procs w ! i of Call c k \<Rightarrow> c = Open_fifo | _ \<Rightarrow> False)"

definition fifo_step :: "nat \<Rightarrow> (fifo_call, fifo) world \<Rightarrow> (fifo_call, fifo) world option" where
  "fifo_step i w = (if opens i w
     then Some (w\<lparr>shared := (shared w)\<lparr>opened := i # opened (shared w), met := opened (shared w) \<noteq> []\<rparr>\<rparr>)
     else proc_step fifo_object i w)"

definition fifo_start :: "bool \<Rightarrow> char list \<Rightarrow> (fifo_call, fifo) world" where
  "fifo_start e junk = \<lparr>procs = [fifo_server, fifo_client junk],
     shared = \<lparr>there = e, opened = [], met = False, inside = []\<rparr>, screen = []\<rparr>"

definition fifo_end :: "(fifo_call, fifo) world \<Rightarrow> bool" where
  "fifo_end w \<longleftrightarrow> procs w = [Halt 0, Halt 0] \<and> screen w = [(1, client_got @ ''Hi!'' @ nl)] \<and> \<not> there (shared w)"

text \<open>The client has found no name: it shows what its buffer held, and nobody gets the message.\<close>

definition fifo_early :: "char list \<Rightarrow> (fifo_call, fifo) world \<Rightarrow> bool" where
  "fifo_early junk w \<longleftrightarrow>
     (if terminated junk then procs w ! 1 = Halt 0 \<and> screen w = [(1, client_got @ cstr junk @ nl)]
      else procs w ! 1 = Undef Read_Overflow \<and> screen w = []) \<and>
     (procs w ! 0 = Halt 0 \<or> (\<exists>k. procs w ! 0 = Call Open_fifo k))"

section \<open>All runs\<close>

lemma fill_msg_NUL: "NUL \<notin> set s \<Longrightarrow> length s < n \<Longrightarrow> length b = n \<Longrightarrow> with_str (fill n b (msg_reply (s @ [NUL]))) k = k s"
proof -
  assume "NUL \<notin> set s" "length s < n" "length b = n"
  then have "fill n b (msg_reply (s @ [NUL])) = s @ NUL # drop (Suc (length s)) b"
    by (simp add: fill_def msg_reply_def)
  then show "with_str (fill n b (msg_reply (s @ [NUL]))) k = k s"
    using \<open>NUL \<notin> set s\<close> by (simp add: with_str_def get_str_def)
qed

lemma fill_hi: "length b = 1024 \<Longrightarrow> with_str (fill 1024 b (msg_reply [CHR ''H'', CHR ''i'', CHR ''!'', NUL])) k = k ''Hi!''"
  using fill_msg_NUL [of "''Hi!''" 1024 b k] by simp

lemma fill_error [simp]: "fill n b (int_reply (-1)) = b"
  by (simp add: fill_def)

lemma with_str_if: "terminated b \<Longrightarrow> with_str b k = k (cstr b)" "\<not> terminated b \<Longrightarrow> with_str b k = Undef Read_Overflow"
  by (simp_all add: with_str_def get_str_def)

lemma pipe_paths:
  assumes "length junk = 1024"
  shows "all_ends (pipe_step can) (pipe_end can) 10 (pipe_start junk)"
  unfolding pipe_start_def pipe_main_def
  by (cases "can Pipe"; cases "can Pfork")
    (simp_all add: pipe_step_def case_or_quit fill_hi assms Let_def all_ends_0 all_ends_Suc all_ends_numeral pipe_end_def cong: lazy_cong)

lemma fifo_paths:
  assumes "length junk = 1024"
  shows "all_ends fifo_step (\<lambda>w. fifo_end w \<or> \<not> e \<and> fifo_early junk w) 11 (fifo_start e junk)"
  unfolding fifo_start_def fifo_server_def fifo_client_def
  by (cases e; cases "terminated junk")
    (simp_all add: fifo_step_def opens_def proc_step_def fill_hi with_str_if assms Let_def all_ends_0 all_ends_Suc all_ends_numeral
      fifo_end_def fifo_early_def cong: lazy_cong)

text \<open>A program that never forks, and one that forks at most once.\<close>

primrec quiet :: "pipe_call prog \<Rightarrow> bool" where
  "quiet (Halt n) = True" | "quiet (Undef e) = True" | "quiet Running = True"
| "quiet (Out s p) = quiet p" | "quiet (Err s p) = quiet p"
| "quiet (Call c k) = (c \<noteq> Pfork \<and> (\<forall>r. quiet (k r)))"

primrec once :: "pipe_call prog \<Rightarrow> bool" where
  "once (Halt n) = True" | "once (Undef e) = True" | "once Running = True"
| "once (Out s p) = once p" | "once (Err s p) = once p"
| "once (Call c k) = (\<forall>r. if c = Pfork then quiet (k r) else once (k r))"

lemma quiet_once: "quiet p \<Longrightarrow> once p"
  by (induction p) auto

definition pipe_inv :: "pipe_world \<Rightarrow> bool" where
  "pipe_inv w \<longleftrightarrow> (case progs w of [p] \<Rightarrow> once p | [p, q] \<Rightarrow> quiet p \<and> quiet q | _ \<Rightarrow> False)"

lemma pipe_inv_step: "pipe_inv w \<Longrightarrow> pipe_step can i w = Some t \<Longrightarrow> pipe_inv t"
  unfolding pipe_inv_def pipe_step_def
  by (auto simp: Let_def less_Suc_eq split: prog.splits if_splits list.splits) (metis quiet_once)

interpretation pipe: two_processes "pipe_step can" pipe_inv for can
proof unfold_locales
  fix w i t assume w: "pipe_inv w" and s: "pipe_step can i w = Some t"
  show "pipe_inv t" using w s by (rule pipe_inv_step)
  have "length (progs w) \<le> 2" using w by (auto simp: pipe_inv_def split: list.splits)
  then show "i = 0 \<or> i = 1" using s by (auto simp: pipe_step_def split: if_splits)
qed

interpretation fifo: two_processes fifo_step "\<lambda>w. length (procs w) = 2"
proof unfold_locales
  fix w :: "(fifo_call, fifo) world" and i t assume w: "length (procs w) = 2" and s: "fifo_step i w = Some t"
  show "length (procs t) = 2" "i = 0 \<or> i = 1"
    using w s proc_step_two [of fifo_object i w t] by (auto simp: fifo_step_def opens_def split: if_splits)
qed

lemma pipe_inv_start: "pipe_inv (pipe_start junk)"
  by (simp add: pipe_inv_def pipe_start_def pipe_main_def or_quit_def with_str_def split: sum.split)

section \<open>Properties\<close>

text \<open>
  The child of \<open>task1\<close> receives "Hi!" under every interleaving, and the parent ends after it, within
  10 steps; when \<open>pipe\<close> or \<open>fork\<close> fails the program says so and exits with 1.
\<close>

theorem pipe_message:
  assumes "length junk = 1024" "run (pipe_step can) es (pipe_start junk) = Some w"
  shows "length es \<le> 10 \<and> (stuck (pipe_step can) w \<longrightarrow> pipe_end can w)"
  by (rule pipe.all_ends_run [OF pipe_paths [OF assms(1)] assms(2) pipe_inv_start])

definition zeros :: string where "zeros = replicate 1024 NUL"

lemma zeros_ok: "length zeros = 1024" "terminated zeros" "cstr zeros = []"
  by (simp_all add: zeros_def terminated_def cstr_def takeWhile_replicate)

lemma pipe_run_stuck:
  "ends_in (stuck (pipe_step (\<lambda>_. True))) (run (pipe_step (\<lambda>_. True)) [0, 0, 1, 0, 0, 0, 1, 1, 1, 0] (pipe_start zeros))"
  unfolding pipe_start_def pipe_main_def
  by (simp add: pipe_step_def case_or_quit fill_hi zeros_ok Let_def ends_in_def stuck_def cong: lazy_cong)

lemma pipe_message_witness:
  "ends_in (pipe_end (\<lambda>_. True)) (run (pipe_step (\<lambda>_. True)) [0, 0, 1, 0, 0, 0, 1, 1, 1, 0] (pipe_start zeros))"
  by (rule ends_in_mono [OF pipe_run_stuck]) (use pipe_message [OF zeros_ok(1)] in blast)

text \<open>
  C37: server and client of \<open>task2\<close> always meet when the named pipe is there beforehand: the client shows
  "Hi!", and the pipe is removed, within 11 steps. When the server has to make it first, a client that
  comes too early does not stop: it shows what happened to be in its buffer, or reads behind it, and
  the server has lost its message or waits in \<open>open\<close> for ever; nothing else can happen.
\<close>

theorem fifo_dialogue:
  assumes "length junk = 1024" "run fifo_step es (fifo_start e junk) = Some w"
  shows "length es \<le> 11 \<and> (stuck fifo_step w \<longrightarrow> fifo_end w \<or> \<not> e \<and> fifo_early junk w)"
  by (rule fifo.all_ends_run [OF fifo_paths [OF assms(1)] assms(2)]) (simp add: fifo_start_def)

text \<open>A client that comes first and removes the name that the server has made.\<close>

lemma fifo_run_stuck:
  "ends_in (\<lambda>w. stuck fifo_step w \<and> \<not> fifo_end w) (run fifo_step [1, 0, 1, 1, 1, 1, 0, 0, 0] (fifo_start False zeros))"
  unfolding fifo_start_def fifo_server_def fifo_client_def
  by (simp add: fifo_step_def opens_def proc_step_def with_str_if zeros_ok Let_def ends_in_def stuck_def fifo_end_def cong: lazy_cong)

lemma fifo_dialogue_witness:
  "ends_in (fifo_early zeros) (run fifo_step [1, 0, 1, 1, 1, 1, 0, 0, 0] (fifo_start False zeros))"
  by (rule ends_in_mono [OF fifo_run_stuck]) (use fifo_dialogue [OF zeros_ok(1)] in blast)

end
