(* ===== verification/Shared_Memory.thy ===== *)
theory Shared_Memory
  imports Syscalls
begin

text \<open>
  The pairs of \<open>shm\<close>: a server that writes a greeting into shared memory and watches it until it
  changes, and a client that reads the greeting and overwrites it, over POSIX and over System V
  shared memory. Nothing orders the two but memory itself, so every character that \<open>strcpy\<close>,
  \<open>sprintf\<close>, \<open>strcmp\<close> and \<open>printf\<close> touch, from left to right, is a step of its own.
\<close>

section \<open>Programs over shared memory\<close>

definition SHM_SIZE :: nat where "SHM_SIZE = 1024"

datatype shm_call = Shm_open bool | Ftruncate int nat | Mmap int | Shm_unlink
  | Ftok | Shmget bool nat | Shmat int | Shmdt | Shm_rmid
  | Load int nat | Store int nat char

definition load :: "int \<Rightarrow> nat \<Rightarrow> (char \<Rightarrow> shm_call prog) \<Rightarrow> shm_call prog" where
  "load p i k = Call (Load p i) (\<lambda>r. case data r of [] \<Rightarrow> Undef Bad_Address | c # _ \<Rightarrow> k c)"

definition store :: "int \<Rightarrow> nat \<Rightarrow> char \<Rightarrow> shm_call prog \<Rightarrow> shm_call prog" where
  "store p i c rest = Call (Store p i c) (\<lambda>r. if ret r < 0 then Undef Bad_Address else rest)"

text \<open>\<open>strcpy(p + i, s)\<close>, and \<open>sprintf\<close> without conversions; \<open>%s\<close> of \<open>p\<close> with \<open>acc\<close> read already.\<close>

fun store_str :: "int \<Rightarrow> nat \<Rightarrow> string \<Rightarrow> shm_call prog \<Rightarrow> shm_call prog" where
  "store_str p i [] rest = store p i NUL rest"
| "store_str p i (c # cs) rest = store p i c (store_str p (Suc i) cs rest)"

fun load_str :: "int \<Rightarrow> nat \<Rightarrow> string \<Rightarrow> (string \<Rightarrow> shm_call prog) \<Rightarrow> shm_call prog" where
  "load_str p 0 acc k = Undef Read_Overflow"
| "load_str p (Suc n) acc k = load p (length acc) (\<lambda>c. if c = NUL then k acc else load_str p n (acc @ [c]) k)"

text \<open>\<open>strcmp(p + i, s) == 0\<close>.\<close>

fun same_str :: "int \<Rightarrow> nat \<Rightarrow> string \<Rightarrow> (bool \<Rightarrow> shm_call prog) \<Rightarrow> shm_call prog" where
  "same_str p i [] k = load p i (\<lambda>c. k (c = NUL))"
| "same_str p i (x # xs) k = load p i (\<lambda>c. if c = x then same_str p (Suc i) xs k else k False)"

text \<open>\<open>while (strcmp(p, "Hi!") == 0);\<close>, followed for \<open>n\<close> rounds.\<close>

fun watch :: "nat \<Rightarrow> int \<Rightarrow> shm_call prog \<Rightarrow> shm_call prog" where
  "watch 0 p rest = Running"
| "watch (Suc n) p rest = same_str p 0 ''Hi!'' (\<lambda>same. if same then watch n p rest else rest)"

definition waiting :: string where "waiting = ''Waiting for client...'' @ nl"

definition from_client :: "string \<Rightarrow> string" where "from_client m = ''Received from client: '' @ m @ nl"

definition from_server :: "string \<Rightarrow> string" where "from_server m = ''Received from server: '' @ m @ nl"

definition greet_and_wait :: "nat \<Rightarrow> int \<Rightarrow> shm_call prog \<Rightarrow> shm_call prog" where
  "greet_and_wait n p rest = store_str p 0 ''Hi!'' (Out waiting
     (watch n p (load_str p SHM_SIZE [] (\<lambda>m. Out (from_client m) rest))))"

definition read_and_answer :: "int \<Rightarrow> shm_call prog \<Rightarrow> shm_call prog" where
  "read_and_answer p rest = load_str p SHM_SIZE [] (\<lambda>m. Out (from_server m) (store_str p 0 ''Hello!'' rest))"

definition posix_shm_server :: "nat \<Rightarrow> shm_call prog" where
  "posix_shm_server n = Call (Shm_open True) (\<lambda>fd. Call (Ftruncate (ret fd) SHM_SIZE) (\<lambda>_. Call (Mmap (ret fd)) (\<lambda>p.
     greet_and_wait n (ret p) (Call Shm_unlink (\<lambda>_. Halt 0)))))"

definition posix_shm_client :: "shm_call prog" where
  "posix_shm_client = Call (Shm_open False) (\<lambda>fd. Call (Mmap (ret fd)) (\<lambda>p. read_and_answer (ret p) (Halt 0)))"

definition sysv_shm_server :: "nat \<Rightarrow> shm_call prog" where
  "sysv_shm_server n = Call Ftok (\<lambda>_. Call (Shmget True SHM_SIZE) (\<lambda>id. Call (Shmat (ret id)) (\<lambda>p.
     greet_and_wait n (ret p) (Call Shmdt (\<lambda>_. Call Shm_rmid (\<lambda>_. Halt 0))))))"

definition sysv_shm_client :: "shm_call prog" where
  "sysv_shm_client = Call Ftok (\<lambda>_. Call (Shmget False SHM_SIZE) (\<lambda>id. Call (Shmat (ret id)) (\<lambda>p.
     read_and_answer (ret p) (Call Shmdt (\<lambda>_. Halt 0)))))"

section \<open>The memory\<close>

text \<open>
  Whether its name is there, and its characters; new memory is zero. The only call that fails is to open
  or get an object that is not there; the code goes on with the -1, and what it maps then is the address
  -1. The POSIX server maps its object with \<open>PROT_WRITE\<close> alone and reads through the pointer: that a
  page that can be written can be read, as on the usual hardware, is assumed here.
\<close>

record shm =
  named :: bool
  mem :: string

fun shm_object :: "nat \<Rightarrow> shm_call \<Rightarrow> shm \<Rightarrow> (reply \<times> shm) option" where
  "shm_object i (Shm_open create) q = Some (if named q then (int_reply 3, q)
     else if create then (int_reply 3, \<lparr>named = True, mem = []\<rparr>) else (int_reply (-1), q))"
| "shm_object i (Ftruncate fd n) q = Some (int_reply 0, q\<lparr>mem := take n (mem q @ replicate n NUL)\<rparr>)"
| "shm_object i (Mmap fd) q = Some (int_reply (if fd < 0 then -1 else 1), q)"
| "shm_object i Shm_unlink q = Some (int_reply 0, q\<lparr>named := False\<rparr>)"
| "shm_object i Ftok q = Some (int_reply 65, q)"
| "shm_object i (Shmget create n) q = Some (if named q then (int_reply 3, q)
     else if create then (int_reply 3, \<lparr>named = True, mem = replicate n NUL\<rparr>) else (int_reply (-1), q))"
| "shm_object i (Shmat fd) q = Some (int_reply (if fd < 0 then -1 else 1), q)"
| "shm_object i Shmdt q = Some (int_reply 0, q)"
| "shm_object i Shm_rmid q = Some (int_reply 0, q\<lparr>named := False\<rparr>)"
| "shm_object i (Load p j) q = Some (if p < 0 \<or> length (mem q) \<le> j then int_reply (-1) else msg_reply [mem q ! j], q)"
| "shm_object i (Store p j c) q = Some (if p < 0 \<or> length (mem q) \<le> j then (int_reply (-1), q)
     else (int_reply 0, q\<lparr>mem := (mem q)[j := c]\<rparr>))"

datatype ipc = Posix | System_V

fun shm_server :: "ipc \<Rightarrow> nat \<Rightarrow> shm_call prog" where
  "shm_server Posix = posix_shm_server" | "shm_server System_V = sysv_shm_server"

fun shm_client :: "ipc \<Rightarrow> shm_call prog" where
  "shm_client Posix = posix_shm_client" | "shm_client System_V = sysv_shm_client"

definition shm_start :: "ipc \<Rightarrow> nat \<Rightarrow> (shm_call, shm) world" where
  "shm_start v n = \<lparr>procs = [shm_server v n, shm_client v], shared = \<lparr>named = False, mem = []\<rparr>, screen = []\<rparr>"

text \<open>The steps of the server up to its line that it waits.\<close>

definition head_start :: "nat list" where
  "head_start = replicate 8 0"

section \<open>What memory holds while the client writes\<close>

text \<open>Character \<open>i\<close> after the client has stored \<open>a\<close> characters over the greeting.\<close>

definition cell :: "nat \<Rightarrow> nat \<Rightarrow> char" where
  "cell a i = (if i < 7 then (if i < a then ''Hello!'' @ [NUL] else ''Hi!'' @ replicate 4 NUL) ! i else NUL)"

definition mem_ok :: "nat \<Rightarrow> shm \<Rightarrow> bool" where
  "mem_ok a q \<longleftrightarrow> length (mem q) = SHM_SIZE \<and> (\<forall>i < SHM_SIZE. mem q ! i = cell a i)"

lemma size_big: "i \<le> 7 \<Longrightarrow> i < SHM_SIZE"
  by (simp add: SHM_SIZE_def)

lemma mem_ok_load: "mem_ok a q \<Longrightarrow> j \<le> 7 \<Longrightarrow> shm_object i (Load 1 j) q = Some (msg_reply [cell a j], q)"
  using size_big [of j] by (auto simp: mem_ok_def)

lemma mem_ok_store:
  assumes "mem_ok a q" "a < 7" "c = (''Hello!'' @ [NUL]) ! a"
  shows "\<exists>q'. shm_object i (Store 1 a c) q = Some (int_reply 0, q') \<and> mem_ok (Suc a) q' \<and> named q' = named q"
proof -
  have "mem_ok (Suc a) (q\<lparr>mem := (mem q)[a := c]\<rparr>)"
    using assms by (auto simp: mem_ok_def cell_def nth_list_update less_Suc_eq)
  then show ?thesis using assms size_big [of a] by (auto simp: mem_ok_def)
qed

section \<open>The places of the client\<close>

definition client_tail :: "ipc \<Rightarrow> shm_call prog" where
  "client_tail v = (case v of Posix \<Rightarrow> Halt 0 | System_V \<Rightarrow> Call Shmdt (\<lambda>_. Halt 0))"

fun tail_length :: "ipc \<Rightarrow> nat" where
  "tail_length Posix = 0" | "tail_length System_V = 1"

text \<open>Each place comes with the number of steps from there to the end.\<close>

definition client_start :: "ipc \<Rightarrow> (nat \<times> shm_call prog) list" where
  "client_start v = (case v of
     Posix \<Rightarrow> [(14, posix_shm_client), (13, Call (Mmap 3) (\<lambda>p. read_and_answer (ret p) (client_tail v)))]
   | System_V \<Rightarrow> [(16, sysv_shm_client),
       (15, Call (Shmget False SHM_SIZE) (\<lambda>id. Call (Shmat (ret id)) (\<lambda>p. read_and_answer (ret p) (client_tail v)))),
       (14, Call (Shmat 3) (\<lambda>p. read_and_answer (ret p) (client_tail v)))])"

definition client_answer :: "ipc \<Rightarrow> nat \<Rightarrow> shm_call prog" where
  "client_answer v a = store_str 1 a (drop a ''Hello!'') (client_tail v)"

definition client_ok :: "ipc \<Rightarrow> nat \<Rightarrow> nat \<Rightarrow> shm_call prog \<Rightarrow> string list \<Rightarrow> bool" where
  "client_ok v d a p ls \<longleftrightarrow>
     a = 0 \<and> ls = [] \<and> ((d, p) \<in> set (client_start v) \<or>
       (\<exists>l \<le> 3. d = 12 + tail_length v - l \<and>
          p = load_str 1 (SHM_SIZE - l) (take l ''Hi!'') (\<lambda>m. Out (from_server m) (client_answer v 0))) \<or>
       d = 8 + tail_length v \<and> p = Out (from_server ''Hi!'') (client_answer v 0)) \<or>
     ls = [from_server ''Hi!''] \<and> (a \<le> 6 \<and> d = 7 + tail_length v - a \<and> p = client_answer v a \<or>
       a = 7 \<and> (d = tail_length v \<and> p = client_tail v \<or> d = 0 \<and> p = Halt 0))"

lemma client_ok_start: "(d, p) \<in> set (client_start v) \<Longrightarrow> client_ok v d 0 p []"
  by (auto simp: client_ok_def)

lemma client_ok_reads:
  "l \<le> 3 \<Longrightarrow> client_ok v (12 + tail_length v - l) 0
    (load_str 1 (SHM_SIZE - l) (take l ''Hi!'') (\<lambda>m. Out (from_server m) (client_answer v 0))) []"
  by (auto simp: client_ok_def)

lemma client_ok_shown: "client_ok v (8 + tail_length v) 0 (Out (from_server ''Hi!'') (client_answer v 0)) []"
  by (simp add: client_ok_def)

lemma client_ok_reads0: "client_ok v (12 + tail_length v) 0 (read_and_answer 1 (client_tail v)) []"
  using client_ok_reads [of 0 v] by (simp add: read_and_answer_def client_answer_def)

lemma load_str_next: "l < SHM_SIZE \<Longrightarrow> load_str p (SHM_SIZE - l) acc k =
    load p (length acc) (\<lambda>c. if c = NUL then k acc else load_str p (SHM_SIZE - Suc l) (acc @ [c]) k)"
  by (metis Suc_diff_Suc load_str.simps(2))

definition moves_to :: "shm_call prog \<Rightarrow> shm \<Rightarrow> shm_call prog \<Rightarrow> shm \<Rightarrow> string list \<Rightarrow> bool" where
  "moves_to p q p' q' ls \<longleftrightarrow> (case p of
     Out s k \<Rightarrow> p' = k \<and> q' = q \<and> ls = [s]
   | Err s k \<Rightarrow> p' = k \<and> q' = q \<and> ls = [s]
   | Call c k \<Rightarrow> (\<exists>r. shm_object 0 c q = Some (r, q') \<and> p' = k r) \<and> ls = []
   | _ \<Rightarrow> False)"

lemma shm_object_any: "shm_object i c q = shm_object 0 c q"
  by (cases c) auto

lemma moves_load: "mem_ok a q \<Longrightarrow> j \<le> 7 \<Longrightarrow> moves_to (load 1 j k) q p' q' out \<longleftrightarrow> p' = k (cell a j) \<and> q' = q \<and> out = []"
  unfolding moves_to_def load_def using mem_ok_load [of a q j 0] by (auto simp: msg_reply_def simp del: shm_object.simps)

lemma client_start_next:
  assumes "(d, p) \<in> set (client_start v)" "named q" "moves_to p q p' q' out"
  shows "q' = q \<and> out = [] \<and> (\<exists>d'. d = Suc d' \<and>
    ((d', p') \<in> set (client_start v) \<or> d' = 12 + tail_length v \<and> p' = read_and_answer 1 (client_tail v)))"
proof (cases v)
  case Posix
  show ?thesis using assms unfolding Posix client_start_def
    by (auto simp: moves_to_def posix_shm_client_def client_tail_def)
next
  case System_V
  show ?thesis using assms unfolding System_V client_start_def
    by (auto simp: moves_to_def sysv_shm_client_def client_tail_def)
qed

lemma shm_client_moves:
  assumes "client_ok v d a p ls" "mem_ok a q" "a = 0 \<longrightarrow> named q" "moves_to p q p' q' out"
  shows "named q' = named q \<and>
    (\<exists>b d'. (b = a \<or> b = Suc a) \<and> d = Suc d' \<and> mem_ok b q' \<and> client_ok v d' b p' (ls @ out))"
  using assms(1) [unfolded client_ok_def]
proof (elim disjE conjE exE)
  assume a: "a = 0" "ls = []" "(d, p) \<in> set (client_start v)"
  show ?thesis
    using a assms(2-4) client_start_next [OF a(3) _ assms(4)] client_ok_reads0 [of v] client_ok_start by auto
next
  fix l assume a: "a = 0" "ls = []" "l \<le> 3" "d = 12 + tail_length v - l"
    and p: "p = load_str 1 (SHM_SIZE - l) (take l ''Hi!'') (\<lambda>m. Out (from_server m) (client_answer v 0))"
  have big: "l < SHM_SIZE" "l \<le> 7" using size_big [of l] a(3) by simp_all
  have len: "length (take l ''Hi!'') = l" using a(3) by simp
  have p': "p' = (if cell a l = NUL then Out (from_server (take l ''Hi!'')) (client_answer v 0)
      else load_str 1 (SHM_SIZE - Suc l) (take l ''Hi!'' @ [cell a l]) (\<lambda>m. Out (from_server m) (client_answer v 0)))"
    and q: "q' = q" "out = []"
    using assms(4) moves_load [OF assms(2) big(2)] unfolding p load_str_next [OF big(1)] len by simp_all
  have "l = 0 \<or> l = 1 \<or> l = 2 \<or> l = 3" using a(3) by presburger
  then have "client_ok v (11 + tail_length v - l) 0 p' []"
    unfolding p' a(1) using client_ok_reads [of 1 v] client_ok_reads [of 2 v] client_ok_reads [of 3 v] client_ok_shown [of v]
    by (elim disjE) (simp_all add: cell_def numeral_eq_Suc)
  then show ?thesis using assms(2) a q by (intro conjI exI [of _ 0] exI [of _ "11 + tail_length v - l"]) auto
next
  assume a: "a = 0" "ls = []" "d = 8 + tail_length v" and p: "p = Out (from_server ''Hi!'') (client_answer v 0)"
  then show ?thesis using assms(2,4) by (auto simp: moves_to_def client_ok_def)
next
  assume a: "ls = [from_server ''Hi!'']" "a \<le> 6" "d = 7 + tail_length v - a" and p: "p = client_answer v a"
  have "a = 0 \<or> a = 1 \<or> a = 2 \<or> a = 3 \<or> a = 4 \<or> a = 5 \<or> a = 6" using a(2) by presburger
  then obtain c where c: "c = (''Hello!'' @ [NUL]) ! a" "p = store 1 a c (if a = 6 then client_tail v else client_answer v (Suc a))"
    unfolding p client_answer_def by (elim disjE) (auto simp: numeral_eq_Suc)
  obtain r where r: "shm_object 0 (Store 1 a c) q = Some (int_reply 0, r)" "mem_ok (Suc a) r" "named r = named q"
    using mem_ok_store [OF assms(2) _ c(1), of 0] a(2) by auto
  have "p' = (if a = 6 then client_tail v else client_answer v (Suc a)) \<and> q' = r \<and> out = []"
    using assms(4) c(2) r(1) by (auto simp: moves_to_def store_def simp del: shm_object.simps)
  moreover have "client_ok v (6 + tail_length v - a) (Suc a) (if a = 6 then client_tail v else client_answer v (Suc a)) ls"
    using a by (auto simp: client_ok_def)
  ultimately show ?thesis
    using a r by (intro conjI exI [of _ "Suc a"] exI [of _ "6 + tail_length v - a"]) auto
next
  assume "ls = [from_server ''Hi!'']" "a = 7" "d = tail_length v" "p = client_tail v"
  then show ?thesis using assms(2,4) by (cases v) (auto simp: moves_to_def client_tail_def client_ok_def)
next
  assume "ls = [from_server ''Hi!'']" "a = 7" "p = Halt 0"
  then show ?thesis using assms(4) by (simp add: moves_to_def)
qed

section \<open>The places of the server\<close>

definition server_tail :: "ipc \<Rightarrow> shm_call prog" where
  "server_tail v = (case v of Posix \<Rightarrow> Call Shm_unlink (\<lambda>_. Halt 0)
     | System_V \<Rightarrow> Call Shmdt (\<lambda>_. Call Shm_rmid (\<lambda>_. Halt 0)))"

definition server_show :: "ipc \<Rightarrow> shm_call prog" where
  "server_show v = load_str 1 SHM_SIZE [] (\<lambda>m. Out (from_client m) (server_tail v))"

text \<open>In the loop, with \<open>i\<close> characters found equal and \<open>k\<close> rounds left.\<close>

definition compare :: "ipc \<Rightarrow> nat \<Rightarrow> nat \<Rightarrow> shm_call prog" where
  "compare v k i = same_str 1 i (drop i ''Hi!'') (\<lambda>same. if same then watch k 1 (server_show v) else server_show v)"

lemma compare_next:
  "i < 3 \<Longrightarrow> compare v k i = load 1 i (\<lambda>c. if c = ''Hi!'' ! i then compare v k (Suc i) else server_show v)"
  "compare v k 3 = load 1 3 (\<lambda>c. if c = NUL then watch k 1 (server_show v) else server_show v)"
proof -
  assume "i < 3"
  then have "i = 0 \<or> i = 1 \<or> i = 2" by presburger
  then show "compare v k i = load 1 i (\<lambda>c. if c = ''Hi!'' ! i then compare v k (Suc i) else server_show v)"
    by (elim disjE) (simp_all add: compare_def numeral_eq_Suc cong: if_cong)
qed (simp add: compare_def numeral_eq_Suc)

lemma watch_compare: "watch (Suc k) 1 (server_show v) = compare v k 0"
  by (simp add: compare_def)

text \<open>A difference to the greeting means that two characters of the answer are there.\<close>

lemma cell_differs: "i < 3 \<Longrightarrow> cell a i \<noteq> ''Hi!'' ! i \<Longrightarrow> 2 \<le> a" "cell a 3 \<noteq> NUL \<Longrightarrow> 2 \<le> a"
proof -
  assume i: "i < 3" "cell a i \<noteq> ''Hi!'' ! i"
  then have "i = 0 \<or> i = 1 \<or> i = 2" by presburger
  then show "2 \<le> a" using i(2) by (elim disjE) (auto simp: cell_def split: if_splits)
qed (auto simp: cell_def split: if_splits)

text \<open>What the server can have read of the string in memory, and what the whole string can be.\<close>

definition partial :: "string set" where
  "partial = {[], ''H'', ''He'', ''Hel'', ''He!'', ''Hell'', ''He!l'', ''Hello'', ''He!lo'', ''Hello!'', ''He!lo!''}"

definition torn :: "string set" where
  "torn = {''He!'', ''Hel'', ''Hell'', ''He!l'', ''Hello'', ''He!lo'', ''Hello!'', ''He!lo!''}"

text \<open>\<open>m\<close> rounds of the loop, at least, are left; \<open>a\<close> characters of the answer have been stored.\<close>

inductive server_ok :: "ipc \<Rightarrow> nat \<Rightarrow> nat \<Rightarrow> shm_call prog \<Rightarrow> string list \<Rightarrow> bool" for v m a where
  comparing: "i \<le> 3 \<Longrightarrow> m \<le> k \<Longrightarrow> server_ok v m a (compare v k i) [waiting]"
| reading: "2 \<le> a \<Longrightarrow> acc \<in> partial \<Longrightarrow> (3 < length acc \<longrightarrow> length acc \<le> a) \<Longrightarrow>
    server_ok v m a (load_str 1 (SHM_SIZE - length acc) acc (\<lambda>m. Out (from_client m) (server_tail v))) [waiting]"
| showing: "2 \<le> a \<Longrightarrow> x \<in> torn \<Longrightarrow> server_ok v m a (Out (from_client x) (server_tail v)) [waiting]"
| leaving: "2 \<le> a \<Longrightarrow> x \<in> torn \<Longrightarrow> p \<in> {server_tail v, Call Shm_rmid (\<lambda>_. Halt 0), Halt 0} \<Longrightarrow> server_ok v m a p [waiting, from_client x]"

lemma server_ok_mono: "server_ok v m a p ls \<Longrightarrow> a \<le> b \<Longrightarrow> n \<le> m \<Longrightarrow> server_ok v n b p ls"
  by (induction rule: server_ok.induct) (auto intro: server_ok.intros)

lemma server_show_ok: "2 \<le> a \<Longrightarrow> server_ok v m a (server_show v) [waiting]"
  using reading [of a "[]" v m] by (simp add: server_show_def partial_def)

lemma watch_ok: "m < k \<Longrightarrow> server_ok v m a (watch k 1 (server_show v)) [waiting]"
proof (cases k)
  case (Suc n)
  assume "m < k"
  then show ?thesis unfolding Suc watch_compare by (intro comparing) simp_all
qed simp

lemma cell_table:
  "cell a 0 = CHR ''H''" "cell a (Suc 0) = (if 2 \<le> a then CHR ''e'' else CHR ''i'')"
  "cell a (Suc (Suc 0)) = (if 3 \<le> a then CHR ''l'' else CHR ''!'')"
  "cell a (Suc (Suc (Suc 0))) = (if 4 \<le> a then CHR ''l'' else NUL)"
  "cell a (Suc (Suc (Suc (Suc 0)))) = (if 5 \<le> a then CHR ''o'' else NUL)"
  "cell a (Suc (Suc (Suc (Suc (Suc 0))))) = (if 6 \<le> a then CHR ''!'' else NUL)"
  "cell a (Suc (Suc (Suc (Suc (Suc (Suc 0)))))) = NUL"
  by (auto simp: cell_def)

lemma torn_next:
  assumes "2 \<le> a" "acc \<in> partial" "3 < length acc \<longrightarrow> length acc \<le> a"
  shows "if cell a (length acc) = NUL then acc \<in> torn
    else acc @ [cell a (length acc)] \<in> partial \<and> (2 < length acc \<longrightarrow> length acc < a)"
proof -
  have "acc = [] \<or> acc = ''H'' \<or> acc = ''He'' \<or> acc = ''Hel'' \<or> acc = ''He!'' \<or> acc = ''Hell'' \<or> acc = ''He!l'' \<or>
      acc = ''Hello'' \<or> acc = ''He!lo'' \<or> acc = ''Hello!'' \<or> acc = ''He!lo!''"
    using assms(2) unfolding partial_def by simp
  then show ?thesis
    using assms(1,3) by (elim disjE) (simp_all add: cell_table partial_def torn_def)
qed

lemma partial_length: "acc \<in> partial \<Longrightarrow> length acc \<le> 6"
  by (auto simp: partial_def)

lemma shm_server_moves:
  assumes "server_ok v (Suc m) a p ls" "mem_ok a q" "moves_to p q p' q' out"
  shows "mem_ok a q' \<and> (a < 2 \<longrightarrow> named q' = named q) \<and> server_ok v m a p' (ls @ out)"
  using assms(1)
proof cases
  case (comparing i k)
  have le: "i \<le> 7" using comparing by simp
  show ?thesis
  proof (cases "i = 3")
    case True
    have "moves_to (load 1 3 (\<lambda>c. if c = NUL then watch k 1 (server_show v) else server_show v)) q p' q' out"
      using assms(3) unfolding comparing(1) True compare_next(2) .
    then have "p' = (if cell a 3 = NUL then watch k 1 (server_show v) else server_show v)" "q' = q" "out = []"
      using moves_load [OF assms(2)] by simp_all
    then show ?thesis
      using assms(2) comparing(2,4) cell_differs(2) [of a] watch_ok [of m k v a] server_show_ok [of a v m] by auto
  next
    case False
    then have i: "i < 3" using comparing by simp
    have "p' = (if cell a i = ''Hi!'' ! i then compare v k (Suc i) else server_show v)" "q' = q" "out = []"
      using assms(3) moves_load [OF assms(2) le] unfolding comparing(1) compare_next(1) [OF i] by simp_all
    then show ?thesis
      using assms(2) comparing(2,4) i cell_differs(1) [OF i, of a] server_show_ok [of a v m]
        server_ok.comparing [of "Suc i" m k v a] by auto
  qed
next
  case (reading acc)
  have len: "length acc < SHM_SIZE" "length acc \<le> 7" using partial_length [OF reading(4)] size_big [of 6] by simp_all
  have p': "p' = (if cell a (length acc) = NUL then Out (from_client acc) (server_tail v)
      else load_str 1 (SHM_SIZE - Suc (length acc)) (acc @ [cell a (length acc)]) (\<lambda>m. Out (from_client m) (server_tail v)))"
    and q: "q' = q" "out = []"
    using assms(3) moves_load [OF assms(2) len(2)] unfolding reading(1) load_str_next [OF len(1)] by simp_all
  have "server_ok v m a p' [waiting]"
    using torn_next [OF reading(3-5)] server_ok.showing [OF reading(3), of acc v m]
      server_ok.reading [OF reading(3), of "acc @ [cell a (length acc)]" v m] p' by (auto split: if_splits)
  then show ?thesis using assms(2) reading(2) q by simp
next
  case (leaving x)
  have m: "mem_ok a (q\<lparr>named := b\<rparr>)" for b using assms(2) by (simp add: mem_ok_def)
  note stay = server_ok.leaving [OF leaving(2,3)]
  show ?thesis
    using assms(2,3) leaving(1,2,4) m stay by (cases v) (auto simp: moves_to_def server_tail_def)
qed (use assms(2,3) server_ok.leaving in \<open>simp add: moves_to_def\<close>)

text \<open>Who cannot move.\<close>

definition at_end :: "shm_call prog \<Rightarrow> bool" where
  "at_end p \<longleftrightarrow> (case p of Halt n \<Rightarrow> True | Undef e \<Rightarrow> True | Running \<Rightarrow> True | _ \<Rightarrow> False)"

lemma shm_object_total: "shm_object i c q \<noteq> None"
  by (cases c) auto

lemma no_step_at_end: "proc_step shm_object i w = None \<Longrightarrow> i < length (procs w) \<Longrightarrow> at_end (procs w ! i)"
  by (auto simp: proc_step_def at_end_def shm_object_total simp del: shm_object.simps split: prog.splits option.splits)

lemma load_not_end: "\<not> at_end (load p i k)" "\<not> at_end (store p i c r)"
  by (simp_all add: at_end_def load_def store_def)

lemma server_at_end: "server_ok v m a p ls \<Longrightarrow> at_end p \<Longrightarrow> p = Halt 0 \<and> ls \<noteq> [waiting]"
proof (induction rule: server_ok.induct)
  case (comparing i k)
  then show ?case using compare_next load_not_end by (cases "i = 3") auto
next
  case (reading acc)
  then show ?case using load_str_next [of "length acc"] partial_length [of acc] size_big [of "length acc"] load_not_end by auto
next
  case (leaving x p)
  then show ?case by (cases v) (auto simp: at_end_def server_tail_def)
qed (simp_all add: at_end_def)

lemma client_at_end:
  assumes "client_ok v d a p ls" "at_end p"
  shows "p = Halt 0 \<and> d = 0"
proof -
  have no: "\<not> at_end (load_str 1 (SHM_SIZE - l) acc k)" if "l \<le> 3" for l acc k
    using load_str_next [of l] size_big [of l] that load_not_end by auto
  have "\<not> at_end (client_answer v a)" if "a \<le> 6"
  proof -
    have "a = 0 \<or> a = 1 \<or> a = 2 \<or> a = 3 \<or> a = 4 \<or> a = 5 \<or> a = 6" using that by presburger
    then show ?thesis by (elim disjE) (auto simp: client_answer_def load_not_end numeral_eq_Suc)
  qed
  then show ?thesis
    using assms no by (cases v) (auto simp: client_ok_def client_start_def at_end_def posix_shm_client_def sysv_shm_client_def client_tail_def)
qed

section \<open>The two side by side\<close>

text \<open>The server has at least \<open>m\<close> rounds left, the client exactly \<open>d\<close> steps.\<close>

definition shm_inv :: "ipc \<Rightarrow> nat \<Rightarrow> nat \<Rightarrow> (shm_call, shm) world \<Rightarrow> bool" where
  "shm_inv v m d w \<longleftrightarrow> (\<exists>a p q. procs w = [p, q] \<and> server_ok v m a p (lines_of 0 w) \<and> client_ok v d a q (lines_of 1 w) \<and>
     mem_ok a (shared w) \<and> (a = 0 \<longrightarrow> named (shared w)))"

lemma proc_step_moves:
  assumes "proc_step shm_object i w = Some t" "i < length (procs w)"
  shows "\<exists>p out. moves_to (procs w ! i) (shared w) p (shared t) out \<and> procs t = (procs w)[i := p] \<and>
    screen t = screen w @ map (Pair i) out"
  using assms shm_object_any [of i _ "shared w"]
  by (auto simp: proc_step_def moves_to_def simp del: shm_object.simps split: prog.splits option.splits prod.splits)

lemma lines_of_pairs: "screen t = screen w @ map (Pair i) out \<Longrightarrow> lines_of j t = lines_of j w @ (if i = j then out else [])"
  by (auto simp: lines_of_def filter_map o_def)

lemma shm_inv_client:
  assumes inv: "shm_inv v m d w" and step: "proc_step shm_object 1 w = Some t"
  shows "\<exists>e. d = Suc e \<and> shm_inv v m e t"
proof -
  obtain a p q where procs: "procs w = [p, q]" and s: "server_ok v m a p (lines_of 0 w)"
    and c: "client_ok v d a q (lines_of 1 w)" and mem: "mem_ok a (shared w)" "a = 0 \<longrightarrow> named (shared w)"
    using inv by (auto simp: shm_inv_def)
  obtain p' out where "moves_to (procs w ! 1) (shared w) p' (shared t) out" and t: "procs t = (procs w)[1 := p']"
    "screen t = screen w @ map (Pair 1) out"
    using proc_step_moves [OF step] procs by auto
  then have "moves_to q (shared w) p' (shared t) out" using procs by simp
  then obtain b e where b: "named (shared t) = named (shared w)" "b = a \<or> b = Suc a" "mem_ok b (shared t)"
    "client_ok v e b p' (lines_of 1 w @ out)" and e: "d = Suc e"
    using shm_client_moves [OF c mem] by blast
  have "server_ok v m b p (lines_of 0 w)" using server_ok_mono [OF s] b(2) by auto
  then have "shm_inv v m e t" using b mem(2) t procs lines_of_pairs [OF t(2)] unfolding shm_inv_def
    by (intro exI [of _ b] exI [of _ p] exI [of _ p']) auto
  then show ?thesis using e by simp
qed

lemma shm_inv_server:
  assumes inv: "shm_inv v (Suc m) d w" and step: "proc_step shm_object 0 w = Some t"
  shows "shm_inv v m d t"
proof -
  obtain a p q where procs: "procs w = [p, q]" and s: "server_ok v (Suc m) a p (lines_of 0 w)"
    and c: "client_ok v d a q (lines_of 1 w)" and mem: "mem_ok a (shared w)" "a = 0 \<longrightarrow> named (shared w)"
    using inv by (auto simp: shm_inv_def)
  obtain p' out where m: "moves_to (procs w ! 0) (shared w) p' (shared t) out" and t: "procs t = (procs w)[0 := p']"
    "screen t = screen w @ map (Pair 0) out"
    using proc_step_moves [OF step] procs by auto
  have "mem_ok a (shared t) \<and> (a < 2 \<longrightarrow> named (shared t) = named (shared w)) \<and> server_ok v m a p' (lines_of 0 w @ out)"
    by (rule shm_server_moves [OF s mem(1)]) (use m procs in simp)
  then show ?thesis using c mem t procs lines_of_pairs [OF t(2)] unfolding shm_inv_def
    by (intro exI [of _ a] exI [of _ p'] exI [of _ q]) simp
qed

lemma shm_inv_less: "shm_inv v (Suc m) d w \<Longrightarrow> shm_inv v m d w"
  unfolding shm_inv_def using server_ok_mono [of v "Suc m" _ _ _ _ m] by (meson le_refl le_SucI)

lemma shm_inv_step:
  assumes inv: "shm_inv v (Suc m) d w" and step: "proc_step shm_object i w = Some t"
  shows "\<exists>e. d = e + (if i = 1 then 1 else 0) \<and> shm_inv v m e t"
proof -
  have "length (procs w) = 2" using inv by (auto simp: shm_inv_def)
  then have "i = 0 \<or> i = 1" using proc_step_two [OF step] by simp
  then show ?thesis
  proof
    assume i: "i = 0"
    then show ?thesis using shm_inv_server [OF inv] step by simp
  next
    assume i: "i = 1"
    then obtain e where "d = Suc e" "shm_inv v (Suc m) e t" using shm_inv_client [OF inv] step by auto
    then show ?thesis using i shm_inv_less by auto
  qed
qed

text \<open>The client never waits: it can go on until all its steps are done, and then its answer is there.\<close>

lemma client_done: "client_ok v 0 a p ls \<Longrightarrow> a = 7 \<and> p = Halt 0"
  by (cases v) (auto simp: client_ok_def client_start_def client_tail_def)

lemma client_finishes:
  "shm_inv v m d w \<Longrightarrow> \<exists>u. run (proc_step shm_object) (replicate d 1) w = Some u \<and> shm_inv v m 0 u"
proof (induction d arbitrary: w)
  case (Suc d)
  obtain t where t: "proc_step shm_object 1 w = Some t"
  proof (cases "proc_step shm_object 1 w")
    case None
    obtain a p q where "procs w = [p, q]" "client_ok v (Suc d) a q (lines_of 1 w)"
      using Suc.prems by (auto simp: shm_inv_def)
    then show ?thesis using no_step_at_end [OF None] client_at_end [of v "Suc d" a q] by auto
  qed
  then have "shm_inv v m d t" using shm_inv_client [OF Suc.prems t] by auto
  then show ?case using Suc.IH t by simp
qed simp

text \<open>The steps the server has left when the whole answer is in memory.\<close>

fun server_tail_length :: "ipc \<Rightarrow> nat" where
  "server_tail_length Posix = 1" | "server_tail_length System_V = 2"

inductive almost :: "ipc \<Rightarrow> nat \<Rightarrow> shm_call prog \<Rightarrow> bool" for v where
  almost_compare: "i \<le> 3 \<Longrightarrow> almost v ((if i = 0 then 10 else 9) + server_tail_length v) (compare v k i)"
| almost_read: "length acc \<le> 6 \<Longrightarrow> almost v (8 - length acc + server_tail_length v)
    (load_str 1 (SHM_SIZE - length acc) acc (\<lambda>m. Out (from_client m) (server_tail v)))"
| almost_show: "almost v (1 + server_tail_length v) (Out (from_client x) (server_tail v))"
| almost_tail: "almost v (server_tail_length v) (server_tail v)"
| almost_rmid: "almost v 1 (Call Shm_rmid (\<lambda>_. Halt 0))"
| almost_end: "almost v 0 (Halt 0)"

lemma almost_server: "server_ok v m a p ls \<Longrightarrow> \<exists>d \<le> 12. almost v d p"
proof (induction rule: server_ok.induct)
  case (comparing i k)
  then show ?case using almost_compare [of i v k]
    by (intro exI [of _ "(if i = 0 then 10 else 9) + server_tail_length v"]) (cases v; simp)
next
  case (reading acc)
  then show ?case using almost_read [of acc v] partial_length [of acc]
    by (intro exI [of _ "8 - length acc + server_tail_length v"]) (cases v; simp)
next
  case (showing x)
  show ?case using almost_show [of v x] by (intro exI [of _ "1 + server_tail_length v"]) (cases v; simp)
next
  case (leaving x p)
  have "server_tail_length v \<le> 12" by (cases v) simp_all
  then have "\<exists>d \<le> 12. almost v d (server_tail v)" using almost_tail [of v] by blast
  moreover have "\<exists>d \<le> 12. almost v d (Call Shm_rmid (\<lambda>_. Halt 0))"
    using almost_rmid [of v] by (intro exI [of _ 1]) simp
  ultimately show ?case using leaving(3) almost_end [of v] by auto
qed

lemma almost_show_first: "almost v (8 + server_tail_length v) (server_show v)"
  using almost_read [of "[]" v] by (simp add: server_show_def)

lemma cell_full:
  assumes "i \<le> 6"
  shows "cell 7 i = NUL \<longleftrightarrow> i = 6"
proof -
  have "i = 0 \<or> i = 1 \<or> i = 2 \<or> i = 3 \<or> i = 4 \<or> i = 5 \<or> i = 6" using assms by presburger
  then show ?thesis by (elim disjE) (simp_all add: cell_def)
qed

lemma almost_moves:
  assumes "almost v d p" "mem_ok 7 q" "moves_to p q p' q' out"
  shows "\<exists>e. d = Suc e \<and> almost v e p' \<and> mem_ok 7 q'"
  using assms(1)
proof cases
  case (almost_compare i k)
  have i: "i = 0 \<or> i = 1 \<or> i = 2 \<or> i = 3" using almost_compare(3) by presburger
  have "i < 3 \<Longrightarrow> p' = (if cell 7 i = ''Hi!'' ! i then compare v k (Suc i) else server_show v) \<and> q' = q"
    and "i = 3 \<Longrightarrow> p' = (if cell 7 3 = NUL then watch k 1 (server_show v) else server_show v) \<and> q' = q"
    using assms(2,3) unfolding almost_compare(2) by (simp_all add: compare_next moves_load)
  then have "p' = (if i = 0 then compare v k 1 else server_show v) \<and> q' = q"
    using i by (elim disjE) (simp_all add: cell_def numeral_eq_Suc)
  then show ?thesis
    using assms(2) almost_compare(1) almost.almost_compare [of 1 v k] almost_show_first [of v] by auto
next
  case (almost_read acc)
  have len: "length acc < SHM_SIZE" "length acc \<le> 7" using almost_read(3) size_big [of 6] by simp_all
  have p': "p' = (if cell 7 (length acc) = NUL then Out (from_client acc) (server_tail v)
      else load_str 1 (SHM_SIZE - Suc (length acc)) (acc @ [cell 7 (length acc)]) (\<lambda>m. Out (from_client m) (server_tail v)))"
    and q: "q' = q"
    using assms(3) moves_load [OF assms(2) len(2)] unfolding almost_read(2) load_str_next [OF len(1)] by simp_all
  have "cell 7 (length acc) = NUL \<longleftrightarrow> length acc = 6" by (rule cell_full [OF almost_read(3)])
  then show ?thesis
    using p' q assms(2) almost_read(1,3) almost_show [of v acc]
      almost.almost_read [of "acc @ [cell 7 (length acc)]" v]
    by (auto simp: Suc_diff_le intro!: exI [of _ "7 - length acc + server_tail_length v"])
next
  case almost_tail
  have m: "mem_ok 7 (q\<lparr>named := b\<rparr>)" for b using assms(2) by (simp add: mem_ok_def)
  show ?thesis using assms(2,3) m almost_rmid [of v] almost_end [of v] almost_tail
    by (cases v) (auto simp: moves_to_def server_tail_def)
next
  case almost_rmid
  have m: "mem_ok 7 (q\<lparr>named := b\<rparr>)" for b using assms(2) by (simp add: mem_ok_def)
  show ?thesis using assms(2,3) m almost_end [of v] almost_rmid by (auto simp: moves_to_def)
qed (use assms(2,3) almost.almost_tail [of v] in \<open>auto simp: moves_to_def\<close>)

lemma almost_at_end: "almost v d p \<Longrightarrow> at_end p \<Longrightarrow> p = Halt 0 \<and> d = 0"
proof (induction rule: almost.induct)
  case (almost_compare i k)
  then show ?case using compare_next load_not_end by (cases "i = 3") auto
next
  case (almost_read acc)
  then show ?case using load_str_next [of "length acc"] size_big [of 6] load_not_end by auto
next
  case almost_tail
  then show ?case by (cases v) (auto simp: at_end_def server_tail_def)
qed (simp_all add: at_end_def)

lemma almost_0: "almost v 0 p \<Longrightarrow> p = Halt 0"
  by (cases v) (auto elim!: almost.cases split: if_splits)

lemma server_finishes:
  "almost v d p \<Longrightarrow> procs w = [p, Halt 0] \<Longrightarrow> mem_ok 7 (shared w) \<Longrightarrow>
   \<exists>u. run (proc_step shm_object) (replicate d 0) w = Some u \<and> procs u = [Halt 0, Halt 0]"
proof (induction d arbitrary: p w)
  case 0
  then show ?case using almost_0 by simp
next
  case (Suc d)
  obtain t where t: "proc_step shm_object 0 w = Some t"
    using no_step_at_end [of 0 w] almost_at_end [OF Suc.prems(1)] Suc.prems(2) by fastforce
  obtain p' out where "moves_to (procs w ! 0) (shared w) p' (shared t) out" "procs t = (procs w)[0 := p']"
    using proc_step_moves [OF t] Suc.prems(2) by auto
  then have "almost v d p'" "mem_ok 7 (shared t)" "procs t = [p', Halt 0]"
    using almost_moves [OF Suc.prems(1,3), of p' "shared t" out] Suc.prems(2) by auto
  then show ?case using Suc.IH t by simp
qed

lemma both_finish:
  assumes "shm_inv v m d w"
  shows "\<exists>s \<le> 12. \<exists>u. run (proc_step shm_object) (replicate d 1 @ replicate s 0) w = Some u \<and> procs u = [Halt 0, Halt 0]"
proof -
  obtain t where t: "run (proc_step shm_object) (replicate d 1) w = Some t" "shm_inv v m 0 t"
    using client_finishes [OF assms] by blast
  then obtain a p q where p: "procs t = [p, q]" "server_ok v m a p (lines_of 0 t)" "client_ok v 0 a q (lines_of 1 t)" "mem_ok a (shared t)"
    by (auto simp: shm_inv_def)
  obtain s where s: "s \<le> 12" "almost v s p" using almost_server [OF p(2)] by blast
  show ?thesis
    using s t(1) server_finishes [OF s(2), of t] client_done [OF p(3)] p(1,4)
    by (intro exI [of _ s]) (auto simp: run_append)
qed

lemma greeting_in_memory: "mem_ok 0 \<lparr>named = True, mem = (replicate SHM_SIZE NUL)[0 := CHR ''H'', Suc 0 := CHR ''i'', Suc (Suc 0) := CHR ''!'', Suc (Suc (Suc 0)) := NUL]\<rparr>"
  by (auto simp: mem_ok_def cell_def nth_list_update numeral_eq_Suc less_Suc_eq)

lemma shm_inv_run:
  "shm_inv v (m + length es) d w \<Longrightarrow> run (proc_step shm_object) es w = Some t \<Longrightarrow>
   \<exists>e. d = e + count_list es 1 \<and> shm_inv v m e t"
proof (induction es arbitrary: d w)
  case (Cons i es)
  then obtain u where u: "proc_step shm_object i w = Some u" "run (proc_step shm_object) es u = Some t"
    by (auto split: option.splits)
  obtain e where e: "d = e + (if i = 1 then 1 else 0)" "shm_inv v (m + length es) e u"
    using shm_inv_step [OF _ u(1), of v "m + length es" d] Cons.prems(1) by auto
  then show ?case using Cons.IH [OF e(2) u(2)] by auto
qed simp

definition client_steps :: "ipc \<Rightarrow> nat" where
  "client_steps v = (case v of Posix \<Rightarrow> 14 | System_V \<Rightarrow> 16)"

lemma server_watches: "shm_inv v n (client_steps v) \<lparr>procs = [watch (Suc n) 1 (server_show v), shm_client v],
    shared = \<lparr>named = True, mem = (replicate SHM_SIZE NUL)[0 := CHR ''H'', Suc 0 := CHR ''i'', Suc (Suc 0) := CHR ''!'', Suc (Suc (Suc 0)) := NUL]\<rparr>,
    screen = [(0, waiting)]\<rparr>"
proof -
  have "client_ok v (client_steps v) 0 (shm_client v) []"
    by (cases v) (auto simp: client_ok_def client_start_def client_steps_def)
  moreover have "server_ok v n 0 (watch (Suc n) 1 (server_show v)) [waiting]" by (rule watch_ok) simp
  ultimately show ?thesis unfolding shm_inv_def
    by (intro exI [of _ 0] exI [of _ "watch (Suc n) 1 (server_show v)"] exI [of _ "shm_client v"])
      (simp add: lines_of_def greeting_in_memory del: watch.simps)
qed

lemma head_start_run:
  "run (proc_step shm_object) head_start (shm_start v n) = Some \<lparr>procs = [watch n 1 (server_show v), shm_client v],
    shared = \<lparr>named = True, mem = (replicate SHM_SIZE NUL)[0 := CHR ''H'', Suc 0 := CHR ''i'', Suc (Suc 0) := CHR ''!'', Suc (Suc (Suc 0)) := NUL]\<rparr>,
    screen = [(0, waiting)]\<rparr>"
proof -
  have big: "\<not> SHM_SIZE \<le> 0" "\<not> SHM_SIZE \<le> Suc 0" "\<not> SHM_SIZE \<le> Suc (Suc 0)" "\<not> SHM_SIZE \<le> Suc (Suc (Suc 0))" "SHM_SIZE \<noteq> 0"
    by (simp_all add: SHM_SIZE_def)
  show ?thesis
    by (cases v; simp add: head_start_def numeral_eq_Suc shm_start_def proc_step_def posix_shm_server_def sysv_shm_server_def
      greet_and_wait_def store_def big server_show_def cong: lazy_cong; simp add: server_tail_def)
qed

section \<open>Properties\<close>

text \<open>
  C38: once the server says that it waits, the client receives exactly "Hi!", whatever the interleaving
  of the single characters. What the server shows begins with "He" but need not be "Hello!": it is one
  of eight strings that the half-written answer can be read as. Nobody fails, and both end: the client
  can always move and has at most 16 steps in all, and from wherever they are, when the client has made
  its remaining steps, at most 12 steps of the server bring both to their end with status 0. Where neither
  can go on, both have ended and the server has shown something. (The \<open>n\<close> rounds of its loop are more
  than there are steps.)
\<close>

theorem shm_torn:
  assumes "run (proc_step shm_object) (head_start @ es) (shm_start v n) = Some w" "length es < n"
  shows "(lines_of 1 w = [] \<or> lines_of 1 w = [from_server ''Hi!'']) \<and>
    (lines_of 0 w = [waiting] \<or> (\<exists>m \<in> torn. lines_of 0 w = [waiting, from_client m] \<and> lines_of 1 w = [from_server ''Hi!''])) \<and>
    (stuck (proc_step shm_object) w \<longrightarrow> procs w = [Halt 0, Halt 0] \<and> lines_of 0 w \<noteq> [waiting]) \<and>
    (\<exists>c s u. c + count_list es 1 \<le> 16 \<and> s \<le> 12 \<and>
      run (proc_step shm_object) (head_start @ es @ replicate c 1 @ replicate s 0) (shm_start v n) = Some u \<and>
      procs u = [Halt 0, Halt 0])"
proof -
  obtain k where k: "n = Suc (k + length es)" using assms(2) by (metis add.commute less_iff_Suc_add add_Suc_right)
  have "run (proc_step shm_object) es \<lparr>procs = [watch n 1 (server_show v), shm_client v],
      shared = \<lparr>named = True, mem = (replicate SHM_SIZE NUL)[0 := CHR ''H'', Suc 0 := CHR ''i'', Suc (Suc 0) := CHR ''!'', Suc (Suc (Suc 0)) := NUL]\<rparr>,
      screen = [(0, waiting)]\<rparr> = Some w"
    using assms(1) by (simp add: run_append head_start_run del: watch.simps)
  note run = this [unfolded k]
  obtain d where d: "client_steps v = d + count_list es 1" "shm_inv v k d w"
    using shm_inv_run [OF server_watches run] by blast
  have few: "d + count_list es 1 \<le> 16" using d(1) by (cases v) (simp_all add: client_steps_def)
  obtain s u where u: "s \<le> 12" "run (proc_step shm_object) (replicate d 1 @ replicate s 0) w = Some u" "procs u = [Halt 0, Halt 0]"
    using both_finish [OF d(2)] by blast
  have rest: "run (proc_step shm_object) (head_start @ es @ replicate d 1 @ replicate s 0) (shm_start v n) = Some u"
    using run_append [of "proc_step shm_object" "head_start @ es" "replicate d 1 @ replicate s 0" "shm_start v n"] assms(1) u(2) by simp
  obtain a p q where procs: "procs w = [p, q]" and s: "server_ok v k a p (lines_of 0 w)"
    and c: "client_ok v d a q (lines_of 1 w)" and mem: "mem_ok a (shared w)"
    using d(2) by (auto simp: shm_inv_def)
  have lines: "lines_of 1 w = [] \<or> lines_of 1 w = [from_server ''Hi!'']" "0 < a \<longrightarrow> lines_of 1 w = [from_server ''Hi!'']"
    using c by (auto simp: client_ok_def)
  have shown: "lines_of 0 w = [waiting] \<or> 2 \<le> a \<and> (\<exists>m \<in> torn. lines_of 0 w = [waiting, from_client m])"
    using s by cases auto
  have "procs w = [Halt 0, Halt 0] \<and> lines_of 0 w \<noteq> [waiting]" if "stuck (proc_step shm_object) w"
  proof -
    have "at_end p" "at_end q" using that procs no_step_at_end [of 0 w] no_step_at_end [of 1 w] by (simp_all add: stuck_def)
    then show ?thesis using server_at_end [OF s] client_at_end [OF c] procs by simp
  qed
  then have safe: "stuck (proc_step shm_object) w \<longrightarrow> procs w = [Halt 0, Halt 0] \<and> lines_of 0 w \<noteq> [waiting]" by blast
  have both: "lines_of 0 w = [waiting] \<or> (\<exists>m \<in> torn. lines_of 0 w = [waiting, from_client m] \<and> lines_of 1 w = [from_server ''Hi!''])"
    using lines(2) shown by auto
  show ?thesis
    by (intro conjI lines(1) both safe exI [of _ d] exI [of _ s] exI [of _ u]) (fact few u(1) rest u(3))+
qed

text \<open>The client is stopped after two characters of its answer.\<close>

definition torn_run :: "nat list" where
  "torn_run = [1, 1, 1, 1, 1, 1, 1, 1, 1, 0, 0, 0, 0, 0, 0, 0, 1, 1, 1, 1, 1, 0]"

lemma lazy_load: "load p i k = load p i k"
  by simp

lemma case_load: "case_prog h u x o' e f (load p i k) = f (Load p i) (\<lambda>r. case data r of [] \<Rightarrow> Undef Bad_Address | c # _ \<Rightarrow> k c)"
  by (simp add: load_def)

lemma load_first: "load_str p SHM_SIZE acc k = load p (length acc) (\<lambda>c. if c = NUL then k acc else load_str p (SHM_SIZE - Suc 0) (acc @ [c]) k)"
  using load_str_next [of 0 p acc k] size_big [of 0] by simp

lemma SHM_SIZE_pos: "SHM_SIZE \<noteq> 0"
  by (simp add: SHM_SIZE_def)

lemma size_big': "j \<le> 7 \<Longrightarrow> (SHM_SIZE \<le> j) = False"
  using size_big [of j] by simp

lemma torn_run_ends: "ends_in (\<lambda>w. lines_of 0 w = [waiting, from_client ''He!''])
    (run (proc_step shm_object) (head_start @ torn_run) (shm_start Posix (Suc k)))"
proof -
  have "ends_in (\<lambda>w. lines_of 0 w = [waiting, from_client ''He!'']) (run (proc_step shm_object) torn_run
      \<lparr>procs = [watch (Suc k) 1 (server_show Posix), shm_client Posix],
       shared = \<lparr>named = True, mem = (replicate SHM_SIZE NUL)[0 := CHR ''H'', Suc 0 := CHR ''i'', Suc (Suc 0) := CHR ''!'', Suc (Suc (Suc 0)) := NUL]\<rparr>,
       screen = [(0, waiting)]\<rparr>)"
    unfolding watch_compare
    by (simp add: torn_run_def numeral_eq_Suc proc_step_def posix_shm_client_def read_and_answer_def case_load load_first load_str_next store_def
      compare_next server_show_def server_tail_def lines_of_def ends_in_def nth_list_update size_big size_big' SHM_SIZE_pos cong: lazy_cong lazy_load)
  then show ?thesis by (simp only: run_append head_start_run option.case)
qed

theorem shm_torn_witness:
  "ends_in (\<lambda>w. lines_of 0 w = [waiting, from_client ''He!''] \<and> lines_of 1 w = [from_server ''Hi!''])
    (run (proc_step shm_object) (head_start @ torn_run) (shm_start Posix (Suc 99)))"
proof (rule ends_in_mono [OF torn_run_ends])
  fix w assume w: "run (proc_step shm_object) (head_start @ torn_run) (shm_start Posix (Suc 99)) = Some w"
    and l: "lines_of 0 w = [waiting, from_client ''He!'']"
  have len: "length torn_run < Suc 99" by (simp add: torn_run_def)
  have "lines_of 0 w = [waiting] \<or> (\<exists>m \<in> torn. lines_of 0 w = [waiting, from_client m] \<and> lines_of 1 w = [from_server ''Hi!''])"
    by (rule shm_torn [OF w len, THEN conjunct2, THEN conjunct1])
  moreover have "lines_of 0 w \<noteq> [waiting]" unfolding l by simp
  ultimately show "lines_of 0 w = [waiting, from_client ''He!''] \<and> lines_of 1 w = [from_server ''Hi!'']"
    using l by blast
qed

end
