(* ===== verification/Text_File.thy ===== *)
theory Text_File
  imports Syscalls
begin

text \<open>
  \<open>file system/hello\<close>: a program that writes a line into a file and prints the file backwards. It
  runs on a model of the file in which every call on the file may fail, \<open>fclose\<close> included: what \<open>fputs\<close>
  is given stays in a buffer until then. That printing succeeds is taken for granted, as the code does.
\<close>

section \<open>The program\<close>

datatype file_call = Fopen_write | Fopen_read | Fputs string | Fseek_end | Fseek_to nat | Ftell | Fgetc | Fclose

text \<open>The messages are not ASCII; these are their bytes.\<close>

definition write_open_msg :: string where
  "write_open_msg =
     bytes [208, 158, 209, 136, 208, 184, 208, 177, 208, 186, 208, 176, 32, 208, 191, 209, 128, 208,
     184, 32, 208, 190, 209, 130, 208, 186, 209, 128, 209, 139, 209, 130, 208, 184, 208, 184, 32,
     209, 132, 208, 176, 208, 185, 208, 187, 208, 176, 32, 208, 180, 208, 187, 209, 143, 32, 208,
     183, 208, 176, 208, 191, 208, 184, 209, 129, 208, 184]"

definition write_msg :: string where
  "write_msg =
     bytes [208, 158, 209, 136, 208, 184, 208, 177, 208, 186, 208, 176, 32, 208, 191, 209, 128, 208,
     184, 32, 208, 183, 208, 176, 208, 191, 208, 184, 209, 129, 208, 184, 32, 208, 178, 32, 209,
     132, 208, 176, 208, 185, 208, 187]"

definition read_open_msg :: string where
  "read_open_msg =
     bytes [208, 158, 209, 136, 208, 184, 208, 177, 208, 186, 208, 176, 32, 208, 191, 209, 128, 208,
     184, 32, 208, 190, 209, 130, 208, 186, 209, 128, 209, 139, 209, 130, 208, 184, 208, 184, 32,
     209, 132, 208, 176, 208, 185, 208, 187, 208, 176, 32, 208, 180, 208, 187, 209, 143, 32, 209,
     135, 209, 130, 208, 181, 208, 189, 208, 184, 209, 143]"

definition end_msg :: string where
  "end_msg =
     bytes [208, 158, 209, 136, 208, 184, 208, 177, 208, 186, 208, 176, 32, 208, 191, 209, 128, 208,
     184, 32, 208, 191, 208, 181, 209, 128, 208, 181, 208, 188, 208, 181, 209, 137, 208, 181, 208,
     189, 208, 184, 208, 184, 32, 208, 186, 32, 208, 186, 208, 190, 208, 189, 209, 134, 209, 131,
     32, 209, 132, 208, 176, 208, 185, 208, 187, 208, 176]"

definition size_msg :: string where
  "size_msg =
     bytes [208, 158, 209, 136, 208, 184, 208, 177, 208, 186, 208, 176, 32, 208, 191, 209, 128, 208,
     184, 32, 208, 190, 208, 191, 209, 128, 208, 181, 208, 180, 208, 181, 208, 187, 208, 181, 208,
     189, 208, 184, 208, 184, 32, 209, 128, 208, 176, 208, 183, 208, 188, 208, 181, 209, 128, 208,
     176, 32, 209, 132, 208, 176, 208, 185, 208, 187, 208, 176]"

definition backwards_msg :: string where
  "backwards_msg =
     bytes [208, 161, 208, 190, 208, 180, 208, 181, 209, 128, 208, 182, 208, 184, 208, 188, 208,
     190, 208, 181, 32, 209, 132, 208, 176, 208, 185, 208, 187, 208, 176, 32, 209, 129, 32, 208,
     186, 208, 190, 208, 189, 209, 134, 208, 176, 58, 32]"

definition seek_msg :: string where
  "seek_msg =
     bytes [208, 158, 209, 136, 208, 184, 208, 177, 208, 186, 208, 176, 32, 208, 191, 209, 128, 208,
     184, 32, 208, 191, 208, 181, 209, 128, 208, 181, 208, 188, 208, 181, 209, 137, 208, 181, 208,
     189, 208, 184, 208, 184, 32, 208, 191, 208, 190, 32, 209, 132, 208, 176, 208, 185, 208, 187,
     209, 131]"

definition read_msg :: string where
  "read_msg =
     bytes [208, 158, 209, 136, 208, 184, 208, 177, 208, 186, 208, 176, 32, 208, 191, 209, 128, 208,
     184, 32, 209, 135, 209, 130, 208, 181, 208, 189, 208, 184, 208, 184, 32, 209, 132, 208, 176,
     208, 185, 208, 187, 208, 176]"

definition file_text :: string where "file_text = ''String from file''"

text \<open>\<open>perror(m); fclose(file); return 1;\<close>\<close>

definition fail_closing :: "string \<Rightarrow> file_call prog" where
  "fail_closing m = Err m (Call Fclose (\<lambda>_. Halt 1))"

text \<open>The loop over the positions \<open>i - 1\<close> down to 0.\<close>

fun backwards :: "nat \<Rightarrow> file_call prog \<Rightarrow> file_call prog" where
  "backwards 0 rest = rest"
| "backwards (Suc i) rest = Call (Fseek_to i) (\<lambda>r. if ret r \<noteq> 0 then fail_closing seek_msg else
     Call Fgetc (\<lambda>ch. if ret ch = -1 then fail_closing read_msg else
     Out [char_of (nat (ret ch))] (backwards i rest)))"

definition hello_main :: "file_call prog" where
  "hello_main =
     Call Fopen_write (\<lambda>f. if ret f = 0 then Err write_open_msg (Halt 1) else
     Call (Fputs file_text) (\<lambda>r. if ret r = -1 then fail_closing write_msg else
     Call Fclose (\<lambda>_.
     Call Fopen_read (\<lambda>f. if ret f = 0 then Err read_open_msg (Halt 1) else
     Call Fseek_end (\<lambda>r. if ret r \<noteq> 0 then fail_closing end_msg else
     Call Ftell (\<lambda>size. if ret size = -1 then fail_closing size_msg else
     Out backwards_msg (backwards (nat (ret size)) (Out nl (Call Fclose (\<lambda>_. Halt 0))))))))))"

section \<open>The file\<close>

text \<open>
  Its characters, the characters in the buffer of its stream, the position in it, how many handles are
  open, and which of the coming calls fail: \<open>None\<close> is a call that works; behind the end of the list all
  do. When \<open>fputs\<close> or \<open>fclose\<close> fails with \<open>Some k\<close>, \<open>k\<close> characters have still gone into the buffer, or from
  the buffer into the file. \<open>fclose\<close> closes the handle in any case.
\<close>

record text_file =
  chars :: string
  buffer :: string
  position :: nat
  handles :: nat
  faults :: "nat option list"

fun file_works :: "file_call \<Rightarrow> text_file \<Rightarrow> reply \<times> text_file" where
  "file_works Fopen_write s = (int_reply 1, s\<lparr>chars := [], buffer := [], position := 0, handles := Suc (handles s)\<rparr>)"
| "file_works Fopen_read s = (int_reply 1, s\<lparr>buffer := [], position := 0, handles := Suc (handles s)\<rparr>)"
| "file_works (Fputs t) s = (int_reply 1, s\<lparr>buffer := buffer s @ t\<rparr>)"
| "file_works Fseek_end s = (int_reply 0, s\<lparr>position := length (chars s)\<rparr>)"
| "file_works (Fseek_to i) s = (int_reply 0, s\<lparr>position := i\<rparr>)"
| "file_works Ftell s = (int_reply (int (position s)), s)"
| "file_works Fgetc s = (if position s < length (chars s)
     then (int_reply (int (of_char (chars s ! position s))), s\<lparr>position := Suc (position s)\<rparr>) else (int_reply (-1), s))"
| "file_works Fclose s = (int_reply 0, s\<lparr>chars := chars s @ buffer s, buffer := [], handles := handles s - 1\<rparr>)"

fun file_fails :: "nat \<Rightarrow> file_call \<Rightarrow> text_file \<Rightarrow> reply \<times> text_file" where
  "file_fails k Fopen_write s = (int_reply 0, s)"
| "file_fails k Fopen_read s = (int_reply 0, s)"
| "file_fails k (Fputs t) s = (int_reply (-1), s\<lparr>buffer := buffer s @ take k t\<rparr>)"
| "file_fails k Fclose s =
     (int_reply (-1), s\<lparr>chars := chars s @ take k (buffer s), buffer := [], handles := handles s - 1\<rparr>)"
| "file_fails k _ s = (int_reply (-1), s)"

definition next_fault :: "nat option list \<Rightarrow> nat option" where
  "next_fault fs = (case fs of [] \<Rightarrow> None | f # _ \<Rightarrow> f)"

definition file_call :: "file_call \<Rightarrow> text_file \<Rightarrow> reply \<times> text_file" where
  "file_call c s = (let s' = s\<lparr>faults := tl (faults s)\<rparr> in
     case next_fault (faults s) of None \<Rightarrow> file_works c s' | Some k \<Rightarrow> file_fails k c s')"

text \<open>A program alone with its file: what it prints and complains, how it ends, and the file then.\<close>

primrec alone :: "file_call prog \<Rightarrow> text_file \<Rightarrow> string \<times> string list \<times> outcome \<times> text_file" where
  "alone (Halt n) s = ([], [], Exited n, s)"
| "alone (Undef e) s = ([], [], Crashed e, s)"
| "alone Running s = ([], [], Waiting, s)"
| "alone (Out t p) s = (let (out, rest) = alone p s in (t @ out, rest))"
| "alone (Err t p) s = (let (out, err, rest) = alone p s in (out, t # err, rest))"
| "alone (Call c k) s = (let (r, s') = file_call c s in alone (k r) s')"

text \<open>
  What is in the file when it is read: all of the text, or what the third call, the first \<open>fclose\<close>, has
  still written. The calls whose failure the program looks at are the two before, the three that follow
  and two for each character.
\<close>

definition no_fault :: "nat \<Rightarrow> nat option list \<Rightarrow> bool" where
  "no_fault n fs \<longleftrightarrow> list_all (\<lambda>f. f = None) (take n fs)"

definition kept :: "nat option list \<Rightarrow> string" where
  "kept fs = (case next_fault (drop 2 fs) of None \<Rightarrow> file_text | Some k \<Rightarrow> take k file_text)"

definition clean :: "nat option list \<Rightarrow> bool" where
  "clean fs \<longleftrightarrow> no_fault 2 fs \<and> no_fault (3 + 2 * length (kept fs)) (drop 3 fs)"

section \<open>The loop\<close>

lemma no_fault_simps [simp]: "no_fault 0 fs" "no_fault n []" "no_fault (Suc n) (f # fs) \<longleftrightarrow> f = None \<and> no_fault n fs"
  by (simp_all add: no_fault_def)

lemma no_fault_Suc: "no_fault (Suc n) fs \<longleftrightarrow> next_fault fs = None \<and> no_fault n (tl fs)"
  by (cases fs) (simp_all add: next_fault_def)

lemma call_works: "next_fault (faults s) = None \<Longrightarrow> file_call c s = file_works c (s\<lparr>faults := tl (faults s)\<rparr>)"
  and call_fails: "next_fault (faults s) = Some k \<Longrightarrow> file_call c s = file_fails k c (s\<lparr>faults := tl (faults s)\<rparr>)"
  by (simp_all add: file_call_def Let_def)

text \<open>Closing lets go of the handle, and a file that was only read stays as it is.\<close>

definition shut :: "text_file \<Rightarrow> text_file" where
  "shut s = snd (file_call Fclose s)"

lemma shut [simp]: "handles (shut s) = handles s - 1" "buffer s = [] \<Longrightarrow> chars (shut s) = chars s"
  by (simp_all add: shut_def file_call_def Let_def split: option.split)

lemma alone_close [simp]: "alone (Call Fclose (\<lambda>_. p)) s = alone p (shut s)"
  by (simp add: shut_def split_beta)

lemma alone_fail [simp]: "alone (fail_closing m) s = ([], [m], Exited 1, shut s)"
  by (simp add: fail_closing_def del: alone.simps(6))

lemma char_back: "char_of (nat (int (of_char c))) = (c :: char)"
  by simp

lemma rev_take_Suc: "i < length xs \<Longrightarrow> rev (take (Suc i) xs) = xs ! i # rev (take i xs)"
  by (simp add: take_Suc_conv_app_nth)

text \<open>One round of the loop, by where the next faults are.\<close>

lemma backwards_seek:
  "next_fault (faults s) \<noteq> None \<Longrightarrow>
   alone (backwards (Suc i) rest) s = ([], [seek_msg], Exited 1, shut (s\<lparr>faults := tl (faults s)\<rparr>))"
  by (auto simp: call_fails)

lemma backwards_get:
  "next_fault (faults s) = None \<Longrightarrow> next_fault (tl (faults s)) \<noteq> None \<Longrightarrow>
   alone (backwards (Suc i) rest) s =
     ([], [read_msg], Exited 1, shut (s\<lparr>position := i, faults := tl (tl (faults s))\<rparr>))"
  by (auto simp: call_works call_fails)

lemma backwards_step:
  assumes "next_fault (faults s) = None" "next_fault (tl (faults s)) = None" "i < length (chars s)"
  shows "alone (backwards (Suc i) rest) s =
    (let u = s\<lparr>faults := tl (tl (faults s)), position := Suc i\<rparr> in
     (chars s ! i # fst (alone (backwards i rest) u), snd (alone (backwards i rest) u)))"
  using assms by (simp add: call_works char_back split_beta Let_def)

text \<open>
  The loop prints the first \<open>i\<close> characters backwards and goes on with what follows; or a fault stops
  it, and it has printed some of them, complained and closed the file.
\<close>

lemma alone_backwards:
  assumes "i \<le> length (chars s)" "buffer s = []"
  shows "if no_fault (2 * i) (faults s)
    then \<exists>t. alone (backwards i rest) s = (rev (take i (chars s)) @ fst (alone rest t), snd (alone rest t)) \<and>
      chars t = chars s \<and> buffer t = [] \<and> handles t = handles s
    else \<exists>k m t. alone (backwards i rest) s = (take k (rev (take i (chars s))), [m], Exited 1, t) \<and>
      handles t = handles s - 1"
  using assms
proof (induction i arbitrary: s)
  case 0
  then show ?case by (auto intro!: exI [of _ s])
next
  case (Suc i)
  have n: "no_fault (2 * Suc i) (faults s) \<longleftrightarrow> next_fault (faults s) = None \<and> next_fault (tl (faults s)) = None \<and>
      no_fault (2 * i) (tl (tl (faults s)))"
    by (simp add: no_fault_Suc)
  consider (seek) "next_fault (faults s) \<noteq> None"
    | (get) "next_fault (faults s) = None" "next_fault (tl (faults s)) \<noteq> None"
    | (both) "next_fault (faults s) = None" "next_fault (tl (faults s)) = None" by blast
  then show ?case
  proof cases
    case seek
    then show ?thesis using n backwards_seek [OF seek] by (auto intro!: exI [of _ 0])
  next
    case get
    then show ?thesis using n backwards_get [OF get] by (auto intro!: exI [of _ 0])
  next
    case both
    let ?u = "s\<lparr>faults := tl (tl (faults s)), position := Suc i\<rparr>"
    have i: "i < length (chars s)" using Suc.prems by simp
    have step: "alone (backwards (Suc i) rest) s =
        (chars s ! i # fst (alone (backwards i rest) ?u), snd (alone (backwards i rest) ?u))"
      using backwards_step [OF both i] by (simp only: Let_def)
    have IH: "if no_fault (2 * i) (faults ?u)
      then \<exists>t. alone (backwards i rest) ?u = (rev (take i (chars ?u)) @ fst (alone rest t), snd (alone rest t)) \<and>
        chars t = chars ?u \<and> buffer t = [] \<and> handles t = handles ?u
      else \<exists>k m t. alone (backwards i rest) ?u = (take k (rev (take i (chars ?u))), [m], Exited 1, t) \<and>
        handles t = handles ?u - 1"
      by (rule Suc.IH) (use i Suc.prems in simp_all)
    show ?thesis
    proof (cases "no_fault (2 * i) (tl (tl (faults s)))")
      case True
      then show ?thesis using IH step n both i by (auto simp: rev_take_Suc simp del: backwards.simps)
    next
      case False
      then obtain k m t where "alone (backwards i rest) ?u = (take k (rev (take i (chars s))), [m], Exited 1, t)"
        "handles t = handles s - 1"
        using IH by auto
      then show ?thesis using step n False i
        by (auto simp: rev_take_Suc simp del: backwards.simps intro!: exI [of _ "Suc k"])
    qed
  qed
qed

section \<open>The program\<close>

definition hello_rest :: "file_call prog" where
  "hello_rest = Out nl (Call Fclose (\<lambda>_. Halt 0))"

definition hello_read :: "file_call prog" where
  "hello_read =
     Call Fopen_read (\<lambda>f. if ret f = 0 then Err read_open_msg (Halt 1) else
     Call Fseek_end (\<lambda>r. if ret r \<noteq> 0 then fail_closing end_msg else
     Call Ftell (\<lambda>size. if ret size = -1 then fail_closing size_msg else
     Out backwards_msg (backwards (nat (ret size)) hello_rest))))"

text \<open>The first half: a complaint, or the file is closed and holds what \<open>fclose\<close> has written.\<close>

lemma hello_write:
  "if no_fault 2 (faults s)
   then \<exists>u. alone hello_main s = alone hello_read u \<and> chars u = kept (faults s) \<and> buffer u = [] \<and>
     handles u = handles s \<and> faults u = drop 3 (faults s)
   else \<exists>m t. alone hello_main s = ([], [m], Exited 1, t) \<and> handles t = handles s"
proof -
  consider (open_fails) k where "next_fault (faults s) = Some k"
    | (puts_fails) k where "next_fault (faults s) = None" "next_fault (tl (faults s)) = Some k"
    | (good) "next_fault (faults s) = None" "next_fault (tl (faults s)) = None" by (metis not_None_eq)
  then show ?thesis
  proof cases
    case good
    let ?u = "s\<lparr>chars := [], position := 0, handles := Suc (handles s), faults := tl (tl (faults s)), buffer := file_text\<rparr>"
    have "alone hello_main s = alone hello_read (shut ?u)"
      using good unfolding hello_main_def hello_read_def hello_rest_def
      by (simp add: call_works del: alone.simps(6) add: alone.simps(6) [of Fopen_write] alone.simps(6) [of "Fputs t" for t])
    moreover have "chars (shut ?u) = kept (faults s)" "buffer (shut ?u) = []" "faults (shut ?u) = drop 3 (faults s)"
      by (simp_all add: shut_def file_call_def Let_def kept_def drop_Suc numeral_eq_Suc split: option.split)
    ultimately show ?thesis using good by (auto simp: no_fault_Suc numeral_eq_Suc)
  qed (auto simp: no_fault_Suc numeral_eq_Suc hello_main_def call_works call_fails)
qed

text \<open>The second half, on a file that is closed.\<close>

lemma hello_read_back:
  assumes "buffer u = []"
  shows "if no_fault (3 + 2 * length (chars u)) (faults u)
    then \<exists>t. alone hello_read u = (backwards_msg @ rev (chars u) @ nl, [], Exited 0, t) \<and> chars t = chars u \<and> handles t = handles u
    else \<exists>k m t. alone hello_read u = (take k (backwards_msg @ rev (chars u)), [m], Exited 1, t) \<and> handles t = handles u"
proof -
  let ?f1 = "tl (faults u)" let ?f2 = "tl ?f1" let ?f3 = "tl ?f2"
  have n: "no_fault (3 + 2 * length (chars u)) (faults u) \<longleftrightarrow> next_fault (faults u) = None \<and> next_fault ?f1 = None \<and>
      next_fault ?f2 = None \<and> no_fault (2 * length (chars u)) ?f3"
    by (simp add: numeral_3_eq_3 no_fault_Suc)
  consider (early) k where "next_fault (faults u) = Some k \<or> next_fault (faults u) = None \<and> next_fault ?f1 = Some k \<or>
      next_fault (faults u) = None \<and> next_fault ?f1 = None \<and> next_fault ?f2 = Some k"
    | (loop) "next_fault (faults u) = None" "next_fault ?f1 = None" "next_fault ?f2 = None" by (metis not_None_eq)
  then show ?thesis
  proof cases
    case early
    then have "\<exists>m t. alone hello_read u = ([], [m], Exited 1, t) \<and> handles t = handles u"
      by (auto simp: hello_read_def call_works call_fails)
    then show ?thesis using n early by (auto intro!: exI [of _ 0])
  next
    case loop
    let ?v = "u\<lparr>buffer := [], handles := Suc (handles u), position := length (chars u), faults := ?f3\<rparr>"
    have start: "alone hello_read u = (backwards_msg @ fst (alone (backwards (length (chars u)) hello_rest) ?v),
        snd (alone (backwards (length (chars u)) hello_rest) ?v))"
      using loop assms by (simp add: hello_read_def call_works split_beta Let_def)
    have l: "if no_fault (2 * length (chars u)) (faults ?v)
      then \<exists>t. alone (backwards (length (chars u)) hello_rest) ?v =
          (rev (take (length (chars u)) (chars ?v)) @ fst (alone hello_rest t), snd (alone hello_rest t)) \<and>
        chars t = chars ?v \<and> buffer t = [] \<and> handles t = handles ?v
      else \<exists>k m t. alone (backwards (length (chars u)) hello_rest) ?v = (take k (rev (take (length (chars u)) (chars ?v))), [m], Exited 1, t) \<and>
        handles t = handles ?v - 1"
      by (rule alone_backwards) (use assms in simp_all)
    have rest: "alone hello_rest t = (nl, [], Exited 0, shut t)" for t
      by (simp add: hello_rest_def shut_def split_beta)
    show ?thesis
    proof (cases "no_fault (2 * length (chars u)) ?f3")
      case True
      then show ?thesis using l start n loop by (auto simp: rest)
    next
      case False
      then obtain k m t where "alone (backwards (length (chars u)) hello_rest) ?v = (take k (rev (chars u)), [m], Exited 1, t)"
        "handles t = handles u"
        using l by auto
      then have "alone hello_read u = (take (length backwards_msg + k) (backwards_msg @ rev (chars u)), [m], Exited 1, t)"
        using start by simp
      then show ?thesis using False n \<open>handles t = handles u\<close> by (simp del: take_append) blast
    qed
  qed
qed

section \<open>Properties\<close>

text \<open>
  C40: the program prints the label and, backwards, what it finds in the file. If none of the calls that
  it looks at fails, it returns 0 without a complaint, and the file holds the text; if one of them
  fails, whichever it is, it prints no more than the beginning of that, complains once and returns 1. The
  exception is the \<open>fclose\<close> that writes the buffer to the file, which it does not look at: when only
  this one fails, the program prints what has reached the file, perhaps nothing, and returns 0 all the
  same. In all cases it closes every file that it has opened.
\<close>

theorem hello_correct:
  assumes "alone hello_main s = (out, err, oc, t)"
  shows "handles t = handles s \<and>
    (if clean (faults s)
     then oc = Exited 0 \<and> err = [] \<and> out = backwards_msg @ rev (kept (faults s)) @ nl \<and> chars t = kept (faults s)
     else oc = Exited 1 \<and> length err = 1 \<and> (\<exists>k. out = take k (backwards_msg @ rev (kept (faults s))))) \<and>
    (kept (faults s) = file_text \<or> next_fault (drop 2 (faults s)) \<noteq> None)"
proof -
  have k: "kept (faults s) = file_text \<or> next_fault (drop 2 (faults s)) \<noteq> None"
    by (simp add: kept_def split: option.split)
  show ?thesis
  proof (cases "no_fault 2 (faults s)")
    case False
    then show ?thesis using hello_write [of s] assms k by (auto simp: clean_def intro!: exI [of _ 0])
  next
    case True
    then obtain u where u: "alone hello_main s = alone hello_read u" "chars u = kept (faults s)" "buffer u = []"
      "handles u = handles s" "faults u = drop 3 (faults s)"
      using hello_write [of s] by auto
    show ?thesis
      using hello_read_back [OF u(3)] u True assms k by (auto simp: clean_def split: if_splits)
  qed
qed

text \<open>
  The last read fails, on the 38th call; and the buffer is written to a full disk that takes six
  characters.
\<close>

definition ex_file :: "nat option list \<Rightarrow> text_file" where
  "ex_file fs = \<lparr>chars = [], buffer = [], position = 0, handles = 0, faults = fs\<rparr>"

theorem hello_correct_witness:
  "(\<exists>out err t. alone hello_main (ex_file (replicate 37 None @ [Some 0])) = (out, err, Exited 1, t) \<and> handles t = 0) \<and>
   (\<exists>t. alone hello_main (ex_file [None, None, Some 6]) = (backwards_msg @ ''gnirtS'' @ nl, [], Exited 0, t) \<and> handles t = 0)"
proof
  obtain out err oc t where run: "alone hello_main (ex_file (replicate 37 None @ [Some 0])) = (out, err, oc, t)"
    by (metis prod_cases4)
  have "\<not> clean (replicate 37 None @ [Some 0])"
    by (simp add: clean_def kept_def next_fault_def no_fault_def file_text_def numeral_eq_Suc)
  then show "\<exists>out err t. alone hello_main (ex_file (replicate 37 None @ [Some 0])) = (out, err, Exited 1, t) \<and> handles t = 0"
    using hello_correct [OF run] run by (simp add: ex_file_def)
  obtain out err oc t where run: "alone hello_main (ex_file [None, None, Some 6]) = (out, err, oc, t)"
    by (metis prod_cases4)
  have "clean [None, None, Some 6]" "kept [None, None, Some 6] = ''String''"
    by (simp_all add: clean_def kept_def next_fault_def no_fault_def file_text_def numeral_eq_Suc)
  then show "\<exists>t. alone hello_main (ex_file [None, None, Some 6]) = (backwards_msg @ ''gnirtS'' @ nl, [], Exited 0, t) \<and> handles t = 0"
    using hello_correct [OF run] run by (simp add: ex_file_def)
qed

end
