(* ===== verification/Signals.thy ===== *)
theory Signals
  imports Syscalls
begin

text \<open>
  The three programs of \<open>signal\<close>: one catches SIGUSR1, one blocks SIGINT, one blocks SIGUSR1 and waits
  for it. The kernel may send signals at any time; a process and the kernel move by a relation.
\<close>

section \<open>Processes and signals\<close>

datatype signal = SIGUSR1 | SIGINT

datatype life = Alive | Killed signal | Exited int

text \<open>
  The places of the programs: before the system call that sets them up, before the line that says so,
  in the endless loop, before the line about a signal, and in the handler, which has interrupted a place.
\<close>

datatype place = Setup | Announce | Loop | Report | In_handler place

datatype sigprog = Task1 | Task2 | Task3

text \<open>
  \<open>sent\<close> counts the signals sent; a signal that is pending already is not pending twice. \<open>caught\<close> are
  those with a handler.
\<close>

record sigproc =
  place :: place
  life :: life
  pending :: "signal set"
  blocked :: "signal set"
  caught :: "signal set"
  out :: "string list"
  err :: "string list"
  sent :: "signal \<Rightarrow> nat"

definition sig_start :: "sigproc \<Rightarrow> bool" where
  "sig_start s \<longleftrightarrow> s = \<lparr>place = Setup, life = Alive, pending = {}, blocked = {}, caught = {}, out = [], err = [], sent = (\<lambda>_. 0)\<rparr>"

definition got :: string where "got = ''Got SIGUSR1'' @ nl"

definition int_blocked :: string where "int_blocked = ''SIGINT blocked.'' @ nl"

definition usr1_blocked :: string where "usr1_blocked = ''SIGUSR1 blocked'' @ nl"

text \<open>What the handler does, with the return from it.\<close>

definition handle_sigusr1 :: "place \<Rightarrow> sigproc \<Rightarrow> sigproc" where
  "handle_sigusr1 p s = s\<lparr>out := out s @ [got], place := p, blocked := blocked s - {SIGUSR1}\<rparr>"

text \<open>
  One move of \<open>main\<close> of each program; \<open>ok\<close> says whether the system call succeeds. No move: the call
  blocks. \<open>sleep\<close> may return at any time.
\<close>

fun task1_move :: "bool \<Rightarrow> sigproc \<Rightarrow> sigproc option" where
  "task1_move ok s = (case place s of
     Setup \<Rightarrow> Some (if ok then s\<lparr>caught := {SIGUSR1}, place := Loop\<rparr>
       else s\<lparr>err := err s @ [''sigaction failed''], life := Exited 1\<rparr>)
   | Loop \<Rightarrow> Some s
   | _ \<Rightarrow> None)"

fun task2_move :: "bool \<Rightarrow> sigproc \<Rightarrow> sigproc option" where
  "task2_move ok s = (case place s of
     Setup \<Rightarrow> Some (if ok then s\<lparr>blocked := insert SIGINT (blocked s), place := Announce\<rparr>
       else s\<lparr>err := err s @ [''sigprocmask failed''], life := Exited 1\<rparr>)
   | Announce \<Rightarrow> Some (s\<lparr>out := out s @ [int_blocked], place := Loop\<rparr>)
   | Loop \<Rightarrow> Some s
   | _ \<Rightarrow> None)"

fun task3_move :: "bool \<Rightarrow> sigproc \<Rightarrow> sigproc option" where
  "task3_move ok s = (case place s of
     Setup \<Rightarrow> Some (if ok then s\<lparr>blocked := insert SIGUSR1 (blocked s), place := Announce\<rparr>
       else s\<lparr>err := err s @ [''sigprocmask failed''], life := Exited 1\<rparr>)
   | Announce \<Rightarrow> Some (s\<lparr>out := out s @ [usr1_blocked], place := Loop\<rparr>)
   | Loop \<Rightarrow> if \<not> ok then Some (s\<lparr>err := err s @ [''error while waiting for signal'']\<rparr>)
       else if SIGUSR1 \<in> pending s then Some (s\<lparr>pending := pending s - {SIGUSR1}, place := Report\<rparr>)
       else None
   | Report \<Rightarrow> Some (s\<lparr>out := out s @ [got], place := Loop\<rparr>)
   | _ \<Rightarrow> None)"

fun task_move :: "sigprog \<Rightarrow> bool \<Rightarrow> sigproc \<Rightarrow> sigproc option" where
  "task_move Task1 = task1_move" | "task_move Task2 = task2_move" | "task_move Task3 = task3_move"

inductive sig_step :: "sigprog \<Rightarrow> sigproc \<Rightarrow> sigproc \<Rightarrow> bool" for prg where
  send: "life s = Alive \<Longrightarrow>
    sig_step prg s (s\<lparr>pending := insert g (pending s), sent := (sent s)(g := Suc (sent s g))\<rparr>)"
| kill: "life s = Alive \<Longrightarrow> g \<in> pending s \<Longrightarrow> g \<notin> blocked s \<Longrightarrow> g \<notin> caught s \<Longrightarrow> sig_step prg s (s\<lparr>life := Killed g\<rparr>)"
| interrupt: "life s = Alive \<Longrightarrow> g \<in> pending s \<Longrightarrow> g \<notin> blocked s \<Longrightarrow> g \<in> caught s \<Longrightarrow>
    sig_step prg s (s\<lparr>pending := pending s - {g}, blocked := insert g (blocked s), place := In_handler (place s)\<rparr>)"
| handler: "life s = Alive \<Longrightarrow> place s = In_handler p \<Longrightarrow> sig_step prg s (handle_sigusr1 p s)"
| main: "life s = Alive \<Longrightarrow> task_move prg ok s = Some t \<Longrightarrow> sig_step prg s t"

inductive_cases sig_stepE: "sig_step prg s t"

section \<open>The invariant\<close>

text \<open>The lines about SIGUSR1, and whether one is on its way.\<close>

definition reports :: "sigproc \<Rightarrow> nat" where
  "reports s = count_where (\<lambda>l. l = got) (out s)"

fun about_to :: "place \<Rightarrow> bool" where
  "about_to (In_handler p) = True" | "about_to Report = True" | "about_to _ = False"

text \<open>Where each program can be, and what is blocked and caught there.\<close>

fun place_ok :: "sigprog \<Rightarrow> sigproc \<Rightarrow> bool" where
  "place_ok Task1 s = (case place s of
     Setup \<Rightarrow> blocked s = {} \<and> caught s = {}
   | Loop \<Rightarrow> blocked s = {} \<and> caught s = {SIGUSR1}
   | In_handler p \<Rightarrow> p = Loop \<and> blocked s = {SIGUSR1} \<and> caught s = {SIGUSR1}
   | _ \<Rightarrow> False)"
| "place_ok Task2 s = (caught s = {} \<and> (case place s of
     Setup \<Rightarrow> blocked s = {} | Announce \<Rightarrow> blocked s = {SIGINT} | Loop \<Rightarrow> blocked s = {SIGINT} | _ \<Rightarrow> False))"
| "place_ok Task3 s = (caught s = {} \<and> (case place s of
     Setup \<Rightarrow> blocked s = {} | Announce \<Rightarrow> blocked s = {SIGUSR1} | Loop \<Rightarrow> blocked s = {SIGUSR1}
   | Report \<Rightarrow> blocked s = {SIGUSR1} | _ \<Rightarrow> False))"

text \<open>The signal that a program is protected against once it is set up.\<close>

fun guarded :: "sigprog \<Rightarrow> signal" where
  "guarded Task1 = SIGUSR1" | "guarded Task2 = SIGINT" | "guarded Task3 = SIGUSR1"

definition sig_inv :: "sigprog \<Rightarrow> sigproc \<Rightarrow> bool" where
  "sig_inv prg s \<longleftrightarrow> place_ok prg s \<and>
     reports s + of_bool (about_to (place s)) + of_bool (SIGUSR1 \<in> pending s) \<le> sent s SIGUSR1 \<and>
     (0 < sent s SIGUSR1 \<longrightarrow> 0 < reports s \<or> about_to (place s) \<or> SIGUSR1 \<in> pending s) \<and>
     (\<forall>g. life s = Killed g \<longrightarrow> g \<noteq> guarded prg \<or> place s = Setup) \<and>
     (\<forall>n. life s = Exited n \<longrightarrow> place s = Setup \<and> n = 1 \<and> length (err s) = 1) \<and>
     (life s = Alive \<and> place s = Setup \<longrightarrow> err s = [])"

lemma got_differs [simp]: "int_blocked \<noteq> got" "usr1_blocked \<noteq> got"
  by (simp_all add: got_def int_blocked_def usr1_blocked_def)

lemma count_where_append [simp]: "count_where P (xs @ ys) = count_where P xs + count_where P ys"
  by (simp add: count_where_def)

lemma sig_inv_start: "sig_start s \<Longrightarrow> sig_inv prg s"
  by (cases prg) (auto simp: sig_start_def sig_inv_def reports_def)

lemma task1_inv: "sig_inv Task1 s \<Longrightarrow> life s = Alive \<Longrightarrow> task1_move ok s \<noteq> None \<Longrightarrow> sig_inv Task1 (the (task1_move ok s))"
  by (cases "place s"; cases ok) (simp_all add: sig_inv_def reports_def)

lemma task2_inv: "sig_inv Task2 s \<Longrightarrow> life s = Alive \<Longrightarrow> task2_move ok s \<noteq> None \<Longrightarrow> sig_inv Task2 (the (task2_move ok s))"
  by (cases "place s"; cases ok) (simp_all add: sig_inv_def reports_def)

lemma task3_inv: "sig_inv Task3 s \<Longrightarrow> life s = Alive \<Longrightarrow> task3_move ok s \<noteq> None \<Longrightarrow> sig_inv Task3 (the (task3_move ok s))"
  by (cases "place s"; cases ok; cases "SIGUSR1 \<in> pending s") (simp_all add: sig_inv_def reports_def)

lemma main_inv:
  assumes "sig_inv prg s" "life s = Alive" "task_move prg ok s = Some t"
  shows "sig_inv prg t"
  using task1_inv [of s ok] task2_inv [of s ok] task3_inv [of s ok] assms
  by (cases prg) (simp_all del: task1_move.simps task2_move.simps task3_move.simps)

lemma handler_inv:
  assumes "sig_inv prg s" "life s = Alive" "place s = In_handler p"
  shows "sig_inv prg (handle_sigusr1 p s)"
  using assms by (cases prg) (auto simp: sig_inv_def reports_def handle_sigusr1_def)

lemma interrupt_inv:
  assumes "sig_inv prg s" "life s = Alive" "g \<in> pending s" "g \<notin> blocked s" "g \<in> caught s"
  shows "sig_inv prg (s\<lparr>pending := pending s - {g}, blocked := insert g (blocked s), place := In_handler (place s)\<rparr>)"
  using assms by (cases prg; cases "place s") (auto simp: sig_inv_def reports_def)

lemma kill_inv:
  assumes "sig_inv prg s" "life s = Alive" "g \<in> pending s" "g \<notin> blocked s" "g \<notin> caught s"
  shows "sig_inv prg (s\<lparr>life := Killed g\<rparr>)"
  using assms by (cases prg; cases "place s") (auto simp: sig_inv_def reports_def)

lemma send_inv:
  assumes "sig_inv prg s" "life s = Alive"
  shows "sig_inv prg (s\<lparr>pending := insert g (pending s), sent := (sent s)(g := Suc (sent s g))\<rparr>)"
proof -
  have "place_ok prg (s\<lparr>pending := insert g (pending s), sent := (sent s)(g := Suc (sent s g))\<rparr>) = place_ok prg s"
    by (cases prg; cases "place s") simp_all
  then show ?thesis
    using assms unfolding sig_inv_def by (cases "SIGUSR1 \<in> pending s") (auto simp: reports_def)
qed

interpretation signals: transition_system "sig_step prg" sig_start "sig_inv prg" for prg
proof unfold_locales
  show "sig_inv prg s" if "sig_start s" for s using that by (rule sig_inv_start)
  show "sig_inv prg t" if "sig_inv prg s" "sig_step prg s t" for s t
    using that(2) by cases (use that(1) send_inv kill_inv interrupt_inv handler_inv main_inv in blast)+
qed

section \<open>Property\<close>

text \<open>
  C39: in every reachable state a program that has set itself up has not been killed by the signal that
  it is about (SIGUSR1 for \<open>task1\<close> and \<open>task3\<close>, SIGINT for \<open>task2\<close>), and ends only where its set-up
  fails, with a complaint and status 1. There is at most one line about SIGUSR1 for each one sent, and
  when the loop has nothing left to do there is at least one if any was sent: signals that come
  together are reported together, but never none.
\<close>

theorem signals_reported:
  assumes "reach (sig_step prg) s0 s" "sig_start s0"
  shows "(place s \<noteq> Setup \<longrightarrow> life s = Alive \<or> (\<exists>g. life s = Killed g \<and> g \<noteq> guarded prg)) \<and>
    (\<forall>n. life s = Exited n \<longrightarrow> n = 1 \<and> length (err s) = 1) \<and>
    reports s \<le> sent s SIGUSR1 \<and>
    (0 < sent s SIGUSR1 \<and> SIGUSR1 \<notin> pending s \<and> place s = Loop \<longrightarrow> 0 < reports s)"
  using signals.reach_inv [OF assms] unfolding sig_inv_def by (cases "life s") auto

text \<open>Two signals for the program that waits, before it looks.\<close>

theorem signals_reported_witness:
  "\<exists>s. reach (sig_step Task3) \<lparr>place = Setup, life = Alive, pending = {}, blocked = {}, caught = {}, out = [], err = [], sent = (\<lambda>_. 0)\<rparr> s \<and>
     sent s SIGUSR1 = 2 \<and> place s = Report \<and> life s = Alive \<and> reports s \<le> 2"
proof -
  let ?s0 = "\<lparr>place = Setup, life = Alive, pending = {}, blocked = {}, caught = {}, out = [], err = [], sent = (\<lambda>_. 0)\<rparr>"
  have s0: "sig_start ?s0" by (simp add: sig_start_def)
  have next_main: "reach (sig_step Task3) r t" if "reach (sig_step Task3) r s" "life s = Alive" "task3_move True s = Some t" for r s t
    using reach_step [OF that(1) sig_step.main [OF that(2), of Task3 True]] that(3) by simp
  have next_send: "reach (sig_step Task3) r (s\<lparr>pending := insert SIGUSR1 (pending s), sent := (sent s)(SIGUSR1 := Suc (sent s SIGUSR1))\<rparr>)"
    if "reach (sig_step Task3) r s" "life s = Alive" for r s
    using reach_step [OF that(1) sig_step.send [OF that(2)]] by blast
  have "reach (sig_step Task3) ?s0 (?s0\<lparr>blocked := {SIGUSR1}, place := Announce\<rparr>)" (is "reach _ _ ?s1")
    by (rule next_main [OF reach_init]) simp_all
  then have "reach (sig_step Task3) ?s0 (?s1\<lparr>out := [usr1_blocked], place := Loop\<rparr>)" (is "reach _ _ ?s2")
    by (rule next_main) simp_all
  from next_send [OF next_send [OF this]]
  have "reach (sig_step Task3) ?s0 (?s2\<lparr>pending := {SIGUSR1}, sent := (\<lambda>_. 0)(SIGUSR1 := 2)\<rparr>)" (is "reach _ _ ?s4")
    by (simp add: numeral_2_eq_2)
  then have "reach (sig_step Task3) ?s0 (?s4\<lparr>pending := {}, place := Report\<rparr>)" (is "reach _ _ ?s5")
    by (rule next_main) simp_all
  then show ?thesis using signals_reported [OF _ s0, of Task3 ?s5] by (intro exI [of _ ?s5]) simp
qed

end
