(* ===== verification/Spec2Isabelle.thy ===== *)
theory Spec2Isabelle
  imports Queue_Service Server_Pool Phonebook_Dynamic File_Manager Packets
    Bits Arrays Calculator Text_Tasks Shell_Processes Threads_Counter Threads_Stores
    Echo_Dialogue Sockets_Cast Message_Queues
    Processes Pipes Shared_Memory Text_File Signals
begin

text \<open>
  Verification of a collection of C programs for Linux: exercises on bits, arrays and pointers, two
  phone books, two calculators, a file manager, programs with processes, pipes, signals, threads,
  message queues and shared memory, and clients and servers over sockets, up to frames that are built
  byte by byte. Each program stands alone; what they have in common is C and the operating system, and
  so the development has a base for these, and a theory for each program or family of programs.

  Base.
  \<^item> \<open>Prelude\<close>: undefined behaviour and \<open>exit\<close> as values (\<open>stop\<close>, results of type \<open>'a c\<close>), \<open>int\<close> with
    its overflow check, buffers with their NUL; machines as functions \<open>event \<Rightarrow> state \<Rightarrow> state option\<close>
    and their runs. Locales: \<open>event_system\<close> (an invariant over all runs), \<open>refinement\<close> (each step is
    a step of an abstract machine or invisible there), \<open>commuting\<close> (steps with the diamond property:
    one finished run decides the length and the end of all), \<open>transition_system\<close> (an invariant over
    an inductive relation).
  \<^item> \<open>Stdio\<close>: \<open>scanf\<close> and \<open>fgets\<close> on the list of characters still to be read, end of input included.
  \<^item> \<open>Syscalls\<close>: a program as a tree of system calls whose replies are arbitrary (\<open>play\<close>), several
    such programs side by side on a model of the object they share (\<open>proc_step\<close>), and all ways for two
    of them to go on (\<open>all_ends\<close>, locale \<open>two_processes\<close>).
  \<^item> \<open>Bounded_Fifo\<close>: the interface of a bounded queue.

  Data and text.
  \<^item> \<open>Bits\<close> (\<open>byte_ops/task1and2.c\<close>, \<open>task3.c\<close>, \<open>task4.c\<close>, \<open>pointers/task1.c\<close>): numbers are 32 bit words;
    what is printed reads back, and two ways to replace a byte agree. \<open>Arrays\<close> (\<open>arrays\<close>,
    \<open>pointers/task3.c\<close>): every loop, with the bound from which an \<open>int\<close> overflows. \<open>Text_Tasks\<close>
    (\<open>pointers/task4.c\<close>, \<open>functions/task.c\<close>).
  \<^item> \<open>Phonebook\<close>, \<open>Phonebook_Static\<close> (\<open>structs/task.c\<close>), \<open>Phonebook_Dynamic\<close> (\<open>dynamic/task.c\<close>): the
    record, the menu loop and the searches are shared; the locale \<open>phone_store\<close> is what the loop needs
    of the operations on an array or on a block from \<open>realloc\<close>, both of which interpret it. Every access
    to a record checks its index (\<open>Bad_Index\<close>). Sessions do what the commands say; both programs agree
    up to order while no name is added twice; after any number of rounds the array is intact.
  \<^item> \<open>Calculator\<close> (\<open>libs/static\<close>, \<open>libs/dynamic\<close>): the locale \<open>calc_library\<close> is the interface of the
    library, which the static and the shared one interpret; what \<open>dlsym\<close> finds is an argument.
  \<^item> \<open>File_Manager\<close> (\<open>file system/fm/file_manager.c\<close>): listing, keys, drawing as a list of commands;
    the file system is an argument. The cursor stays in the list and on the screen; the ways to end.
  \<^item> \<open>Text_File\<close> (\<open>file system/hello/hello.c\<close>): any call on the file may fail, \<open>fclose\<close>, which writes the
    buffer, included; every file opened is closed.

  Threads. The machines have one event per thread, and the program counters are the statements
  between which another thread can run; a step of a thread that must wait is no step.
  \<^item> \<open>Threads_Counter\<close> (\<open>pthread/task1.c\<close>, \<open>task2.c\<close>), \<open>Threads_Stores\<close> (\<open>pthread/task3.c\<close>): loads and
    stores are steps of their own. No increment is lost, stock is conserved as long as no \<open>int\<close>
    overflows, which is a flag of the state, nothing deadlocks.
  \<^item> \<open>Server_Queue\<close> (\<open>sockets/hw2/server queue/server.c\<close>): ring, mutex, conditions, workers; the ring
    interprets \<open>bounded_fifo\<close>. \<open>Queue_Invariant\<close>, \<open>Queue_Properties\<close>: order, sleep and progress.
    \<open>Queue_Service\<close>: the abstract service, and that the server refines it.
  \<^item> \<open>Server_Pool\<close> (\<open>sockets/hw2/pserver pool/server.c\<close>): ids, the pipe they come back through,
    failures of \<open>malloc\<close> and \<open>pthread_create\<close>.

  Processes and their communication.
  \<^item> \<open>Processes\<close> (\<open>processes/task1.c\<close>, \<open>task2.c\<close>): the kernel has a process table, wait statuses and
    output buffers; \<open>Pipes\<close> (\<open>pipes/task1.c\<close>, \<open>task2server.c\<close>, \<open>task2client.c\<close>), \<open>Message_Queues\<close>
    (\<open>mq\<close>), \<open>Shared_Memory\<close> (\<open>shm\<close>, one step per character), \<open>Signals\<close> (\<open>signal\<close>, an inductive
    relation).
  \<^item> \<open>Shell\<close> (\<open>pipes/task3.c\<close>, \<open>processes/task3.c\<close>): from the input to the actions; \<open>Shell_Processes\<close>:
    from the actions to descriptors, processes and shells within shells.

  Sockets.
  \<^item> \<open>Sockets\<close> (\<open>sockets/hw1\<close>, eight programs), \<open>Sockets_Servers\<close> (\<open>sockets/hw2\<close>: \<open>pserver\<close>,
    \<open>multiproto\<close>, set-up and clients of all, the echo of one connection of the queue and pool servers,
    whose machines have it as one step), \<open>Echo_Dialogue\<close> (clients and servers of \<open>hw2\<close> together),
    each with what is sent, through which descriptor and to whom (\<open>sends\<close>),
    \<open>Sockets_Cast\<close> (\<open>sockets/hw3\<close>).
  \<^item> \<open>Packets\<close> (\<open>sockets/hw4\<close> to \<open>hw7\<close>): buffers are lists of bytes, with arbitrary content where the
    program does not initialise them; headers, checksum, and what the sniffer makes of them.

  Names: a definition has the name of the function it models where there is one; \<open>main\<close> is
  \<open><program>_main\<close>, and the parts of a long function are named after what they do. Constants of the code
  (\<open>MAX_ABONENTS\<close>, \<open>QUEUE_SIZE\<close> and the like) keep their names and values. Places in the code where
  behaviour is undefined (an overflow, an index out of range, an uninitialised read) are values of
  \<open>stop\<close>, and the properties say for which inputs they are reached.

  Fuel and bounds. An endless loop of a program over system calls is followed for a number \<open>n\<close> of rounds
  and ends in \<open>Running\<close> then; the statements hold for every \<open>n\<close>. The loop that watches shared memory has
  more rounds than the run has steps. \<open>all_ends\<close> has as much fuel as the longest path, and proves that
  it is enough. All other loops are total functions with their measure.

  What the models take for granted. A function of the library does what POSIX says; a system call may
  fail wherever the code looks at its result, and where the code does not look it fails only in the
  models that have an argument for it. No program looks at what \<open>write\<close>, \<open>send\<close> and \<open>sendto\<close> return:
  to send means to hand a message to the kernel. Memory that is mapped with \<open>PROT_WRITE\<close> can be read
  (\<open>shm/posix/server.c\<close>). \<open>strcpy\<close>, \<open>strcmp\<close> and \<open>printf\<close> touch shared memory from left to
  right, one character at a time, and memory is sequentially consistent. A terminal shows a line at
  once, a file or pipe gets it when the process ends. \<open>int\<close> has 32 bits, bytes are in little-endian
  order where the programs are about that.

  Not modelled: \<open>pointers/task2.c\<close>, which adds two \<open>float\<close> numbers, since the library has no floating
  point; the programs that the shells execute; the routing of packets; how \<open>ncurses\<close> draws; build files and the notes in \<open>kernel\<close>.
\<close>

end
